(* ===== verification/Kprelude.thy ===== *)
theory Kprelude
  imports Main "HOL-Library.Word" "HOL-Library.Monad_Syntax"
begin

text \<open>
  Shared vocabulary of the development: the machine types of the kernel, the little-endian
  view of a byte block as an array of 32-bit words (the casts \<open>(uint32_t*)block\<close> of
  \<open>kernel.c\<close>), and the list facts the component theories use.

  Conventions. \<open>uint8_t\<close>, \<open>uint16_t\<close> and \<open>uint32_t\<close> are words of their width. A C
  \<open>int\<close> that is stored, returned or passed on as an address is a 32-bit word too, since
  the conversions between \<open>int\<close> and \<open>uint32_t\<close> keep the bits; \<open>-1\<close> is the word
  \<open>0xFFFFFFFF\<close>, and a signed comparison is written with \<open>sint\<close>. Loop counters are
  natural numbers. An operation whose C code may stop being defined (an index outside an
  array, a null dereference, a read of an indeterminate local) or may never return (a
  device that never answers, unbounded recursion) has an \<open>option\<close> result; \<open>None\<close>
  stands for exactly these outcomes and never for an error code of the program.
\<close>

unbundle bit_operations_syntax

type_synonym byte = "8 word"
type_synonym u16 = "16 word"
type_synonym u32 = "32 word"

lemma unat_of_nat_u32: "n < 2 ^ 32 \<Longrightarrow> unat (of_nat n :: u32) = n"
  by (simp add: unat_of_nat)

lemma div_of_nat_u32: "(x :: u32) div numeral k = of_nat (unat x div unat (numeral k :: u32))"
  and mod_of_nat_u32: "(x :: u32) mod numeral k = of_nat (unat x mod unat (numeral k :: u32))"
  by (simp_all add: word_arith_nat_div word_arith_nat_mod)

named_theorems word_view
  \<open>reading and writing the 32-bit words of a byte block\<close>

section \<open>Generic list facts\<close>

definition splice_at :: "nat \<Rightarrow> 'a list \<Rightarrow> 'a list \<Rightarrow> 'a list" where
  "splice_at i ys xs = take i xs @ ys @ drop (i + length ys) xs"

lemma length_splice_at [simp]:
  "i + length ys \<le> length xs \<Longrightarrow> length (splice_at i ys xs) = length xs"
  by (simp add: splice_at_def)

lemma nth_splice_at:
  assumes "i + length ys \<le> length xs" and "k < length xs"
  shows "splice_at i ys xs ! k = (if i \<le> k \<and> k < i + length ys then ys ! (k - i) else xs ! k)"
  using assms by (auto simp: splice_at_def nth_append min_def)

lemma take_drop_splice_same:
  "i + length ys \<le> length xs \<Longrightarrow> take (length ys) (drop i (splice_at i ys xs)) = ys"
  by (simp add: splice_at_def)

lemma take_drop_splice_other:
  assumes "i + length ys \<le> length xs" and "j + n \<le> i \<or> i + length ys \<le> j"
  shows "take n (drop j (splice_at i ys xs)) = take n (drop j xs)"
proof (rule nth_equalityI)
  show "length (take n (drop j (splice_at i ys xs))) = length (take n (drop j xs))"
    using assms by simp
next
  fix k assume k: "k < length (take n (drop j (splice_at i ys xs)))"
  then have "j + k < length xs" and "k < n" using assms by auto
  with k show "take n (drop j (splice_at i ys xs)) ! k = take n (drop j xs) ! k"
    using assms by (auto simp: nth_splice_at)
qed

lemma find_append: "find P (xs @ ys) = (case find P xs of Some x \<Rightarrow> Some x | None \<Rightarrow> find P ys)"
  by (induction xs) auto

lemma find_map: "find P (map f xs) = map_option f (find (\<lambda>x. P (f x)) xs)"
  by (induction xs) auto

lemma upt_split: "i \<le> j \<Longrightarrow> j \<le> k \<Longrightarrow> [i..<k] = [i..<j] @ [j..<k]"
  by (metis le_add_diff_inverse upt_add_eq_append)

text \<open>A C array access: \<open>None\<close> outside the array.\<close>

definition arr :: "'a list \<Rightarrow> nat \<Rightarrow> 'a option" where
  "arr xs i = (if i < length xs then Some (xs ! i) else None)"

definition arr_upd :: "'a list \<Rightarrow> nat \<Rightarrow> 'a \<Rightarrow> 'a list option" where
  "arr_upd xs i v = (if i < length xs then Some (xs[i := v]) else None)"

lemma arr_simps [simp]:
  "i < length xs \<Longrightarrow> arr xs i = Some (xs ! i)"
  "i < length xs \<Longrightarrow> arr_upd xs i v = Some (xs[i := v])"
  by (simp_all add: arr_def arr_upd_def)

text \<open>C's signed division and remainder, which truncate towards zero.\<close>

definition c_div :: "int \<Rightarrow> int \<Rightarrow> int" where
  "c_div x n = (if x < 0 then - ((- x) div n) else x div n)"

definition c_mod :: "int \<Rightarrow> int \<Rightarrow> int" where
  "c_mod x n = (if x < 0 then - ((- x) mod n) else x mod n)"

text \<open>A counted loop over a state, stopping where its body does not return.\<close>

fun for_each :: "'i list \<Rightarrow> ('i \<Rightarrow> 's \<Rightarrow> 's option) \<Rightarrow> 's \<Rightarrow> 's option" where
  "for_each [] f s = Some s"
| "for_each (i # is) f s = do { s \<leftarrow> f i s; for_each is f s }"

lemma for_each_append: "for_each (is @ js) f s = do { s \<leftarrow> for_each is f s; for_each js f s }"
  by (induction "is" arbitrary: s) (auto split: Option.bind_splits)

text \<open>The loop rule: an invariant indexed by the number of turns done.\<close>

lemma for_each_upt:
  assumes "P 0 s" and "\<And>i s. i < n \<Longrightarrow> P i s \<Longrightarrow> \<exists>s'. f i s = Some s' \<and> P (Suc i) s'"
  shows "\<exists>s'. for_each [0..<n] f s = Some s' \<and> P n s'"
  using assms(2)
proof (induction n)
  case 0
  then show ?case using assms(1) by simp
next
  case (Suc n)
  then obtain s' where "for_each [0..<n] f s = Some s'" "P n s'" by auto
  with Suc.prems [of n s'] show ?case by (auto simp: for_each_append)
qed

text \<open>A transition repeated \<open>n\<close> times.\<close>

primrec iter_opt :: "nat \<Rightarrow> ('s \<Rightarrow> 's option) \<Rightarrow> 's \<Rightarrow> 's option" where
  "iter_opt 0 f s = Some s"
| "iter_opt (Suc n) f s = do { s \<leftarrow> f s; iter_opt n f s }"

section \<open>Little-endian words in bytes\<close>

definition u32_bytes :: "u32 \<Rightarrow> byte list" where
  "u32_bytes x = [ucast x, ucast (drop_bit 8 x), ucast (drop_bit 16 x), ucast (drop_bit 24 x)]"

definition bytes_u32 :: "byte list \<Rightarrow> u32" where
  "bytes_u32 b = ucast (b ! 0) OR push_bit 8 (ucast (b ! 1)) OR push_bit 16 (ucast (b ! 2))
     OR push_bit 24 (ucast (b ! 3))"

lemma length_u32_bytes [simp]: "length (u32_bytes x) = 4"
  by (simp add: u32_bytes_def)

lemma bit_u32_byte:
  "bit (ucast (drop_bit k (x :: u32)) :: byte) n \<longleftrightarrow> n < 8 \<and> bit x (k + n)"
  by (auto simp: bit_ucast_iff bit_drop_bit_eq)

lemma bit_byte_at:
  "bit (push_bit k (ucast (b :: byte) :: u32)) n \<longleftrightarrow> k \<le> n \<and> n < 32 \<and> bit b (n - k)"
  by (auto simp: bit_push_bit_iff bit_ucast_iff)

lemma bytes_u32_bytes [simp, word_view]: "bytes_u32 (u32_bytes x) = x"
proof (rule bit_word_eqI)
  fix n assume "n < LENGTH(32)"
  then consider "n < 8" | "8 \<le> n" "n < 16" | "16 \<le> n" "n < 24" | "24 \<le> n" "n < 32"
    by force
  then show "bit (bytes_u32 (u32_bytes x)) n \<longleftrightarrow> bit x n"
    using bit_u32_byte [of 0 x] bit_byte_at [of 0]
    by cases (simp_all add: bytes_u32_def u32_bytes_def bit_or_iff bit_byte_at bit_u32_byte
        less_diff_conv2)
qed

lemma u32_bytes_u32:
  assumes "length b = 4"
  shows "u32_bytes (bytes_u32 b) = b"
proof -
  from assms obtain b0 b1 b2 b3 where b: "b = [b0, b1, b2, b3]"
    by (auto simp: numeral_eq_Suc length_Suc_conv)
  have bit: "bit (bytes_u32 b) n \<longleftrightarrow> n < 32 \<and>
     (bit b0 n \<or> 8 \<le> n \<and> bit b1 (n - 8) \<or> 16 \<le> n \<and> bit b2 (n - 16) \<or> 24 \<le> n \<and> bit b3 (n - 24))" for n
    using bit_byte_at [of 0] by (auto simp: b bytes_u32_def bit_or_iff bit_byte_at)
  have big: "\<not> bit c n" if "8 \<le> n" for c :: byte and n
    using that by (auto dest: bit_imp_le_length)
  have "ucast (drop_bit 0 (bytes_u32 b)) = b0" "ucast (drop_bit 8 (bytes_u32 b)) = b1"
    "ucast (drop_bit 16 (bytes_u32 b)) = b2" "ucast (drop_bit 24 (bytes_u32 b)) = b3"
    by (rule bit_word_eqI, simp add: bit_u32_byte bit big del: drop_bit_0)+
  then show ?thesis by (simp add: b [symmetric] u32_bytes_def)
qed

text \<open>\<open>((uint32_t*)b)[ i ]\<close> as a value and as the target of an assignment.\<close>

definition word_at :: "byte list \<Rightarrow> nat \<Rightarrow> u32" where
  "word_at b i = bytes_u32 (take 4 (drop (4 * i) b))"

definition put_word :: "byte list \<Rightarrow> nat \<Rightarrow> u32 \<Rightarrow> byte list" where
  "put_word b i w = splice_at (4 * i) (u32_bytes w) b"

lemma length_put_word [simp]: "4 * i + 4 \<le> length b \<Longrightarrow> length (put_word b i w) = length b"
  by (simp add: put_word_def)

lemma word_at_put_word [word_view]:
  assumes "4 * i + 4 \<le> length b"
  shows "word_at (put_word b i w) j = (if i = j then w else word_at b j)"
proof (cases "i = j")
  case True
  then show ?thesis
    using assms take_drop_splice_same [of "4 * i" "u32_bytes w" b]
    by (simp add: word_at_def put_word_def)
next
  case False
  then have "4 * j + 4 \<le> 4 * i \<or> 4 * i + length (u32_bytes w) \<le> 4 * j" by auto
  with assms False show ?thesis
    by (simp add: word_at_def put_word_def take_drop_splice_other)
qed

text \<open>An array of words laid out in memory, and the array read back.\<close>

definition words_bytes :: "u32 list \<Rightarrow> byte list" where
  "words_bytes ws = concat (map u32_bytes ws)"

definition words_at :: "byte list \<Rightarrow> nat \<Rightarrow> nat \<Rightarrow> u32 list" where
  "words_at b i n = map (\<lambda>k. word_at b (i + k)) [0..<n]"

lemma words_bytes_simps [simp]:
  "words_bytes [] = []"
  "words_bytes (w # ws) = u32_bytes w @ words_bytes ws"
  "words_bytes (us @ vs) = words_bytes us @ words_bytes vs"
  by (simp_all add: words_bytes_def)

lemma length_words_bytes [simp]: "length (words_bytes ws) = 4 * length ws"
  by (induction ws) auto

lemma length_words_at [simp]: "length (words_at b i n) = n"
  by (simp add: words_at_def)

lemma nth_words_at [simp]: "k < n \<Longrightarrow> words_at b i n ! k = word_at b (i + k)"
  by (simp add: words_at_def)

lemma word_at_append1: "4 * i + 4 \<le> length xs \<Longrightarrow> word_at (xs @ ys) i = word_at xs i"
  by (simp add: word_at_def)

lemma word_at_append2:
  "length xs = 4 * m \<Longrightarrow> m \<le> i \<Longrightarrow> word_at (xs @ ys) i = word_at ys (i - m)"
  by (simp add: word_at_def diff_mult_distrib2)

lemma word_at_words_bytes [word_view]:
  "i < length ws \<Longrightarrow> word_at (words_bytes ws) i = ws ! i"
proof (induction ws arbitrary: i)
  case (Cons w ws)
  show ?case
  proof (cases i)
    case 0
    then show ?thesis by (simp add: word_at_def)
  next
    case (Suc k)
    with Cons show ?thesis by (simp add: word_at_append2 [of _ 1])
  qed
qed simp

lemma words_at_words_bytes [word_view]:
  "i + n \<le> length ws \<Longrightarrow> words_at (words_bytes ws @ rest) i n = take n (drop i ws)"
  by (rule nth_equalityI) (auto simp: word_at_append1 word_at_words_bytes)

lemma words_at_append1:
  "4 * (i + n) \<le> length xs \<Longrightarrow> words_at (xs @ ys) i n = words_at xs i n"
  by (rule nth_equalityI) (auto simp: word_at_append1)

lemma words_at_put_word [word_view]:
  assumes "4 * j + 4 \<le> length b"
  shows "words_at (put_word b j w) i n =
    (if i \<le> j \<and> j < i + n then (words_at b i n)[j - i := w] else words_at b i n)"
  using assms
  by (auto simp: word_at_put_word nth_list_update intro!: nth_equalityI)

lemma word_at_splice_other:
  assumes "4 * k + 4 * length ws \<le> length b" and "i < k \<or> k + length ws \<le> i"
  shows "word_at (splice_at (4 * k) (words_bytes ws) b) i = word_at b i"
  unfolding word_at_def using assms by (subst take_drop_splice_other) auto

lemma words_at_splice_other:
  assumes "4 * k + 4 * length ws \<le> length b" and "i + n \<le> k \<or> k + length ws \<le> i"
  shows "words_at (splice_at (4 * k) (words_bytes ws) b) i n = words_at b i n"
  using assms by (auto simp: words_at_def word_at_splice_other)

lemma word_at_splice_same:
  assumes "4 * k + 4 * length ws \<le> length b" and "i < length ws"
  shows "word_at (splice_at (4 * k) (words_bytes ws) b) (k + i) = ws ! i"
proof -
  have "word_at (splice_at (4 * k) (words_bytes ws) b) (k + i)
      = word_at (words_bytes ws @ drop (4 * k + 4 * length ws) b) i"
    using assms(1) by (simp add: splice_at_def word_at_append2 [of _ k])
  also have "\<dots> = ws ! i"
    using assms(2) by (simp add: word_at_append1 word_at_words_bytes)
  finally show ?thesis .
qed

lemma words_at_splice_same:
  assumes "4 * k + 4 * length ws \<le> length b" and "i + n \<le> length ws"
  shows "words_at (splice_at (4 * k) (words_bytes ws) b) (k + i) n = take n (drop i ws)"
  using assms by (auto simp: add.assoc word_at_splice_same intro!: nth_equalityI)

section \<open>Step relations\<close>

text \<open>An invariant of a step relation holds along its runs.\<close>

locale transition_invariant =
  fixes step :: "'s \<Rightarrow> 's \<Rightarrow> bool" and inv :: "'s \<Rightarrow> bool"
  assumes step_kept: "inv x \<Longrightarrow> step x y \<Longrightarrow> inv y"
begin

lemma run_kept: "step\<^sup>*\<^sup>* x y \<Longrightarrow> inv x \<Longrightarrow> inv y"
  by (induction rule: rtranclp_induct) (auto intro: step_kept)

end

text \<open>Steps of a system seen as runs of a more abstract one, whose invariants it inherits.\<close>

locale refined_steps = transition_invariant astep inv
  for astep :: "'s \<Rightarrow> 's \<Rightarrow> bool" and inv :: "'s \<Rightarrow> bool" +
  fixes cstep :: "'c \<Rightarrow> 'c \<Rightarrow> bool" and abstr :: "'c \<Rightarrow> 's"
  assumes step_refines: "cstep x y \<Longrightarrow> astep\<^sup>*\<^sup>* (abstr x) (abstr y)"
begin

lemma run_refines: "cstep\<^sup>*\<^sup>* x y \<Longrightarrow> astep\<^sup>*\<^sup>* (abstr x) (abstr y)"
  by (induction rule: rtranclp_induct) (auto intro: rtranclp_trans step_refines)

end

sublocale refined_steps \<subseteq> concrete: transition_invariant cstep "\<lambda>x. inv (abstr x)"
  by unfold_locales (blast intro: run_kept step_refines)

end
