(* ===== verification/Uart.thy ===== *)
theory Uart
  imports Kprelude
begin

text \<open>
  The PL011 serial driver, \<open>src/device/PL011.c\<close>.

  A UART is the bytes sent and not yet taken by the other end (\<open>tx\<close>), the bytes that
  have arrived and not yet been read (\<open>rx\<close>) and the state of the other end
  (\<open>host\<close>). What the other end does is a parameter, the function \<open>peer\<close>: given its
  state and the pending bytes it returns the bytes it leaves pending, the bytes it answers
  and its new state. The busy-wait of \<open>PL011_getc\<close> lets the peer run; when the peer
  stays silent on an empty receive FIFO the loop never ends, which is \<open>None\<close>.
  The busy-wait of \<open>PL011_putc\<close> ends as soon as the transmit FIFO drains; FIFO capacity
  is not modelled.
\<close>

record 'h uart =
  tx :: "byte list"
  rx :: "byte list"
  host :: 'h

type_synonym 'h peer = "'h \<Rightarrow> byte list \<Rightarrow> byte list \<times> byte list \<times> 'h"

section \<open>Hexadecimal digits\<close>

text \<open>\<open>char\<close> is unsigned on this target, so a digit is a byte; \<open>int\<close> results are
  mathematical integers, all of them between -1 and 15.\<close>

definition xtoi :: "byte \<Rightarrow> int" where
  "xtoi x =
     (if 0x30 \<le> x \<and> x \<le> 0x39 then 0 + (uint x - 0x30)
      else if 0x61 \<le> x \<and> x \<le> 0x66 then 10 + (uint x - 0x61)
      else if 0x41 \<le> x \<and> x \<le> 0x46 then 10 + (uint x - 0x41)
      else -1)"

definition itox :: "int \<Rightarrow> byte" where
  "itox x =
     (if 0 \<le> x \<and> x \<le> 9 then word_of_int (0x30 + (x - 0))
      else if 10 \<le> x \<and> x \<le> 15 then word_of_int (0x41 + (x - 10))
      else word_of_int (-1))"

section \<open>Bytes and hexified bytes on the wire\<close>

definition PL011_putc :: "byte \<Rightarrow> 'h uart \<Rightarrow> 'h uart" where
  "PL011_putc x d = d\<lparr>tx := tx d @ [x]\<rparr>"

definition PL011_getc :: "'h peer \<Rightarrow> 'h uart \<Rightarrow> (byte \<times> 'h uart) option" where
  "PL011_getc peer d =
     (case rx d of
        x # xs \<Rightarrow> Some (x, d\<lparr>rx := xs\<rparr>)
      | [] \<Rightarrow>
          (case peer (host d) (tx d) of
             (tx', [], h') \<Rightarrow> None
           | (tx', x # xs, h') \<Rightarrow> Some (x, d\<lparr>tx := tx', rx := xs, host := h'\<rparr>)))"

definition PL011_puth :: "byte \<Rightarrow> 'h uart \<Rightarrow> 'h uart" where
  "PL011_puth x d =
     PL011_putc (itox (uint (drop_bit 0 x AND 0xF)))
       (PL011_putc (itox (uint (drop_bit 4 x AND 0xF))) d)"

definition PL011_geth :: "'h peer \<Rightarrow> 'h uart \<Rightarrow> (byte \<times> 'h uart) option" where
  "PL011_geth peer d = do {
     (c, d) \<leftarrow> PL011_getc peer d;
     let x = (word_of_int (push_bit 4 (xtoi c)) :: byte);
     (c, d) \<leftarrow> PL011_getc peer d;
     Some (x OR word_of_int (push_bit 0 (xtoi c)), d)
   }"

section \<open>Digits round-trip\<close>

definition hex :: "byte \<Rightarrow> byte list" where
  "hex x = [itox (uint (drop_bit 4 x AND 0xF)), itox (uint (x AND 0xF))]"

text \<open>Decoding a pair of digits as \<open>PL011_geth\<close> does.\<close>

definition unhex :: "byte \<Rightarrow> byte \<Rightarrow> byte" where
  "unhex c c' = word_of_int (push_bit 4 (xtoi c)) OR word_of_int (xtoi c')"

lemma uint_itox:
  assumes "0 \<le> x" and "x \<le> 15"
  shows "uint (itox x) = (if x \<le> 9 then 48 + x else 55 + x)"
  using assms by (auto simp: itox_def uint_word_ariths uint_word_of_int take_bit_eq_mod)

lemma xtoi_itox:
  assumes "0 \<le> x" and "x \<le> 15"
  shows "xtoi (itox x) = x"
  using assms by (auto simp: xtoi_def word_le_def uint_itox)

lemma itox_not_blank:
  assumes "0 \<le> x" and "x \<le> 15"
  shows "itox x \<noteq> 10" "itox x \<noteq> 32"
  using uint_itox [OF assms] assms by (auto split: if_splits)

lemma and_nibble: "(b AND 0xF :: byte) = take_bit 4 b"
  by (simp add: take_bit_eq_mask mask_numeral)

lemma nibble_bound:
  "0 \<le> uint (b AND 0xF :: byte)" "uint (b AND 0xF :: byte) \<le> 15"
proof -
  have "(b AND 0xF :: byte) \<le> 0xF" by (rule word_and_le1)
  then show "uint (b AND 0xF :: byte) \<le> 15" by (simp add: word_le_def)
qed simp

lemma unhex_hex: "unhex (itox (uint (drop_bit 4 x AND 0xF))) (itox (uint (x AND 0xF))) = x"
proof -
  have "word_of_int (push_bit 4 (uint (drop_bit 4 x AND 0xF))) = (push_bit 4 (drop_bit 4 x) :: byte)"
    by (rule bit_word_eqI) (auto simp: and_nibble bit_simps)
  moreover have "push_bit 4 (drop_bit 4 x) OR (x AND 0xF) = x"
    by (rule bit_word_eqI) (auto simp: and_nibble bit_simps)
  ultimately show ?thesis
    by (simp add: unhex_def xtoi_itox nibble_bound)
qed

lemma hex_not_blank: "c \<in> set (hex x) \<Longrightarrow> c \<noteq> 10 \<and> c \<noteq> 32"
  by (auto simp: hex_def itox_not_blank nibble_bound)

section \<open>Effect of the driver on the wire\<close>

lemma tx_putc [simp]: "tx (PL011_putc x d) = tx d @ [x]"
  by (simp add: PL011_putc_def)

lemma rx_putc [simp]: "rx (PL011_putc x d) = rx d" and host_putc [simp]: "host (PL011_putc x d) = host d"
  by (simp_all add: PL011_putc_def)

lemma tx_puth [simp]: "tx (PL011_puth x d) = tx d @ hex x"
  by (simp add: PL011_puth_def hex_def)

lemma rx_puth [simp]: "rx (PL011_puth x d) = rx d" and host_puth [simp]: "host (PL011_puth x d) = host d"
  by (simp_all add: PL011_puth_def)

lemma getc_buffered [simp]: "PL011_getc peer (d\<lparr>rx := x # xs\<rparr>) = Some (x, d\<lparr>rx := xs\<rparr>)"
  by (simp add: PL011_getc_def)

lemma getc_rx: "rx d = x # xs \<Longrightarrow> PL011_getc peer d = Some (x, d\<lparr>rx := xs\<rparr>)"
  by (simp add: PL011_getc_def)

text \<open>A reader on an empty FIFO sees the state the peer leaves behind.\<close>

lemma getc_pump:
  assumes "rx d = []" and "peer (host d) (tx d) = (t, x # xs, h)"
  shows "PL011_getc peer d = PL011_getc peer (d\<lparr>tx := t, rx := x # xs, host := h\<rparr>)"
  using assms by (simp add: PL011_getc_def)

lemma getc_silent:
  "rx d = [] \<Longrightarrow> peer (host d) (tx d) = (t, [], h) \<Longrightarrow> PL011_getc peer d = None"
  by (simp add: PL011_getc_def)

lemma geth_buffered: "PL011_geth peer (d\<lparr>rx := c # c' # xs\<rparr>) = Some (unhex c c', d\<lparr>rx := xs\<rparr>)"
  by (simp add: PL011_geth_def unhex_def)

lemma geth_hex [simp]: "PL011_geth peer (d\<lparr>rx := hex x @ xs\<rparr>) = Some (x, d\<lparr>rx := xs\<rparr>)"
  by (simp add: hex_def geth_buffered unhex_hex)

lemma geth_rx: "rx d = hex x @ xs \<Longrightarrow> PL011_geth peer d = Some (x, d\<lparr>rx := xs\<rparr>)"
  using unhex_hex [of x] by (simp add: PL011_geth_def hex_def getc_rx unhex_def)

text \<open>Hexified transmission is lossless: whatever byte \<open>PL011_puth\<close> sends, the bytes
  it put on the wire are exactly what a \<open>PL011_geth\<close> at the other end decodes to the same
  byte, consuming them and nothing else.\<close>

lemma puth_geth_roundtrip:
  "PL011_geth peer \<lparr>tx = [], rx = tx (PL011_puth x \<lparr>tx = [], rx = r, host = h\<rparr>) @ rest, host = h'\<rparr>
     = Some (x, \<lparr>tx = [], rx = rest, host = h'\<rparr>)"
  using geth_hex [where peer = peer and d = "\<lparr>tx = [], rx = [], host = h'\<rparr>" and x = x and xs = rest]
  by simp

end
