(* ===== verification/Diskdrv.thy ===== *)
theory Diskdrv
  imports Uart
begin

text \<open>
  The disk driver \<open>src/device/disk.c\<close> and the disk server at the other end of UART1,
  \<open>src/device/disk.py\<close>.

  The driver sends one request line of hexified bytes and reads one acknowledgement line,
  at most \<open>RETRY\<close> times. The server is a peer in the sense of theory \<open>Uart\<close>: it waits
  for a whole line, serves it on the disk image and answers; an exception in the server
  (a malformed request, a seek to a negative offset) ends it, and every later read of the
  driver spins. The theory ends with the disk as the kernel sees it, a map from block
  addresses to blocks, the interface every client relies on, and the proof that the driver
  and the server together implement it.
\<close>

section \<open>The driver\<close>

definition RETRY :: nat where
  "RETRY = 3"

definition addr_puth :: "u32 \<Rightarrow> 'h uart \<Rightarrow> 'h uart" where
  "addr_puth x d =
     PL011_puth (ucast (drop_bit 24 x AND 0xFF))
       (PL011_puth (ucast (drop_bit 16 x AND 0xFF))
         (PL011_puth (ucast (drop_bit 8 x AND 0xFF))
           (PL011_puth (ucast (drop_bit 0 x AND 0xFF)) d)))"

fun data_puth :: "byte list \<Rightarrow> 'h uart \<Rightarrow> 'h uart" where
  "data_puth [] d = d"
| "data_puth (x # xs) d = data_puth xs (PL011_puth x d)"

fun data_geth :: "'h peer \<Rightarrow> nat \<Rightarrow> 'h uart \<Rightarrow> (byte list \<times> 'h uart) option" where
  "data_geth peer 0 d = Some ([], d)"
| "data_geth peer (Suc n) d = do {
     (x, d) \<leftarrow> PL011_geth peer d;
     (xs, d) \<leftarrow> data_geth peer n d;
     Some (x # xs, d)
   }"

text \<open>\<open>disk_get_block_num\<close> and \<open>disk_get_block_len\<close> differ in the word of the
  configuration they return.\<close>

fun disk_get_conf :: "(byte list \<Rightarrow> u32) \<Rightarrow> nat \<Rightarrow> 'h peer \<Rightarrow> 'h uart \<Rightarrow> (u32 \<times> 'h uart) option" where
  "disk_get_conf sel 0 peer d = Some (-1, d)"
| "disk_get_conf sel (Suc i) peer d = do {
     let d = PL011_putc 10 (PL011_puth 0x00 d);
     (c, d) \<leftarrow> PL011_geth peer d;
     (if c = 0x00 then do {
        (_, d) \<leftarrow> PL011_getc peer d;
        (x, d) \<leftarrow> data_geth peer 8 d;
        (_, d) \<leftarrow> PL011_getc peer d;
        Some (sel x, d)
      }
      else do {
        (_, d) \<leftarrow> PL011_getc peer d;
        disk_get_conf sel i peer d
      })
   }"

definition disk_get_block_num :: "'h peer \<Rightarrow> 'h uart \<Rightarrow> (u32 \<times> 'h uart) option" where
  "disk_get_block_num = disk_get_conf
     (\<lambda>x. push_bit 0 (ucast (x ! 0)) OR push_bit 8 (ucast (x ! 1)) OR push_bit 16 (ucast (x ! 2))
        OR push_bit 24 (ucast (x ! 3))) RETRY"

definition disk_get_block_len :: "'h peer \<Rightarrow> 'h uart \<Rightarrow> (u32 \<times> 'h uart) option" where
  "disk_get_block_len = disk_get_conf
     (\<lambda>x. push_bit 0 (ucast (x ! 4)) OR push_bit 8 (ucast (x ! 5)) OR push_bit 16 (ucast (x ! 6))
        OR push_bit 24 (ucast (x ! 7))) RETRY"

fun disk_wr_try :: "nat \<Rightarrow> 'h peer \<Rightarrow> u32 \<Rightarrow> byte list \<Rightarrow> 'h uart \<Rightarrow> 'h uart option" where
  "disk_wr_try 0 peer a x d = Some d"
| "disk_wr_try (Suc i) peer a x d = do {
     let d = PL011_putc 10 (data_puth x (PL011_putc 32 (addr_puth a (PL011_putc 32 (PL011_puth 0x01 d)))));
     (c, d) \<leftarrow> PL011_geth peer d;
     (if c = 0x00 then do {
        (_, d) \<leftarrow> PL011_getc peer d;
        Some d
      }
      else do {
        (_, d) \<leftarrow> PL011_getc peer d;
        disk_wr_try i peer a x d
      })
   }"

definition disk_wr :: "'h peer \<Rightarrow> u32 \<Rightarrow> byte list \<Rightarrow> 'h uart \<Rightarrow> 'h uart option" where
  "disk_wr = disk_wr_try RETRY"

text \<open>\<open>disk_rd\<close> fills the first \<open>n\<close> bytes of the caller's buffer, or leaves it as it
  was when every attempt is refused.\<close>

fun disk_rd_try :: "nat \<Rightarrow> 'h peer \<Rightarrow> u32 \<Rightarrow> byte list \<Rightarrow> nat \<Rightarrow> 'h uart \<Rightarrow> (byte list \<times> 'h uart) option"
where
  "disk_rd_try 0 peer a buf n d = Some (buf, d)"
| "disk_rd_try (Suc i) peer a buf n d = do {
     let d = PL011_putc 10 (addr_puth a (PL011_putc 32 (PL011_puth 0x02 d)));
     (c, d) \<leftarrow> PL011_geth peer d;
     (if c = 0x00 then do {
        (_, d) \<leftarrow> PL011_getc peer d;
        (x, d) \<leftarrow> data_geth peer n d;
        (_, d) \<leftarrow> PL011_getc peer d;
        Some (x @ drop n buf, d)
      }
      else do {
        (_, d) \<leftarrow> PL011_getc peer d;
        disk_rd_try i peer a buf n d
      })
   }"

definition disk_rd :: "'h peer \<Rightarrow> u32 \<Rightarrow> byte list \<Rightarrow> nat \<Rightarrow> 'h uart \<Rightarrow> (byte list \<times> 'h uart) option" where
  "disk_rd = disk_rd_try RETRY"

section \<open>The server\<close>

record server =
  img :: "byte list"
  block_num :: nat
  block_len :: nat
  alive :: bool

text \<open>The parts of Python's library the server uses, on byte strings: \<open>str.split(' ')\<close>,
  \<open>str.strip()\<close>, \<open>binascii.hexlify\<close> and \<open>binascii.unhexlify\<close> (\<open>None\<close> for the
  exception) and a write into a file at an offset.\<close>

fun split_sp :: "byte list \<Rightarrow> byte list list" where
  "split_sp [] = [[]]"
| "split_sp (c # cs) =
     (if c = 32 then [] # split_sp cs
      else (case split_sp cs of w # ws \<Rightarrow> (c # w) # ws | [] \<Rightarrow> [[c]]))"

definition py_space :: "byte \<Rightarrow> bool" where
  "py_space c \<longleftrightarrow> c = 32 \<or> 9 \<le> c \<and> c \<le> 13"

definition strip :: "byte list \<Rightarrow> byte list" where
  "strip l = rev (dropWhile py_space (rev (dropWhile py_space l)))"

definition py_digit :: "int \<Rightarrow> byte" where
  "py_digit x = (if x \<le> 9 then word_of_int (48 + x) else word_of_int (87 + x))"

definition hexlify :: "byte list \<Rightarrow> byte list" where
  "hexlify xs = concat (map (\<lambda>x. [py_digit (uint (drop_bit 4 x)), py_digit (uint (x AND 0xF))]) xs)"

fun unhexlify :: "byte list \<Rightarrow> byte list option" where
  "unhexlify [] = Some []"
| "unhexlify [c] = None"
| "unhexlify (c # c' # cs) =
     (if xtoi c = -1 \<or> xtoi c' = -1 then None
      else map_option (\<lambda>xs. unhex c c' # xs) (unhexlify cs))"

definition file_write :: "nat \<Rightarrow> byte list \<Rightarrow> byte list \<Rightarrow> byte list" where
  "file_write p data f = splice_at p data (f @ replicate (p + length data - length f) 0)"

text \<open>\<open>struct.unpack('<l', ...)\<close> is a signed 32-bit value and fails unless it is given
  four bytes.\<close>

definition unpack_l :: "byte list \<Rightarrow> int option" where
  "unpack_l b = (if length b = 4 then Some (sint (bytes_u32 b)) else None)"

definition pack_l :: "nat \<Rightarrow> byte list" where
  "pack_l n = u32_bytes (of_nat n)"

definition ACK_OKAY :: "byte list" where
  "ACK_OKAY = [0x30, 0x30]"

definition ACK_FAIL :: "byte list" where
  "ACK_FAIL = [0x30, 0x31]"

definition srv_conf :: "server \<Rightarrow> byte list list \<Rightarrow> (server \<times> byte list list) option" where
  "srv_conf h req = Some (h, [ACK_OKAY, pack_l (block_num h) @ pack_l (block_len h)])"

definition srv_wr :: "server \<Rightarrow> byte list list \<Rightarrow> (server \<times> byte list list) option" where
  "srv_wr h req = do {
     r1 \<leftarrow> (if 1 < length req then Some (req ! 1) else None);
     ab \<leftarrow> unhexlify r1;
     address \<leftarrow> unpack_l ab;
     r2 \<leftarrow> (if 2 < length req then Some (req ! 2) else None);
     data \<leftarrow> unhexlify r2;
     (if int (block_num h) \<le> address then Some (h, [ACK_FAIL])
      else if address * int (block_len h) < 0 then None
      else Some (h\<lparr>img := file_write (nat address * block_len h) data (img h)\<rparr>, [ACK_OKAY]))
   }"

definition srv_rd :: "server \<Rightarrow> byte list list \<Rightarrow> (server \<times> byte list list) option" where
  "srv_rd h req = do {
     r1 \<leftarrow> (if 1 < length req then Some (req ! 1) else None);
     ab \<leftarrow> unhexlify r1;
     address \<leftarrow> unpack_l ab;
     (if int (block_num h) \<le> address then Some (h, [ACK_FAIL])
      else if address * int (block_len h) < 0 then None
      else Some (h, [ACK_OKAY, take (block_len h) (drop (nat address * block_len h) (img h))]))
   }"

text \<open>One turn of the server's main loop on one line: dispatch, then the acknowledgement
  with its data hexified.\<close>

definition srv_turn :: "server \<Rightarrow> byte list \<Rightarrow> (server \<times> byte list) option" where
  "srv_turn h line = do {
     let req = split_sp (strip line);
     (h, ack) \<leftarrow>
       (if req ! 0 = [0x30, 0x30] then srv_conf h req
        else if req ! 0 = [0x30, 0x31] then srv_wr h req
        else if req ! 0 = [0x30, 0x32] then srv_rd h req
        else Some (h, [ACK_FAIL]));
     Some (h, (case ack of
                 [a] \<Rightarrow> a
               | a # ds \<Rightarrow> a @ concat (map (\<lambda>x. 32 # hexlify x) ds)
               | [] \<Rightarrow> []) @ [10])
   }"

definition disk_py :: "server peer" where
  "disk_py h t =
     (if \<not> alive h \<or> 10 \<notin> set t then (t, [], h)
      else
        (let line = takeWhile (\<lambda>c. c \<noteq> 10) t; rest = tl (dropWhile (\<lambda>c. c \<noteq> 10) t)
         in (case srv_turn h line of
               None \<Rightarrow> (rest, [], h\<lparr>alive := False\<rparr>)
             | Some (h', ack) \<Rightarrow> (rest, ack, h'))))"

section \<open>Request and acknowledgement lines\<close>

definition hexs :: "byte list \<Rightarrow> byte list" where
  "hexs xs = concat (map hex xs)"

lemma hexs_simps [simp]: "hexs [] = []" "hexs (x # xs) = hex x @ hexs xs"
  by (simp_all add: hexs_def)

lemma hexs_not_blank: "c \<in> set (hexs xs) \<Longrightarrow> c \<noteq> 10 \<and> c \<noteq> 32"
  by (auto simp: hexs_def dest: hex_not_blank)

lemma no_blank [simp]: "32 \<notin> set (hex x)" "32 \<notin> set (hexs xs)" "10 \<notin> set (hex x)" "10 \<notin> set (hexs xs)"
  using hex_not_blank hexs_not_blank by blast+

lemma tx_data_puth [simp]: "tx (data_puth xs d) = tx d @ hexs xs"
  and rx_data_puth [simp]: "rx (data_puth xs d) = rx d"
  and host_data_puth [simp]: "host (data_puth xs d) = host d"
  by (induction xs arbitrary: d) auto

lemma addr_byte: "(ucast (drop_bit k (x :: u32) AND 0xFF) :: byte) = ucast (drop_bit k x)"
proof -
  have "drop_bit k x AND 0xFF = take_bit 8 (drop_bit k x)"
    by (simp add: take_bit_eq_mask mask_numeral)
  then show ?thesis by (simp only:) (rule bit_word_eqI, auto simp: bit_simps)
qed

lemma tx_addr_puth [simp]: "tx (addr_puth a d) = tx d @ hexs (u32_bytes a)"
  and rx_addr_puth [simp]: "rx (addr_puth a d) = rx d"
  and host_addr_puth [simp]: "host (addr_puth a d) = host d"
  using addr_byte [of 0 a] by (simp_all add: addr_puth_def addr_byte u32_bytes_def)

lemma uart_eqI: "tx d = tx d' \<Longrightarrow> rx d = rx d' \<Longrightarrow> host d = host d' \<Longrightarrow> d = (d' :: 'h uart)"
  by (cases d, cases d') simp

lemma data_geth_hex:
  assumes "\<And>x. x \<in> set xs \<Longrightarrow> \<exists>c c'. enc x = [c, c'] \<and> unhex c c' = x"
  shows "data_geth peer (length xs) (d\<lparr>rx := concat (map enc xs) @ ys\<rparr>) = Some (xs, d\<lparr>rx := ys\<rparr>)"
  using assms
proof (induction xs)
  case (Cons x xs)
  from Cons.prems [of x] obtain c c' where "enc x = [c, c']" "unhex c c' = x" by auto
  with Cons show ?case by (simp add: geth_buffered)
qed simp

lemma py_digit_value:
  assumes "0 \<le> x" and "x \<le> 15"
  shows "xtoi (py_digit x) = x"
proof -
  have "uint (py_digit x) = (if x \<le> 9 then 48 + x else 87 + x)"
    using assms by (auto simp: py_digit_def uint_word_ariths uint_word_of_int take_bit_eq_mod)
  with assms show ?thesis by (auto simp: xtoi_def word_le_def)
qed

lemma unhex_py_digits: "unhex (py_digit (uint (drop_bit 4 x))) (py_digit (uint (x AND 0xF))) = x"
proof -
  have "drop_bit 4 x = drop_bit 4 x AND 0xF"
    by (rule bit_word_eqI) (auto simp: and_nibble bit_simps dest: bit_imp_le_length)
  then have "xtoi (py_digit (uint (drop_bit 4 x))) = xtoi (itox (uint (drop_bit 4 x AND 0xF)))"
    by (metis nibble_bound py_digit_value xtoi_itox)
  moreover have "xtoi (py_digit (uint (x AND 0xF))) = xtoi (itox (uint (x AND 0xF)))"
    by (metis nibble_bound py_digit_value xtoi_itox)
  ultimately show ?thesis
    using unhex_hex [of x] by (simp add: unhex_def)
qed

lemma hexlify_append: "hexlify (xs @ ys) = hexlify xs @ hexlify ys"
  by (simp add: hexlify_def)

lemma data_geth_hexlify:
  "data_geth peer (length xs) (d\<lparr>rx := hexlify xs @ ys\<rparr>) = Some (xs, d\<lparr>rx := ys\<rparr>)"
  unfolding hexlify_def by (rule data_geth_hex) (simp add: unhex_py_digits)

lemma unhexlify_hexs [simp]: "unhexlify (hexs xs) = Some xs"
proof (induction xs)
  case (Cons x xs)
  have "xtoi (itox i) \<noteq> -1" if "0 \<le> i" "i \<le> 15" for i
    using xtoi_itox [OF that] that by simp
  then have "xtoi (itox (uint (b AND 0xF :: byte))) \<noteq> -1" for b
    using nibble_bound by blast
  with Cons show ?case by (simp add: hex_def unhex_hex)
qed simp

lemma split_sp_word: "32 \<notin> set w \<Longrightarrow> split_sp w = [w]"
  by (induction w) auto

lemma split_sp_cons: "32 \<notin> set w \<Longrightarrow> split_sp (w @ 32 # rest) = w # split_sp rest"
  by (induction w) auto

lemma dropWhile_hd: "l \<noteq> [] \<Longrightarrow> \<not> P (hd l) \<Longrightarrow> dropWhile P l = l"
  by (cases l) auto

lemma strip_id:
  "l \<noteq> [] \<Longrightarrow> \<not> py_space (hd l) \<Longrightarrow> \<not> py_space (last l) \<Longrightarrow> strip l = l"
  by (simp add: strip_def dropWhile_hd hd_rev)

lemma itox_not_space:
  assumes "0 \<le> x" and "x \<le> 15"
  shows "\<not> py_space (itox x)"
  using uint_itox [OF assms] assms by (auto simp: py_space_def word_le_def word_uint_eq_iff)

lemma hexs_not_space: "c \<in> set (hexs xs) \<Longrightarrow> \<not> py_space c"
  by (auto simp: hexs_def hex_def itox_not_space nibble_bound)

lemma hexs_eq_Nil [simp]: "hexs xs = [] \<longleftrightarrow> xs = []"
  by (cases xs) (auto simp: hex_def)

lemma u32_bytes_neq_Nil [simp]: "u32_bytes a \<noteq> []"
  by (simp add: u32_bytes_def)

lemma hex_cmd: "hex 0 = [0x30, 0x30]" "hex 1 = [0x30, 0x31]" "hex 2 = [0x30, 0x32]"
  by (simp_all add: hex_def itox_def)

text \<open>The line \<open>disk_wr\<close> sends and the line \<open>disk_rd\<close> sends.\<close>

definition wr_line :: "u32 \<Rightarrow> byte list \<Rightarrow> byte list" where
  "wr_line a x = hex 1 @ 32 # hexs (u32_bytes a) @ 32 # hexs x"

definition rd_line :: "u32 \<Rightarrow> byte list" where
  "rd_line a = hex 2 @ 32 # hexs (u32_bytes a)"

lemma strip_line:
  assumes "xs \<noteq> []"
  shows "strip (hex c @ 32 # r @ hexs xs) = hex c @ 32 # r @ hexs xs"
proof (rule strip_id)
  have "\<not> py_space (last (hexs xs))"
    by (rule hexs_not_space [of _ xs]) (simp add: assms)
  then show "\<not> py_space (last (hex c @ 32 # r @ hexs xs))" using assms by simp
  show "\<not> py_space (hd (hex c @ 32 # r @ hexs xs))"
    using hexs_not_space [of "hd (hex c)" "[c]"] by (simp add: hex_def)
qed (simp add: hex_def)

lemma srv_turn_wr:
  assumes "x \<noteq> []"
  shows "srv_turn h (wr_line a x) =
    (if int (block_num h) \<le> sint a then Some (h, ACK_FAIL @ [10])
     else if sint a * int (block_len h) < 0 then None
     else Some (h\<lparr>img := file_write (nat (sint a) * block_len h) x (img h)\<rparr>, ACK_OKAY @ [10]))"
proof -
  have "strip (wr_line a x) = wr_line a x"
    using strip_line [OF assms, of 1 "hexs (u32_bytes a) @ [32]"] by (simp add: wr_line_def)
  moreover have "split_sp (wr_line a x) = [hex 1, hexs (u32_bytes a), hexs x]"
    by (simp add: wr_line_def split_sp_cons split_sp_word)
  ultimately show ?thesis
    by (simp add: srv_turn_def srv_wr_def hex_cmd unpack_l_def)
qed

lemma srv_turn_rd:
  "srv_turn h (rd_line a) =
    (if int (block_num h) \<le> sint a then Some (h, ACK_FAIL @ [10])
     else if sint a * int (block_len h) < 0 then None
     else Some (h, ACK_OKAY @ 32 # hexlify (take (block_len h) (drop (nat (sint a) * block_len h) (img h)))
                   @ [10]))"
proof -
  have "strip (rd_line a) = rd_line a"
    using strip_line [of "u32_bytes a" 2 "[]"] by (simp add: rd_line_def)
  moreover have "split_sp (rd_line a) = [hex 2, hexs (u32_bytes a)]"
    by (simp add: rd_line_def split_sp_cons split_sp_word)
  ultimately show ?thesis
    by (simp add: srv_turn_def srv_rd_def hex_cmd unpack_l_def)
qed

lemma no_newline_lines: "10 \<notin> set (wr_line a x)" "10 \<notin> set (rd_line a)"
  by (simp_all add: wr_line_def rd_line_def)

lemma disk_py_line:
  assumes "alive h" and "10 \<notin> set l"
  shows "disk_py h (l @ [10]) =
    (case srv_turn h l of None \<Rightarrow> ([], [], h\<lparr>alive := False\<rparr>) | Some (h', ack) \<Rightarrow> ([], ack, h'))"
  using assms by (simp add: disk_py_def takeWhile_append dropWhile_append)

section \<open>The disk as the kernel sees it\<close>

text \<open>
  A disk is its number of blocks and the contents of each block. A kernel read fills the
  512-byte buffer of its caller: it succeeds on a valid address, leaves the buffer alone on
  an address the server refuses, and never returns on an address that is negative as an
  \<open>int\<close>. \<open>blk_rd\<close> is the read into a buffer that holds nothing yet, so a refused
  address leaves it indeterminate; \<open>blk_rd_into\<close> is the read into a buffer that already
  holds a block. \<open>blk_wr\<close> overwrites the first bytes of a block.
\<close>

record disk =
  dnum :: nat
  dblk :: "u32 \<Rightarrow> byte list"

definition blk_rd :: "disk \<Rightarrow> u32 \<Rightarrow> byte list option" where
  "blk_rd d a = (if 0 \<le> sint a \<and> sint a < int (dnum d) then Some (dblk d a) else None)"

definition blk_rd_into :: "disk \<Rightarrow> u32 \<Rightarrow> byte list \<Rightarrow> byte list option" where
  "blk_rd_into d a buf =
     (if sint a < 0 then None else if sint a < int (dnum d) then Some (dblk d a) else Some buf)"

definition blk_wr :: "disk \<Rightarrow> u32 \<Rightarrow> byte list \<Rightarrow> disk option" where
  "blk_wr d a x =
     (if sint a < 0 then None
      else if sint a < int (dnum d)
      then Some (d\<lparr>dblk := (dblk d)(a := x @ drop (length x) (dblk d a))\<rparr>)
      else Some d)"

definition wf_disk :: "disk \<Rightarrow> bool" where
  "wf_disk d \<longleftrightarrow> (\<forall>a. 0 \<le> sint a \<and> sint a < int (dnum d) \<longrightarrow> length (dblk d a) = 512)"

section \<open>What the driver does on the server\<close>

text \<open>A running server whose image has the size it was configured with.\<close>

definition serving :: "server \<Rightarrow> bool" where
  "serving h \<longleftrightarrow> alive h \<and> block_len h = 512 \<and> block_num h < 2 ^ 31
     \<and> length (img h) = block_num h * 512"

text \<open>A line with nothing in flight.\<close>

abbreviation quiet :: "'h \<Rightarrow> 'h uart" where
  "quiet h \<equiv> \<lparr>tx = [], rx = [], host = h\<rparr>"

definition server_disk :: "server \<Rightarrow> disk" where
  "server_disk h = \<lparr>dnum = block_num h,
     dblk = (\<lambda>a. if 0 \<le> sint a \<and> sint a < int (block_num h)
                  then take 512 (drop (nat (sint a) * 512) (img h)) else [])\<rparr>"

text \<open>The first read after a request line runs the server.\<close>

lemma geth_after_line:
  assumes "tx d = l @ [10]" and "rx d = []" and "host d = h" and "alive h" and "10 \<notin> set l"
    and "srv_turn h l = Some (h', hex c @ ack)"
  shows "PL011_geth disk_py d = Some (c, \<lparr>tx = [], rx = ack, host = h'\<rparr>)"
proof -
  from assms have "disk_py (host d) (tx d) = ([], hex c @ ack, h')"
    by (simp add: disk_py_line)
  with assms(2) have "PL011_geth disk_py d = PL011_geth disk_py (d\<lparr>tx := [], rx := hex c @ ack, host := h'\<rparr>)"
    by (simp add: PL011_geth_def hex_def getc_pump)
  also have "\<dots> = Some (c, \<lparr>tx = [], rx = ack, host = h'\<rparr>)"
    by (simp add: geth_rx)
  finally show ?thesis .
qed

lemma geth_crash:
  assumes "tx d = l @ [10]" and "rx d = []" and "host d = h" and "alive h" and "10 \<notin> set l"
    and "srv_turn h l = None"
  shows "PL011_geth disk_py d = None"
proof -
  from assms have "disk_py (host d) (tx d) = ([], [], h\<lparr>alive := False\<rparr>)"
    by (simp add: disk_py_line)
  with assms(2) show ?thesis by (simp add: PL011_geth_def getc_silent)
qed

lemma ack_hex: "ACK_OKAY = hex 0" "ACK_FAIL = hex 1"
  by (simp_all add: ACK_OKAY_def ACK_FAIL_def hex_cmd)

lemma data_geth_rx:
  assumes "rx d = hexlify xs @ ys" and "n = length xs"
  shows "data_geth peer n d = Some (xs, d\<lparr>rx := ys\<rparr>)"
proof -
  have "d\<lparr>rx := hexlify xs @ ys\<rparr> = d" using assms(1) by simp
  with data_geth_hexlify [where peer = peer and xs = xs and d = d and ys = ys] show ?thesis by (simp add: assms(2))
qed

definition wr_request :: "u32 \<Rightarrow> byte list \<Rightarrow> 'h uart \<Rightarrow> 'h uart" where
  "wr_request a x d =
     PL011_putc 10 (data_puth x (PL011_putc 32 (addr_puth a (PL011_putc 32 (PL011_puth 0x01 d)))))"

definition rd_request :: "u32 \<Rightarrow> 'h uart \<Rightarrow> 'h uart" where
  "rd_request a d = PL011_putc 10 (addr_puth a (PL011_putc 32 (PL011_puth 0x02 d)))"

lemma request_lines [simp]:
  "tx (wr_request a x (quiet h)) = wr_line a x @ [10]" "rx (wr_request a x (quiet h)) = []"
  "host (wr_request a x (quiet h)) = h"
  "tx (rd_request a (quiet h)) = rd_line a @ [10]" "rx (rd_request a (quiet h)) = []"
  "host (rd_request a (quiet h)) = h"
  by (simp_all add: wr_request_def rd_request_def wr_line_def rd_line_def)

text \<open>The three outcomes of a write: done, refused (and retried), server gone.\<close>

lemma wr_try_ok:
  assumes "serving h" and "x \<noteq> []" and "0 \<le> sint a" and "sint a < int (block_num h)"
  shows "disk_wr_try (Suc i) disk_py a x (quiet h) =
    Some (quiet (h\<lparr>img := file_write (nat (sint a) * 512) x (img h)\<rparr>))"
proof -
  have "PL011_geth disk_py (wr_request a x (quiet h)) =
      Some (0, \<lparr>tx = [], rx = [10], host = h\<lparr>img := file_write (nat (sint a) * 512) x (img h)\<rparr>\<rparr>)"
    using assms by (intro geth_after_line [where l = "wr_line a x" and h = h])
      (simp_all add: serving_def no_newline_lines srv_turn_wr ack_hex)
  then show ?thesis by (simp add: wr_request_def getc_rx)
qed

lemma wr_try_refused:
  assumes "serving h" and "x \<noteq> []" and "int (block_num h) \<le> sint a"
  shows "disk_wr_try i disk_py a x (quiet h) = Some (quiet h)"
proof (induction i)
  case (Suc i)
  have "PL011_geth disk_py (wr_request a x (quiet h)) = Some (1, \<lparr>tx = [], rx = [10], host = h\<rparr>)"
    using assms by (intro geth_after_line [where l = "wr_line a x" and h = h])
      (simp_all add: serving_def no_newline_lines srv_turn_wr ack_hex)
  with Suc show ?case by (simp add: wr_request_def getc_rx)
qed simp

lemma wr_try_crash:
  assumes "serving h" and "x \<noteq> []" and "sint a < 0"
  shows "disk_wr_try (Suc i) disk_py a x (quiet h) = None"
proof -
  have "PL011_geth disk_py (wr_request a x (quiet h)) = None"
    using assms by (intro geth_crash [where l = "wr_line a x" and h = h])
      (simp_all add: serving_def no_newline_lines srv_turn_wr mult_less_0_iff)
  then show ?thesis by (simp add: wr_request_def)
qed

text \<open>The same three outcomes of a read.\<close>

lemma rd_try_ok:
  assumes "serving h" and "0 \<le> sint a" and "sint a < int (block_num h)"
  shows "disk_rd_try (Suc i) disk_py a buf 512 (quiet h) =
    Some (dblk (server_disk h) a @ drop 512 buf, quiet h)"
proof -
  let ?b = "take 512 (drop (nat (sint a) * 512) (img h))"
  have "nat (sint a) < block_num h" using assms by auto
  then have len: "length ?b = 512" using assms by (simp add: serving_def)
  have "PL011_geth disk_py (rd_request a (quiet h)) =
      Some (0, \<lparr>tx = [], rx = 32 # hexlify ?b @ [10], host = h\<rparr>)"
    using assms by (intro geth_after_line [where l = "rd_line a" and h = h])
      (simp_all add: serving_def no_newline_lines srv_turn_rd ack_hex)
  then show ?thesis
    by (simp add: rd_request_def getc_rx data_geth_rx [OF _ len [symmetric]] server_disk_def assms)
qed

lemma rd_try_refused:
  assumes "serving h" and "int (block_num h) \<le> sint a"
  shows "disk_rd_try i disk_py a buf n (quiet h) = Some (buf, quiet h)"
proof (induction i)
  case (Suc i)
  have "PL011_geth disk_py (rd_request a (quiet h)) = Some (1, \<lparr>tx = [], rx = [10], host = h\<rparr>)"
    using assms by (intro geth_after_line [where l = "rd_line a" and h = h])
      (simp_all add: serving_def no_newline_lines srv_turn_rd ack_hex)
  with Suc show ?case by (simp add: rd_request_def getc_rx)
qed simp

lemma rd_try_crash:
  assumes "serving h" and "sint a < 0"
  shows "disk_rd_try (Suc i) disk_py a buf n (quiet h) = None"
proof -
  have "PL011_geth disk_py (rd_request a (quiet h)) = None"
    using assms by (intro geth_crash [where l = "rd_line a" and h = h])
      (simp_all add: serving_def no_newline_lines srv_turn_rd mult_less_0_iff)
  then show ?thesis by (simp add: rd_request_def)
qed

section \<open>The driver and the server implement the disk\<close>

lemma serving_wf_disk: "serving h \<Longrightarrow> wf_disk (server_disk h)"
  by (auto simp: serving_def wf_disk_def server_disk_def)

lemma block_fits:
  assumes "serving h" and "0 \<le> sint (a :: u32)" and "sint a < int (block_num h)" and "n \<le> 512"
  shows "nat (sint a) * 512 + n \<le> length (img h)"
  using assms by (auto simp: serving_def)

lemma file_write_inside: "p + length x \<le> length f \<Longrightarrow> file_write p x f = splice_at p x f"
  by (simp add: file_write_def)

lemma server_disk_wr:
  assumes "serving h" and "length x \<le> 512" and a: "0 \<le> sint a" "sint a < int (block_num h)"
  shows "serving (h\<lparr>img := file_write (nat (sint a) * 512) x (img h)\<rparr>)"
    and "blk_wr (server_disk h) a x =
      Some (server_disk (h\<lparr>img := file_write (nat (sint a) * 512) x (img h)\<rparr>))"
proof -
  let ?p = "nat (sint a) * 512"
  have fit: "?p + length x \<le> length (img h)" using assms by (intro block_fits) auto
  then show "serving (h\<lparr>img := file_write ?p x (img h)\<rparr>)"
    using assms(1) by (simp add: serving_def file_write_inside)
  have same: "take 512 (drop ?p (splice_at ?p x (img h))) = x @ drop (length x) (take 512 (drop ?p (img h)))"
    using fit assms(2) by (simp add: splice_at_def drop_take add.commute)
  have other: "take 512 (drop (nat (sint c) * 512) (splice_at ?p x (img h))) = take 512 (drop (nat (sint c) * 512) (img h))"
    if "c \<noteq> a" "0 \<le> sint c" for c
  proof (rule take_drop_splice_other [OF fit])
    have "sint c \<noteq> sint a" using that(1) by (metis signed_word_eqI)
    then have "nat (sint c) \<noteq> nat (sint a)" using that(2) a(1) by (simp add: nat_eq_iff2)
    then show "nat (sint c) * 512 + 512 \<le> ?p \<or> ?p + length x \<le> nat (sint c) * 512"
      using assms(2) by arith
  qed
  show "blk_wr (server_disk h) a x = Some (server_disk (h\<lparr>img := file_write ?p x (img h)\<rparr>))"
    using a fit by (auto simp: blk_wr_def server_disk_def file_write_inside same other intro!: ext)
qed

lemma disk_rd_eq:
  assumes "serving h" and "length buf = 512"
  shows "disk_rd disk_py a buf 512 (quiet h) =
    map_option (\<lambda>b. (b, quiet h)) (blk_rd_into (server_disk h) a buf)"
  using assms
  by (simp add: disk_rd_def RETRY_def numeral_3_eq_3 blk_rd_into_def server_disk_def
      rd_try_ok rd_try_refused rd_try_crash del: disk_rd_try.simps)

lemma disk_wr_cases:
  assumes "serving h" and "x \<noteq> []" and "length x \<le> 512"
  obtains (crash) "sint a < 0" and "disk_wr disk_py a x (quiet h) = None"
      and "blk_wr (server_disk h) a x = None"
    | (wrote) h' where "disk_wr disk_py a x (quiet h) = Some (quiet h')" and "serving h'"
      and "blk_wr (server_disk h) a x = Some (server_disk h')"
proof -
  consider "sint a < 0" | "0 \<le> sint a" "sint a < int (block_num h)" | "int (block_num h) \<le> sint a"
    by linarith
  then show ?thesis
  proof cases
    case 1
    with assms have "disk_wr disk_py a x (quiet h) = None" "blk_wr (server_disk h) a x = None"
      by (simp_all add: disk_wr_def RETRY_def numeral_3_eq_3 wr_try_crash blk_wr_def
          del: disk_wr_try.simps)
    with 1 crash show ?thesis by blast
  next
    case 2
    with assms have "disk_wr disk_py a x (quiet h) =
        Some (quiet (h\<lparr>img := file_write (nat (sint a) * 512) x (img h)\<rparr>))"
      by (simp add: disk_wr_def RETRY_def numeral_3_eq_3 wr_try_ok del: disk_wr_try.simps)
    with wrote server_disk_wr [OF assms(1,3) 2] show ?thesis by blast
  next
    case 3
    with assms have "disk_wr disk_py a x (quiet h) = Some (quiet h)"
        "blk_wr (server_disk h) a x = Some (server_disk h)"
      by (simp_all add: disk_wr_def RETRY_def wr_try_refused blk_wr_def server_disk_def)
    with wrote assms(1) show ?thesis by blast
  qed
qed

text \<open>C13. Reading a block through \<open>disk_rd\<close>, the serial line and \<open>disk.py\<close> is exactly
  the block read of the disk the server holds: on a valid address the caller's buffer is
  replaced by the block, on an address beyond the disk the three refused attempts leave the
  buffer unchanged, and on an address that is negative as an int the call never returns; the
  line is quiet and the server unchanged afterwards.\<close>

theorem disk_rd_refines:
  assumes "serving h" and "length buf = 512"
  shows "disk_rd disk_py a buf 512 (quiet h) =
    map_option (\<lambda>b. (b, quiet h)) (blk_rd_into (server_disk h) a buf)"
  using assms by (rule disk_rd_eq)

definition tiny_server :: server where
  "tiny_server = \<lparr>img = replicate 1024 0, block_num = 2, block_len = 512, alive = True\<rparr>"

lemma serving_tiny [simp]: "serving tiny_server"
  by (simp add: serving_def tiny_server_def)

theorem disk_rd_refines_witness:
  "serving tiny_server \<and> length (replicate 512 (7 :: byte)) = 512
   \<and> disk_rd disk_py 1 (replicate 512 7) 512 (quiet tiny_server) = Some (replicate 512 0, quiet tiny_server)
   \<and> disk_rd disk_py 2 (replicate 512 7) 512 (quiet tiny_server) = Some (replicate 512 7, quiet tiny_server)
   \<and> disk_rd disk_py (-1) (replicate 512 7) 512 (quiet tiny_server) = None"
  by (simp add: disk_rd_refines) (simp add: blk_rd_into_def server_disk_def tiny_server_def)

text \<open>C14. Writing through \<open>disk_wr\<close>, the serial line and \<open>disk.py\<close> is exactly the
  block write of the disk the server holds, for every address: the server ends up holding the
  disk in which the first bytes of that block are replaced (or the same disk, when it refused
  the address), it keeps serving, and the call fails to return only on an address that is
  negative as an int.\<close>

theorem disk_wr_refines:
  assumes "serving h" and "x \<noteq> []" and "length x \<le> 512"
  shows "case disk_wr disk_py a x (quiet h) of
      None \<Rightarrow> blk_wr (server_disk h) a x = None
    | Some d \<Rightarrow> \<exists>h'. d = quiet h' \<and> serving h' \<and> blk_wr (server_disk h) a x = Some (server_disk h')"
  using assms by (cases rule: disk_wr_cases [of h x a]) auto

theorem disk_wr_refines_witness:
  "\<exists>h'. disk_wr disk_py 1 [9, 8] (quiet tiny_server) = Some (quiet h') \<and> serving h'
     \<and> dblk (server_disk h') 1 = 9 # 8 # replicate 510 0"
proof -
  have "blk_wr (server_disk tiny_server) 1 [9, 8] =
      Some ((server_disk tiny_server)\<lparr>dblk := (dblk (server_disk tiny_server))(1 := 9 # 8 # replicate 510 0)\<rparr>)"
    by (simp add: blk_wr_def server_disk_def tiny_server_def)
  then show ?thesis
    using disk_wr_refines [of tiny_server "[9, 8]" 1]
    by (auto split: option.splits dest: arg_cong [of _ _ "\<lambda>d. dblk d 1"])
qed

text \<open>The driver only works for whole blocks: reading fewer than 512 bytes of a valid
  block returns the right bytes but leaves the rest of the server's answer in the receive
  FIFO, so the line is out of step for the next request.\<close>

lemma disk_rd_short_desync:
  assumes "serving h" and "0 \<le> sint a" and "sint a < int (block_num h)" and "n < 512"
  shows "\<exists>d. disk_rd disk_py a buf n (quiet h) = Some (take n (dblk (server_disk h) a) @ drop n buf, d)
    \<and> rx d \<noteq> []"
proof -
  let ?b = "take 512 (drop (nat (sint a) * 512) (img h))"
  have len: "length ?b = 512" using assms block_fits [of h a 512] by simp
  have "hexlify ?b = hexlify (take n ?b) @ hexlify (drop n ?b)"
    by (metis append_take_drop_id hexlify_append)
  moreover obtain x xs where d: "drop n ?b = x # xs"
    using len assms(4) by (cases "drop n ?b") auto
  ultimately obtain c c' r where r: "hexlify ?b = hexlify (take n ?b) @ c # c' # r"
    by (simp add: hexlify_def)
  have "PL011_geth disk_py (rd_request a (quiet h)) =
      Some (0, \<lparr>tx = [], rx = 32 # hexlify (take n ?b) @ c # c' # r @ [10], host = h\<rparr>)"
    using assms r by (intro geth_after_line [where l = "rd_line a" and h = h])
      (simp_all add: serving_def no_newline_lines srv_turn_rd ack_hex)
  moreover have "n = length (take n ?b)" using len assms(4) by simp
  ultimately show ?thesis
    using assms by (simp add: disk_rd_def RETRY_def numeral_3_eq_3 rd_request_def getc_rx
        data_geth_rx [where xs = "take n ?b"] server_disk_def)
qed

section \<open>The block device interface\<close>

text \<open>
  What every client of the disk relies on: reads and writes of valid addresses succeed, a
  write replaces the first bytes of its own block, and no other block changes.
\<close>

locale block_device =
  fixes rd :: "'d \<Rightarrow> u32 \<Rightarrow> byte list option"
    and wr :: "'d \<Rightarrow> u32 \<Rightarrow> byte list \<Rightarrow> 'd option"
    and valid :: "'d \<Rightarrow> u32 \<Rightarrow> bool"
    and inv :: "'d \<Rightarrow> bool"
  assumes rd_valid: "inv d \<Longrightarrow> valid d a \<Longrightarrow> \<exists>b. rd d a = Some b \<and> length b = 512"
    and wr_valid: "inv d \<Longrightarrow> valid d a \<Longrightarrow> x \<noteq> [] \<Longrightarrow> length x \<le> 512 \<Longrightarrow> \<exists>d'. wr d a x = Some d'"
    and wr_inv: "inv d \<Longrightarrow> valid d a \<Longrightarrow> x \<noteq> [] \<Longrightarrow> length x \<le> 512 \<Longrightarrow> wr d a x = Some d' \<Longrightarrow> inv d'"
    and valid_wr: "inv d \<Longrightarrow> valid d a \<Longrightarrow> x \<noteq> [] \<Longrightarrow> length x \<le> 512 \<Longrightarrow> wr d a x = Some d' \<Longrightarrow>
      valid d' c = valid d c"
    and rd_wr: "inv d \<Longrightarrow> valid d a \<Longrightarrow> x \<noteq> [] \<Longrightarrow> length x \<le> 512 \<Longrightarrow> wr d a x = Some d' \<Longrightarrow>
      valid d c \<Longrightarrow> rd d c = Some b \<Longrightarrow> rd d' c = Some (if c = a then x @ drop (length x) b else b)"
begin

text \<open>A whole block written is the block read back.\<close>

lemma rd_wr_block:
  assumes "inv d" and "valid d a" and "length x = 512"
  obtains d' where "wr d a x = Some d'" and "inv d'" and "rd d' a = Some x"
proof -
  from assms have x: "x \<noteq> []" "length x \<le> 512" by auto
  from wr_valid [OF assms(1,2) x] obtain d' where d': "wr d a x = Some d'" by blast
  from rd_valid [OF assms(1,2)] obtain b where "rd d a = Some b" "length b = 512" by blast
  with rd_wr [OF assms(1,2) x d' assms(2)] assms(3) have "rd d' a = Some x" by simp
  with that d' wr_inv [OF assms(1,2) x d'] show ?thesis by blast
qed

text \<open>Two writes to different blocks can be done in either order.\<close>

lemma wr_commute:
  assumes inv: "inv d" and a: "valid d a" "x \<noteq> []" "length x \<le> 512"
    and b: "valid d b" "y \<noteq> []" "length y \<le> 512" and ne: "a \<noteq> b" and c: "valid d c"
  obtains d1 d2 e1 e2 where "wr d a x = Some d1" and "wr d1 b y = Some d2"
    and "wr d b y = Some e1" and "wr e1 a x = Some e2" and "rd d2 c = rd e2 c"
proof -
  obtain d1 where d1: "wr d a x = Some d1" using wr_valid [OF inv a] by blast
  obtain e1 where e1: "wr d b y = Some e1" using wr_valid [OF inv b] by blast
  have i: "inv d1" "inv e1" using wr_inv [OF inv a d1] wr_inv [OF inv b e1] .
  have v: "valid d1 b" "valid d1 c" "valid e1 a" "valid e1 c"
    using valid_wr [OF inv a d1] valid_wr [OF inv b e1] a(1) b(1) c by simp_all
  obtain d2 where d2: "wr d1 b y = Some d2" using wr_valid [OF i(1) v(1) b(2,3)] by blast
  obtain e2 where e2: "wr e1 a x = Some e2" using wr_valid [OF i(2) v(3) a(2,3)] by blast
  obtain z where z: "rd d c = Some z" using rd_valid [OF inv c] by blast
  have "rd d2 c = rd e2 c"
    using rd_wr [OF i(1) v(1) b(2,3) d2 v(2) rd_wr [OF inv a d1 c z]]
      rd_wr [OF i(2) v(3) a(2,3) e2 v(4) rd_wr [OF inv b e1 c z]] ne by auto
  with that d1 d2 e1 e2 show ?thesis by blast
qed

end

definition addr_ok :: "disk \<Rightarrow> u32 \<Rightarrow> bool" where
  "addr_ok d a \<longleftrightarrow> 0 \<le> sint a \<and> sint a < int (dnum d)"

text \<open>The kernel's disk is a block device.\<close>

interpretation kd: block_device blk_rd blk_wr addr_ok wf_disk
  by unfold_locales (auto simp: blk_rd_def blk_wr_def addr_ok_def wf_disk_def)

text \<open>The driver talking to the server is a block device too, by the two refinements.\<close>

definition drv_rd :: "server uart \<Rightarrow> u32 \<Rightarrow> byte list option" where
  "drv_rd d a = map_option fst (disk_rd disk_py a (replicate 512 0) 512 d)"

definition drv_wr :: "server uart \<Rightarrow> u32 \<Rightarrow> byte list \<Rightarrow> server uart option" where
  "drv_wr d a x = disk_wr disk_py a x d"

definition drv_inv :: "server uart \<Rightarrow> bool" where
  "drv_inv d \<longleftrightarrow> d = quiet (host d) \<and> serving (host d)"

interpretation dd: block_device drv_rd drv_wr "\<lambda>d. addr_ok (server_disk (host d))" drv_inv
proof -
  let ?ok = "\<lambda>d. addr_ok (server_disk (host d))"
  have rd: "drv_rd d a = blk_rd (server_disk (host d)) a" if "drv_inv d" "?ok d a" for d a
  proof -
    from that obtain h where "d = quiet h" "serving h" unfolding drv_inv_def by metis
    with that show ?thesis by (simp add: drv_rd_def disk_rd_eq blk_rd_into_def blk_rd_def addr_ok_def)
  qed
  have wr: "\<exists>d'. drv_wr d a x = Some d' \<and> drv_inv d'
      \<and> blk_wr (server_disk (host d)) a x = Some (server_disk (host d'))"
    if "drv_inv d" "?ok d a" "x \<noteq> []" "length x \<le> 512" for d a x
  proof -
    from that(1) obtain h where d: "d = quiet h" "serving h" unfolding drv_inv_def by metis
    from d(2) that(3,4) show ?thesis
    proof (cases rule: disk_wr_cases [where a = a])
      case crash
      with that(2) show ?thesis by (simp add: addr_ok_def)
    next
      case (wrote h')
      with d show ?thesis by (auto simp: drv_wr_def drv_inv_def)
    qed
  qed
  have wf: "wf_disk (server_disk (host d))" if "drv_inv d" for d
    using that by (simp add: drv_inv_def serving_wf_disk)
  show "block_device drv_rd drv_wr ?ok drv_inv"
  proof (unfold_locales, goal_cases)
    case (1 d a)
    then show ?case using kd.rd_valid [OF wf] by (simp add: rd)
  next
    case (2 d a x)
    then show ?case using wr by blast
  next
    case (3 d a x d')
    then show ?case using wr [of d a x] by auto
  next
    case (4 d a x d' c)
    then show ?case using wr [of d a x] kd.valid_wr [OF wf] by auto
  next
    case (5 d a x d' c b)
    then have v: "?ok d' c" and i: "drv_inv d'"
      and w: "blk_wr (server_disk (host d)) a x = Some (server_disk (host d'))"
      using wr [of d a x] kd.valid_wr [OF wf] by auto
    from 5 show ?case
      using kd.rd_wr [OF wf [OF 5(1)] 5(2,3,4) w 5(6)] by (simp add: rd v i)
  qed
qed

text \<open>End to end over the serial line: any 512-byte block written at any valid address
  with \<open>disk_wr\<close> is what \<open>disk_rd\<close> at that address returns afterwards.\<close>

lemma driver_block_roundtrip:
  assumes "serving h" and "addr_ok (server_disk h) a" and "length x = 512"
  shows "\<exists>h'. disk_wr disk_py a x (quiet h) = Some (quiet h') \<and> serving h'
    \<and> disk_rd disk_py a (replicate 512 0) 512 (quiet h') = Some (x, quiet h')"
proof -
  have "drv_inv (quiet h)" using assms(1) by (simp add: drv_inv_def)
  then obtain d where d: "drv_wr (quiet h) a x = Some d" "drv_inv d" "drv_rd d a = Some x"
    using dd.rd_wr_block [of "quiet h" a x] assms(2,3) by auto
  then obtain h' where h': "d = quiet h'" "serving h'" unfolding drv_inv_def by metis
  with d show ?thesis
    by (auto simp: drv_wr_def drv_rd_def disk_rd_eq)
qed

section \<open>The configuration query\<close>

lemma srv_turn_conf:
  "srv_turn h (hex 0) = Some (h, hex 0 @ 32 # hexlify (u32_bytes (of_nat (block_num h))
     @ u32_bytes (of_nat (block_len h))) @ [10])"
  by (simp add: srv_turn_def strip_def py_space_def hex_cmd srv_conf_def ACK_OKAY_def pack_l_def)

lemma get_conf:
  assumes "alive h"
  shows "disk_get_conf sel (Suc i) disk_py (quiet h) =
    Some (sel (u32_bytes (of_nat (block_num h)) @ u32_bytes (of_nat (block_len h))), quiet h)"
proof -
  have "PL011_geth disk_py (PL011_putc 10 (PL011_puth 0 (quiet h))) =
      Some (0, \<lparr>tx = [], rx = 32 # hexlify (u32_bytes (of_nat (block_num h))
        @ u32_bytes (of_nat (block_len h))) @ [10], host = h\<rparr>)"
    using assms by (intro geth_after_line [where l = "hex 0" and h = h]) (simp_all add: srv_turn_conf)
  then show ?thesis
    by (simp add: getc_rx data_geth_rx [where xs = "u32_bytes (of_nat (block_num h))
        @ u32_bytes (of_nat (block_len h))"])
qed

text \<open>The configuration queries return the geometry the server was started with, in
  one exchange.\<close>

lemma disk_geometry:
  assumes "alive h"
  shows "disk_get_block_num disk_py (quiet h) = Some (of_nat (block_num h), quiet h)
    \<and> disk_get_block_len disk_py (quiet h) = Some (of_nat (block_len h), quiet h)"
proof -
  have "push_bit 0 (ucast (u32_bytes x ! 0)) OR push_bit 8 (ucast (u32_bytes x ! 1))
      OR push_bit 16 (ucast (u32_bytes x ! 2)) OR push_bit 24 (ucast (u32_bytes x ! 3)) = x" for x
    using bytes_u32_bytes [of x] by (simp add: bytes_u32_def)
  then show ?thesis
    using assms by (simp_all add: disk_get_block_num_def disk_get_block_len_def RETRY_def
        numeral_3_eq_3 get_conf nth_append del: disk_get_conf.simps)
qed

end
