(* ===== verification/Layout.thy ===== *)
theory Layout
  imports Diskdrv
begin

text \<open>
  The on-disk structures of \<open>src/kernel/fs.h\<close> and their byte layout on this target
  (little-endian, no padding: the superblock fills its block exactly, an inode is 64 bytes,
  a directory entry 32), with the lemmas that each structure written into a block is the one
  read back and leaves its neighbours alone. The record \<open>store\<close> holds the two globals the
  file system proper works on, the disk and the in-memory superblock \<open>fs\<close>; later theories
  extend it with the other globals of \<open>kernel.c\<close>.
\<close>

named_theorems layout
  \<open>structures read back from a block they were written into\<close>

abbreviation (input) BLOCK_SIZE :: nat where "BLOCK_SIZE \<equiv> 512"
abbreviation (input) NDADDR :: nat where "NDADDR \<equiv> 11"
abbreviation (input) NIADDR :: nat where "NIADDR \<equiv> 3"
abbreviation (input) MAXNAMLEN :: nat where "MAXNAMLEN \<equiv> 25"
abbreviation (input) ROOT_DIR :: u32 where "ROOT_DIR \<equiv> 0"

section \<open>Superblock\<close>

record fs_t =
  fs_sblkno :: u32
  fs_size :: u32
  fs_iblkno :: u32
  fs_isize :: u32
  fs_dblkno :: u32
  fs_dsize :: u32
  fs_fdbhead :: u32
  fs_fdb :: "u32 list"
  fs_fil :: "u32 list"
  fs_pad :: "byte list"

definition wf_fs :: "fs_t \<Rightarrow> bool" where
  "wf_fs f \<longleftrightarrow> length (fs_fdb f) = 64 \<and> length (fs_fil f) = 32 \<and> length (fs_pad f) = 100"

text \<open>\<open>(uint8_t*)(&fs)\<close>, \<open>sizeof( fs_t )\<close> bytes of it, and a superblock read into
  \<open>fs\<close>.\<close>

definition fs_words :: "fs_t \<Rightarrow> u32 list" where
  "fs_words f = [fs_sblkno f, fs_size f, fs_iblkno f, fs_isize f, fs_dblkno f,
     fs_dsize f, fs_fdbhead f] @ fs_fdb f @ fs_fil f"

definition fs_bytes :: "fs_t \<Rightarrow> byte list" where
  "fs_bytes f = words_bytes (fs_words f) @ fs_pad f"

definition bytes_fs :: "byte list \<Rightarrow> fs_t" where
  "bytes_fs b = \<lparr>fs_sblkno = word_at b 0, fs_size = word_at b 1, fs_iblkno = word_at b 2,
     fs_isize = word_at b 3, fs_dblkno = word_at b 4, fs_dsize = word_at b 5,
     fs_fdbhead = word_at b 6, fs_fdb = words_at b 7 64, fs_fil = words_at b 71 32,
     fs_pad = take 100 (drop 412 b)\<rparr>"

lemma length_fs_bytes [simp]: "wf_fs f \<Longrightarrow> length (fs_bytes f) = 512"
  by (simp add: fs_bytes_def fs_words_def wf_fs_def)

lemma bytes_fs_bytes [layout]:
  assumes "wf_fs f"
  shows "bytes_fs (fs_bytes f) = f"
proof -
  have len: "length (fs_words f) = 103" using assms by (simp add: fs_words_def wf_fs_def)
  have w: "word_at (fs_bytes f) i = fs_words f ! i" if "i < 103" for i
    using that len by (simp add: fs_bytes_def word_at_append1 word_at_words_bytes)
  have ws: "words_at (fs_bytes f) i n = take n (drop i (fs_words f))" if "i + n \<le> 103" for i n
    unfolding fs_bytes_def using that len by (intro words_at_words_bytes) simp
  have "drop 412 (fs_bytes f) = fs_pad f"
    using len by (simp add: fs_bytes_def)
  then show ?thesis
    using assms by (intro fs_t.equality) (simp_all add: bytes_fs_def w ws fs_words_def wf_fs_def)
qed

section \<open>Inodes\<close>

abbreviation (input) IFZERO :: u32 where "IFZERO \<equiv> 0"
abbreviation (input) IFLNK :: u32 where "IFLNK \<equiv> 1"
abbreviation (input) IFDIR :: u32 where "IFDIR \<equiv> 2"
abbreviation (input) IFREG :: u32 where "IFREG \<equiv> 3"

record icommon_t =
  ic_mode :: u32
  ic_size :: u32
  ic_db :: "u32 list"
  ic_ib :: "u32 list"

record inode_t =
  i_number :: u32
  i_links :: u32
  i_ic :: icommon_t

definition wf_ic :: "icommon_t \<Rightarrow> bool" where
  "wf_ic ic \<longleftrightarrow> length (ic_db ic) = NDADDR \<and> length (ic_ib ic) = NIADDR"

definition ic_words :: "icommon_t \<Rightarrow> u32 list" where
  "ic_words ic = [ic_mode ic, ic_size ic] @ ic_db ic @ ic_ib ic"

text \<open>\<open>icommon_t ic[ 8 ]\<close> over the bytes of a block: entry \<open>j\<close> and assignment to it.\<close>

definition ic_at :: "byte list \<Rightarrow> nat \<Rightarrow> icommon_t" where
  "ic_at b j = \<lparr>ic_mode = word_at b (16 * j), ic_size = word_at b (16 * j + 1),
     ic_db = words_at b (16 * j + 2) NDADDR, ic_ib = words_at b (16 * j + 13) NIADDR\<rparr>"

definition put_ic :: "byte list \<Rightarrow> nat \<Rightarrow> icommon_t \<Rightarrow> byte list" where
  "put_ic b j ic = splice_at (4 * (16 * j)) (words_bytes (ic_words ic)) b"

lemma length_ic_words [simp]: "wf_ic ic \<Longrightarrow> length (ic_words ic) = 16"
  by (simp add: ic_words_def wf_ic_def)

lemma wf_ic_at [simp]: "wf_ic (ic_at b j)"
  by (simp add: wf_ic_def ic_at_def)

lemma length_put_ic [simp]:
  "wf_ic ic \<Longrightarrow> j < 8 \<Longrightarrow> length b = 512 \<Longrightarrow> length (put_ic b j ic) = 512"
  by (simp add: put_ic_def)

lemma ic_at_put_ic [layout]:
  assumes "wf_ic ic" and "j < 8" and "length b = 512"
  shows "ic_at (put_ic b j ic) k = (if k = j then ic else ic_at b k)"
proof -
  have fit: "4 * (16 * j) + 4 * length (ic_words ic) \<le> length b" using assms by simp
  show ?thesis
  proof (cases "k = j")
    case True
    have "word_at (put_ic b j ic) (16 * j) = ic_mode ic" "word_at (put_ic b j ic) (16 * j + 1) = ic_size ic"
      using word_at_splice_same [OF fit, of 0] word_at_splice_same [OF fit, of 1] assms(1)
      by (simp_all add: put_ic_def ic_words_def)
    moreover have "words_at (put_ic b j ic) (16 * j + 2) NDADDR = ic_db ic"
        "words_at (put_ic b j ic) (16 * j + 13) NIADDR = ic_ib ic"
      using words_at_splice_same [OF fit, of 2 NDADDR] words_at_splice_same [OF fit, of 13 NIADDR] assms(1)
      by (simp_all add: put_ic_def ic_words_def wf_ic_def)
    ultimately show ?thesis using True by (simp add: ic_at_def)
  next
    case False
    then have off: "16 * k + 16 \<le> 16 * j \<or> 16 * j + length (ic_words ic) \<le> 16 * k"
      using assms(1) by auto
    have w: "word_at (put_ic b j ic) (16 * k + i) = word_at b (16 * k + i)" if "i < 16" for i
      unfolding put_ic_def using off that by (intro word_at_splice_other [OF fit]) auto
    have ws: "words_at (put_ic b j ic) (16 * k + i) n = words_at b (16 * k + i) n" if "i + n \<le> 16" for i n
      unfolding put_ic_def using off that by (intro words_at_splice_other [OF fit]) auto
    show ?thesis
      using False w [of 0] w [of 1] ws [of 2 NDADDR] ws [of 13 NIADDR] by (simp add: ic_at_def)
  qed
qed

section \<open>Directory entries\<close>

record dir_t =
  d_ino :: u32
  d_namlen :: u16
  d_name :: "byte list"

definition wf_dir :: "dir_t \<Rightarrow> bool" where
  "wf_dir d \<longleftrightarrow> length (d_name d) = MAXNAMLEN + 1"

definition u16_bytes :: "u16 \<Rightarrow> byte list" where
  "u16_bytes x = [ucast x, ucast (drop_bit 8 x)]"

definition bytes_u16 :: "byte list \<Rightarrow> u16" where
  "bytes_u16 b = ucast (b ! 0) OR push_bit 8 (ucast (b ! 1))"

lemma bytes_u16_bytes [simp]: "bytes_u16 (u16_bytes x) = x"
proof (rule bit_word_eqI)
  fix n assume "n < LENGTH(16)"
  then consider "n < 8" | "8 \<le> n" "n < 16" by force
  then show "bit (bytes_u16 (u16_bytes x)) n \<longleftrightarrow> bit x n"
    by cases (auto simp: bytes_u16_def u16_bytes_def bit_simps less_diff_conv2)
qed

lemma length_u16_bytes [simp]: "length (u16_bytes x) = 2"
  by (simp add: u16_bytes_def)

definition dir_bytes :: "dir_t \<Rightarrow> byte list" where
  "dir_bytes d = u32_bytes (d_ino d) @ u16_bytes (d_namlen d) @ d_name d"

text \<open>\<open>dir_t dir[ 16 ]\<close> over the bytes of a block: entry \<open>j\<close> and assignment to it.\<close>

definition bytes_dir :: "byte list \<Rightarrow> dir_t" where
  "bytes_dir b = \<lparr>d_ino = bytes_u32 (take 4 b), d_namlen = bytes_u16 (take 2 (drop 4 b)),
     d_name = drop 6 b\<rparr>"

definition dir_at :: "byte list \<Rightarrow> nat \<Rightarrow> dir_t" where
  "dir_at b j = bytes_dir (take 32 (drop (32 * j) b))"

definition put_dir :: "byte list \<Rightarrow> nat \<Rightarrow> dir_t \<Rightarrow> byte list" where
  "put_dir b j d = splice_at (32 * j) (dir_bytes d) b"

lemma length_dir_bytes [simp]: "wf_dir d \<Longrightarrow> length (dir_bytes d) = 32"
  by (simp add: dir_bytes_def wf_dir_def)

lemma bytes_dir_bytes [simp]: "bytes_dir (dir_bytes d) = d"
  by (simp add: bytes_dir_def dir_bytes_def)

lemma length_put_dir [simp]:
  "wf_dir d \<Longrightarrow> j < 16 \<Longrightarrow> length b = 512 \<Longrightarrow> length (put_dir b j d) = 512"
  by (simp add: put_dir_def)

lemma wf_dir_at [simp]: "length b = 512 \<Longrightarrow> j < 16 \<Longrightarrow> wf_dir (dir_at b j)"
  by (simp add: wf_dir_def dir_at_def bytes_dir_def)

lemma dir_at_put_dir [layout]:
  assumes "wf_dir d" and "j < 16" and "length b = 512"
  shows "dir_at (put_dir b j d) k = (if k = j then d else dir_at b k)"
proof (cases "k = j")
  case True
  have "take (length (dir_bytes d)) (drop (32 * j) (put_dir b j d)) = dir_bytes d"
    unfolding put_dir_def using assms by (intro take_drop_splice_same) simp
  with True assms show ?thesis by (simp add: dir_at_def)
next
  case False
  have "take 32 (drop (32 * k) (put_dir b j d)) = take 32 (drop (32 * k) b)"
    unfolding put_dir_def using False assms by (intro take_drop_splice_other) auto
  with False show ?thesis by (simp add: dir_at_def)
qed

section \<open>In-core inodes and open files\<close>

text \<open>An \<open>inode_t*\<close> is an index into the active inode table, an \<open>ofile_t*\<close> an index
  into the open file table; \<open>None\<close> is \<open>NULL\<close>.\<close>

record ofile_t =
  o_inptr :: "nat option"
  o_head :: u32

section \<open>The globals of the file system\<close>

record store =
  dsk :: disk
  fs :: fs_t

text \<open>A block read into a fresh buffer and a block written, on a state that contains the
  disk.\<close>

definition kread :: "'a store_scheme \<Rightarrow> u32 \<Rightarrow> byte list option" where
  "kread s a = blk_rd (dsk s) a"

definition kread_into :: "'a store_scheme \<Rightarrow> u32 \<Rightarrow> byte list \<Rightarrow> byte list option" where
  "kread_into s a buf = blk_rd_into (dsk s) a buf"

definition kwrite :: "u32 \<Rightarrow> byte list \<Rightarrow> 'a store_scheme \<Rightarrow> 'a store_scheme option" where
  "kwrite a x s = map_option (\<lambda>d. s\<lparr>dsk := d\<rparr>) (blk_wr (dsk s) a x)"

definition valid :: "'a store_scheme \<Rightarrow> u32 \<Rightarrow> bool" where
  "valid s a \<longleftrightarrow> addr_ok (dsk s) a"

abbreviation blk :: "'a store_scheme \<Rightarrow> u32 \<Rightarrow> byte list" where
  "blk s \<equiv> dblk (dsk s)"

definition wf_store :: "'a store_scheme \<Rightarrow> bool" where
  "wf_store s \<longleftrightarrow> wf_disk (dsk s) \<and> wf_fs (fs s)"

text \<open>\<open>disk_wr( fs.fs_sblkno, (uint8_t*)(&fs), sizeof( fs_t ) )\<close>.\<close>

definition write_sb :: "'a store_scheme \<Rightarrow> 'a store_scheme option" where
  "write_sb s = kwrite (fs_sblkno (fs s)) (fs_bytes (fs s)) s"

lemma kread_valid [simp]: "valid s a \<Longrightarrow> kread s a = Some (blk s a)"
  by (simp add: kread_def valid_def addr_ok_def blk_rd_def)

lemma kread_into_valid [simp]: "valid s a \<Longrightarrow> kread_into s a buf = Some (blk s a)"
  by (simp add: kread_into_def valid_def addr_ok_def blk_rd_into_def)

lemma kwrite_valid:
  "valid s a \<Longrightarrow> kwrite a x s =
     Some (s\<lparr>dsk := (dsk s)\<lparr>dblk := (blk s)(a := x @ drop (length x) (blk s a))\<rparr>\<rparr>)"
  by (simp add: kwrite_def valid_def addr_ok_def blk_wr_def)

lemma length_blk [simp]: "wf_store s \<Longrightarrow> valid s a \<Longrightarrow> length (blk s a) = 512"
  by (simp add: wf_store_def wf_disk_def valid_def addr_ok_def)

lemma kwrite_full:
  "wf_store s \<Longrightarrow> valid s a \<Longrightarrow> length x = 512 \<Longrightarrow>
     kwrite a x s = Some (s\<lparr>dsk := (dsk s)\<lparr>dblk := (blk s)(a := x)\<rparr>\<rparr>)"
  by (simp add: kwrite_valid)

text \<open>The geometry \<open>wipe\<close> gives every disk: superblock in block 1, 512 inodes in blocks
  2 to 65, data in blocks 66 to 2047.\<close>

definition formatted :: "'a store_scheme \<Rightarrow> bool" where
  "formatted s \<longleftrightarrow> wf_store s \<and> dnum (dsk s) = 2048 \<and> fs_sblkno (fs s) = 1 \<and> fs_iblkno (fs s) = 2
     \<and> fs_isize (fs s) = 512 \<and> fs_dblkno (fs s) = 66"

definition data_addr :: "u32 \<Rightarrow> bool" where
  "data_addr a \<longleftrightarrow> 66 \<le> a \<and> a < 2048"

lemma sint_range_unat:
  assumes "n \<le> 2 ^ 31"
  shows "0 \<le> sint (a :: u32) \<and> sint a < int n \<longleftrightarrow> unat a < n"
proof (cases "sint a < 0")
  case True
  have ge: "- (2 ^ 31) \<le> sint a" using sint_ge [of a] by simp
  have "uint a = (sint a + 2 ^ 32) mod 2 ^ 32" by (simp add: uint_sint take_bit_eq_mod)
  also have "\<dots> = sint a + 2 ^ 32" using True ge by (intro mod_pos_pos_trivial) simp_all
  finally have "2147483648 \<le> uint a" using ge by simp
  moreover have "int n \<le> 2147483648" using assms by simp
  ultimately have "n \<le> unat a" unfolding unat_eq_nat_uint by linarith
  with True show ?thesis by auto
next
  case False
  have "sint a < 2 ^ 31" using sint_lt [of a] by simp
  with False have "uint a = sint a" by (simp add: uint_sint take_bit_eq_mod)
  with False show ?thesis by (simp add: unat_eq_nat_uint nat_less_iff)
qed

lemma sint_of_unat: "unat (a :: u32) < 2 ^ 31 \<Longrightarrow> sint a = int (unat a)"
proof -
  assume "unat a < 2 ^ 31"
  then have "0 \<le> sint a" "sint a < 2 ^ 31" using sint_range_unat [of "2 ^ 31" a] by simp_all
  then show ?thesis by (simp add: unat_eq_nat_uint uint_sint take_bit_eq_mod)
qed

lemma formatted_valid: "formatted s \<Longrightarrow> valid s a \<longleftrightarrow> a < 2048"
  using sint_range_unat [of 2048 a]
  by (simp add: formatted_def valid_def addr_ok_def word_less_nat_alt)

lemma data_addr_valid: "formatted s \<Longrightarrow> data_addr a \<Longrightarrow> valid s a"
  by (simp add: formatted_valid data_addr_def)

lemma formatted_wf [simp]: "formatted s \<Longrightarrow> wf_store s"
  by (simp add: formatted_def)

lemma write_sb_formatted:
  assumes "formatted s"
  shows "write_sb s = Some (s\<lparr>dsk := (dsk s)\<lparr>dblk := (blk s)(1 := fs_bytes (fs s))\<rparr>\<rparr>)"
proof -
  have "valid s 1" using assms by (simp add: formatted_valid)
  moreover have "wf_fs (fs s)" using assms by (simp add: formatted_def wf_store_def)
  ultimately show ?thesis
    using assms kwrite_full [of s 1 "fs_bytes (fs s)"] by (simp add: write_sb_def formatted_def)
qed

text \<open>Writes of whole blocks and changes of the free table keep the format.\<close>

lemma formatted_write:
  assumes "formatted s" and "valid s a \<Longrightarrow> length x = 512"
  shows "formatted (s\<lparr>dsk := (dsk s)\<lparr>dblk := (blk s)(a := x)\<rparr>\<rparr>)"
  using assms by (auto simp: formatted_def wf_store_def wf_disk_def valid_def addr_ok_def)

lemma formatted_table:
  "formatted s \<Longrightarrow> length fdb = 64 \<Longrightarrow> formatted (s\<lparr>fs := (fs s)\<lparr>fs_fdb := fdb, fs_fdbhead := h\<rparr>\<rparr>)"
  "formatted s \<Longrightarrow> formatted (s\<lparr>fs := (fs s)\<lparr>fs_fdbhead := h\<rparr>\<rparr>)"
  by (auto simp: formatted_def wf_store_def wf_fs_def)

lemma formatted_wf_fs: "formatted s \<Longrightarrow> wf_fs (fs s)"
  by (simp add: formatted_def wf_store_def)

end
