(* ===== verification/Alloc.thy ===== *)
theory Alloc
  imports Layout
begin

text \<open>
  The data block allocator, \<open>balloc\<close> and \<open>bfree\<close> of \<open>src/kernel/kernel.c\<close>.

  Free blocks are kept as a linked list of 64-entry tables: the table in the in-memory
  superblock, of which entries \<open>1 .. fs_fdbhead\<close> are free blocks and entry 0 is the block
  that holds the next table (or 1, the superblock's own address, for the end). The table
  blocks are free blocks themselves. The abstract view is a stack, the sequence of addresses
  that successive calls of \<open>balloc\<close> return; \<open>free_chain\<close> relates it to the tables on
  disk, and the locale \<open>block_pool\<close> is the contract the file code relies on.
\<close>

section \<open>The two operations\<close>

definition balloc :: "'a store_scheme \<Rightarrow> (u32 \<times> 'a store_scheme) option" where
  "balloc s =
     (if 0 < fs_fdbhead (fs s) then do {
        let s = s\<lparr>fs := (fs s)\<lparr>fs_fdbhead := fs_fdbhead (fs s) - 1\<rparr>\<rparr>;
        s \<leftarrow> write_sb s;
        r \<leftarrow> arr (fs_fdb (fs s)) (unat (fs_fdbhead (fs s) + 1));
        Some (r, s)
      }
      else do {
        addr \<leftarrow> arr (fs_fdb (fs s)) (unat (fs_fdbhead (fs s)));
        (if addr \<noteq> 1 then do {
           block \<leftarrow> kread s addr;
           let s = s\<lparr>fs := (fs s)\<lparr>fs_fdb := words_at block 0 64, fs_fdbhead := 63\<rparr>\<rparr>;
           s \<leftarrow> write_sb s;
           Some (addr, s)
         }
         else Some (-1, s))
      })"

definition bfree :: "u32 \<Rightarrow> 'a store_scheme \<Rightarrow> (u32 \<times> 'a store_scheme) option" where
  "bfree a s =
     (if fs_fdbhead (fs s) < 63 then do {
        let h = fs_fdbhead (fs s) + 1;
        fdb \<leftarrow> arr_upd (fs_fdb (fs s)) (unat h) a;
        s \<leftarrow> write_sb (s\<lparr>fs := (fs s)\<lparr>fs_fdbhead := h, fs_fdb := fdb\<rparr>\<rparr>);
        Some (0, s)
      }
      else do {
        s \<leftarrow> kwrite a (words_bytes (take 64 (fs_fdb (fs s)))) s;
        fdb \<leftarrow> arr_upd (fs_fdb (fs s)) 0 a;
        s \<leftarrow> write_sb (s\<lparr>fs := (fs s)\<lparr>fs_fdb := fdb, fs_fdbhead := 0\<rparr>\<rparr>);
        Some (1, s)
      })"

section \<open>The stack of free blocks\<close>

text \<open>\<open>table_stack fdb h\<close>: the entries of a table, last one first.\<close>

definition table_stack :: "u32 list \<Rightarrow> nat \<Rightarrow> u32 list" where
  "table_stack fdb h = rev (take h (tl fdb))"

inductive free_chain :: "disk \<Rightarrow> u32 list \<Rightarrow> nat \<Rightarrow> u32 list \<Rightarrow> bool" for d :: disk where
  chain_end: "length fdb = 64 \<Longrightarrow> h < 64 \<Longrightarrow> fdb ! 0 = 1 \<Longrightarrow> free_chain d fdb h (table_stack fdb h)"
| chain_link: "length fdb = 64 \<Longrightarrow> h < 64 \<Longrightarrow> fdb ! 0 = a \<Longrightarrow> a \<noteq> 1 \<Longrightarrow> addr_ok d a \<Longrightarrow>
    free_chain d (words_at (dblk d a) 0 64) 63 xs \<Longrightarrow>
    free_chain d fdb h (table_stack fdb h @ a # xs)"

inductive_cases free_chainE: "free_chain d fdb h xs"

definition alloc_inv :: "'a store_scheme \<Rightarrow> u32 list \<Rightarrow> bool" where
  "alloc_inv s xs \<longleftrightarrow> formatted s
     \<and> free_chain (dsk s) (fs_fdb (fs s)) (unat (fs_fdbhead (fs s))) xs
     \<and> distinct xs \<and> (\<forall>a \<in> set xs. data_addr a)"

lemma table_stack_0 [simp]: "table_stack fdb 0 = []"
  by (simp add: table_stack_def)

lemma table_stack_Suc:
  "length fdb = 64 \<Longrightarrow> Suc h < 64 \<Longrightarrow> table_stack fdb (Suc h) = fdb ! Suc h # table_stack fdb h"
  by (cases fdb) (simp_all add: table_stack_def take_Suc_conv_app_nth nth_tl)

text \<open>Only the blocks on the stack matter: a write anywhere else keeps the chain.\<close>

lemma free_chain_frame:
  assumes "free_chain d fdb h xs" and "\<And>a. a \<in> set xs \<Longrightarrow> dblk d' a = dblk d a"
    and "dnum d' = dnum d"
  shows "free_chain d' fdb h xs"
  using assms
proof (induction rule: free_chain.induct)
  case (chain_end fdb h)
  then show ?case by (simp add: free_chain.chain_end)
next
  case (chain_link fdb h a xs)
  then have "free_chain d' (words_at (dblk d' a) 0 64) 63 xs" by simp
  moreover have "addr_ok d' a" using chain_link by (simp add: addr_ok_def)
  ultimately show ?case using chain_link by (intro free_chain.chain_link) auto
qed

lemma alloc_inv_frame:
  assumes "alloc_inv s xs" and "formatted s'"
    and "fs_fdb (fs s') = fs_fdb (fs s)" and "fs_fdbhead (fs s') = fs_fdbhead (fs s)"
    and "\<And>a. a \<in> set xs \<Longrightarrow> blk s' a = blk s a"
  shows "alloc_inv s' xs"
  using assms free_chain_frame [of "dsk s" _ _ xs "dsk s'"] by (simp add: alloc_inv_def formatted_def)

lemma free_chain_unique: "free_chain d fdb h xs \<Longrightarrow> free_chain d fdb h ys \<Longrightarrow> xs = ys"
proof (induction arbitrary: ys rule: free_chain.induct)
  case (chain_end fdb h)
  from chain_end.prems show ?case
  proof cases
    case (chain_link a xs)
    with chain_end.hyps show ?thesis by simp
  qed simp
next
  case (chain_link fdb h a xs)
  from chain_link.prems show ?case
  proof cases
    case chain_end
    with chain_link.hyps show ?thesis by simp
  next
    case (chain_link b zs)
    with chain_link.hyps chain_link.IH show ?thesis by simp
  qed
qed

text \<open>Popping and pushing within a table, and moving to the next one.\<close>

lemma free_chain_pop:
  assumes "free_chain d fdb (Suc h) xs"
  shows "xs = fdb ! Suc h # tl xs" and "free_chain d fdb h (tl xs)"
  using assms
  by (cases; simp add: table_stack_Suc free_chain.intros)+

lemma free_chain_next:
  assumes "free_chain d fdb 0 xs"
  shows "if fdb ! 0 = 1 then xs = []
    else xs = fdb ! 0 # tl xs \<and> addr_ok d (fdb ! 0)
      \<and> free_chain d (words_at (dblk d (fdb ! 0)) 0 64) 63 (tl xs)"
  using assms by cases simp_all

lemma table_stack_update:
  assumes "length fdb = 64" and "Suc h < 64"
  shows "table_stack (fdb[Suc h := a]) (Suc h) = a # table_stack fdb h"
  using assms by (cases fdb) (simp_all add: table_stack_def take_Suc_conv_app_nth)

lemma free_chain_push:
  assumes "free_chain d fdb h xs" and "Suc h < 64"
  shows "free_chain d (fdb[Suc h := a]) (Suc h) (a # xs)"
  using assms(1)
proof cases
  case chain_end
  then show ?thesis
    using free_chain.chain_end [of "fdb[Suc h := a]" "Suc h"] assms(2) by (simp add: table_stack_update)
next
  case (chain_link b ys)
  then show ?thesis
    using free_chain.chain_link [of "fdb[Suc h := a]" "Suc h" b d ys] assms(2)
    by (simp add: table_stack_update)
qed

lemma free_chain_bounds: "free_chain d fdb h xs \<Longrightarrow> length fdb = 64 \<and> h < 64"
  by (erule free_chain.cases) simp_all

section \<open>Correctness of the operations\<close>

text \<open>The state \<open>balloc\<close> and \<open>bfree\<close> leave behind: a new table in memory and the
  superblock on disk brought up to date.\<close>

definition sync_sb :: "'a store_scheme \<Rightarrow> 'a store_scheme" where
  "sync_sb s = s\<lparr>dsk := (dsk s)\<lparr>dblk := (blk s)(1 := fs_bytes (fs s))\<rparr>\<rparr>"

lemma write_sb_sync: "formatted s \<Longrightarrow> write_sb s = Some (sync_sb s)"
  by (simp add: write_sb_formatted sync_sb_def)

lemma sync_sb_simps [simp]:
  "fs (sync_sb s) = fs s" "blk (sync_sb s) 1 = fs_bytes (fs s)" "a \<noteq> 1 \<Longrightarrow> blk (sync_sb s) a = blk s a"
  "dnum (dsk (sync_sb s)) = dnum (dsk s)" "store.more (sync_sb s) = store.more s"
  by (simp_all add: sync_sb_def)

lemma formatted_sync_sb [simp]: "formatted s \<Longrightarrow> formatted (sync_sb s)"
  by (simp add: sync_sb_def formatted_write formatted_wf_fs)

lemma data_addr_not_sb: "data_addr a \<Longrightarrow> a \<noteq> 1"
  by (auto simp: data_addr_def word_le_nat_alt)

lemma alloc_inv_sync:
  assumes "alloc_inv s xs"
  shows "alloc_inv (sync_sb s) xs"
proof -
  have "blk (sync_sb s) a = blk s a" if "a \<in> set xs" for a
    using assms that data_addr_not_sb by (auto simp: alloc_inv_def)
  then show ?thesis using assms by (intro alloc_inv_frame [OF assms]) (auto simp: alloc_inv_def)
qed

lemma balloc_pop:
  assumes "alloc_inv s xs" and "0 < fs_fdbhead (fs s)"
  shows "xs \<noteq> []" and "balloc s = Some (hd xs, sync_sb (s\<lparr>fs := (fs s)\<lparr>fs_fdbhead := fs_fdbhead (fs s) - 1\<rparr>\<rparr>))"
    and "alloc_inv (s\<lparr>fs := (fs s)\<lparr>fs_fdbhead := fs_fdbhead (fs s) - 1\<rparr>\<rparr>) (tl xs)"
proof -
  obtain h where h: "unat (fs_fdbhead (fs s)) = Suc h" and h': "unat (fs_fdbhead (fs s) - 1) = h"
    using assms(2) by (metis Suc_pred' unat_gt_0 unat_minus_one word_neq_0_conv)
  from assms(1) have f: "formatted s" and c: "free_chain (dsk s) (fs_fdb (fs s)) (Suc h) xs"
    by (simp_all add: alloc_inv_def h)
  have b: "length (fs_fdb (fs s)) = 64" "Suc h < 64" using free_chain_bounds [OF c] by auto
  show "xs \<noteq> []" using free_chain_pop(1) [OF c] by blast
  show "alloc_inv (s\<lparr>fs := (fs s)\<lparr>fs_fdbhead := fs_fdbhead (fs s) - 1\<rparr>\<rparr>) (tl xs)"
    using assms(1) free_chain_pop [OF c] f
    by (auto simp: alloc_inv_def h' formatted_table distinct_tl dest: list.set_sel(2) [rotated])
  have "hd xs = fs_fdb (fs s) ! Suc h" using free_chain_pop(1) [OF c] by (metis list.sel(1))
  then show "balloc s = Some (hd xs, sync_sb (s\<lparr>fs := (fs s)\<lparr>fs_fdbhead := fs_fdbhead (fs s) - 1\<rparr>\<rparr>))"
    using assms(2) f b by (simp add: balloc_def write_sb_sync formatted_table h)
qed

lemma balloc_refill:
  assumes "alloc_inv s xs" and "fs_fdbhead (fs s) = 0" and "fs_fdb (fs s) ! 0 \<noteq> 1"
  defines "s' \<equiv> s\<lparr>fs := (fs s)\<lparr>fs_fdb := words_at (blk s (fs_fdb (fs s) ! 0)) 0 64, fs_fdbhead := 63\<rparr>\<rparr>"
  shows "xs \<noteq> []" and "balloc s = Some (hd xs, sync_sb s')" and "alloc_inv s' (tl xs)"
proof -
  let ?a = "fs_fdb (fs s) ! 0"
  from assms(1,2) have f: "formatted s" and c: "free_chain (dsk s) (fs_fdb (fs s)) 0 xs"
    by (simp_all add: alloc_inv_def)
  have len: "length (fs_fdb (fs s)) = 64" using free_chain_bounds [OF c] by simp
  from free_chain_next [OF c] assms(3) have xs: "xs = ?a # tl xs" and v: "valid s ?a"
    and c': "free_chain (dsk s) (words_at (blk s ?a) 0 64) 63 (tl xs)" by (auto simp: valid_def)
  from xs show ne: "xs \<noteq> []" by blast
  have f': "formatted s'" unfolding s'_def by (simp add: f formatted_table)
  show "alloc_inv s' (tl xs)"
    using assms(1) c' f' ne
    by (auto simp: alloc_inv_def s'_def distinct_tl dest: list.set_sel(2) [rotated])
  have "hd xs = ?a" using xs by (metis list.sel(1))
  then show "balloc s = Some (hd xs, sync_sb s')"
    using assms(2,3) len v write_sb_sync [OF f'] by (simp add: balloc_def s'_def)
qed

lemma balloc_full:
  assumes "alloc_inv s xs" and "fs_fdbhead (fs s) = 0" and "fs_fdb (fs s) ! 0 = 1"
  shows "xs = []" and "balloc s = Some (-1, s)"
proof -
  from assms have c: "free_chain (dsk s) (fs_fdb (fs s)) 0 xs" by (simp add: alloc_inv_def)
  then show "xs = []" using free_chain_next [OF c] assms(3) by simp
  show "balloc s = Some (-1, s)" using free_chain_bounds [OF c] assms(2,3) by (simp add: balloc_def)
qed

text \<open>What changes outside the allocator: the superblock copy in block 1, nothing else.\<close>

definition same_data :: "'a store_scheme \<Rightarrow> 'a store_scheme \<Rightarrow> bool" where
  "same_data s s' \<longleftrightarrow> (\<forall>a. a \<noteq> 1 \<longrightarrow> blk s' a = blk s a) \<and> blk s' 1 = fs_bytes (fs s')
     \<and> dnum (dsk s') = dnum (dsk s) \<and> store.more s' = store.more s"

lemma same_data_sync: "store.more s' = store.more s \<Longrightarrow> dsk s' = dsk s \<Longrightarrow> same_data s (sync_sb s')"
  by (simp add: same_data_def sync_sb_def)

lemma table_cases:
  obtains "0 < fs_fdbhead (fs s)" | "fs_fdbhead (fs s) = 0" "fs_fdb (fs s) ! 0 \<noteq> 1"
    | "fs_fdbhead (fs s) = 0" "fs_fdb (fs s) ! 0 = 1"
  using word_neq_0_conv [of "fs_fdbhead (fs s)"] by blast

lemma balloc_Cons:
  assumes "alloc_inv s (x # xs)"
  shows "\<exists>s'. balloc s = Some (x, s') \<and> alloc_inv s' xs \<and> same_data s s'"
proof (cases s rule: table_cases)
    case 1
    with balloc_pop [OF assms] show ?thesis by (auto intro: alloc_inv_sync same_data_sync)
  next
    case 2
    with balloc_refill [OF assms] show ?thesis by (auto intro: alloc_inv_sync same_data_sync)
  next
    case 3
    with balloc_full [OF assms] show ?thesis by simp
qed

lemma balloc_Nil:
  assumes "alloc_inv s []"
  shows "balloc s = Some (-1, s)"
  using balloc_pop(1) [OF assms] balloc_refill(1) [OF assms] balloc_full(2) [OF assms]
  by (cases s rule: table_cases) auto

lemma unat_plus_one_63: "h < (63 :: u32) \<Longrightarrow> unat (h + 1) = Suc (unat h)"
  by (simp add: word_less_nat_alt unat_word_ariths)

lemma bfree_push:
  assumes "alloc_inv s xs" and "data_addr a" and "a \<notin> set xs" and "fs_fdbhead (fs s) < 63"
  defines "s' \<equiv> s\<lparr>fs := (fs s)\<lparr>fs_fdbhead := fs_fdbhead (fs s) + 1,
      fs_fdb := (fs_fdb (fs s))[unat (fs_fdbhead (fs s) + 1) := a]\<rparr>\<rparr>"
  shows "bfree a s = Some (0, sync_sb s')" and "alloc_inv s' (a # xs)"
proof -
  from assms(1) have f: "formatted s"
    and c: "free_chain (dsk s) (fs_fdb (fs s)) (unat (fs_fdbhead (fs s))) xs"
    by (simp_all add: alloc_inv_def)
  have len: "length (fs_fdb (fs s)) = 64" using free_chain_bounds [OF c] by simp
  have h: "unat (fs_fdbhead (fs s) + 1) = Suc (unat (fs_fdbhead (fs s)))"
    and h63: "Suc (unat (fs_fdbhead (fs s))) < 64"
    using assms(4) unat_plus_one_63 by (simp_all add: word_less_nat_alt)
  have f': "formatted s'" using f len by (auto simp: s'_def formatted_def wf_store_def wf_fs_def)
  show "alloc_inv s' (a # xs)"
    using assms(1-3) f' free_chain_push [OF c h63, of a] by (simp add: alloc_inv_def s'_def h)
  show "bfree a s = Some (0, sync_sb s')"
    using assms(4) len h h63 write_sb_sync [OF f'] by (simp add: bfree_def s'_def)
qed

lemma bfree_new_table:
  assumes "alloc_inv s xs" and "data_addr a" and "a \<notin> set xs" and "\<not> fs_fdbhead (fs s) < 63"
  defines "d' \<equiv> (dsk s)\<lparr>dblk := (blk s)(a := words_bytes (fs_fdb (fs s)) @ drop 256 (blk s a))\<rparr>"
  defines "s' \<equiv> s\<lparr>dsk := d', fs := (fs s)\<lparr>fs_fdb := (fs_fdb (fs s))[0 := a], fs_fdbhead := 0\<rparr>\<rparr>"
  shows "bfree a s = Some (1, sync_sb s')" and "alloc_inv s' (a # xs)"
proof -
  from assms(1) have f: "formatted s"
    and c: "free_chain (dsk s) (fs_fdb (fs s)) (unat (fs_fdbhead (fs s))) xs"
    by (simp_all add: alloc_inv_def)
  have len: "length (fs_fdb (fs s)) = 64" using free_chain_bounds [OF c] by simp
  have h: "unat (fs_fdbhead (fs s)) = 63"
    using free_chain_bounds [OF c] assms(4) by (simp add: word_less_nat_alt)
  have v: "valid s a" using data_addr_valid [OF f assms(2)] .
  have "formatted (s\<lparr>dsk := d'\<rparr>)"
    unfolding d'_def using len v f by (intro formatted_write) simp_all
  from formatted_table(1) [OF this, of "(fs_fdb (fs s))[0 := a]" 0] have f': "formatted s'"
    using len by (simp add: s'_def)
  have tbl: "words_at (dblk d' a) 0 64 = fs_fdb (fs s)"
    using words_at_words_bytes [of 0 64 "fs_fdb (fs s)"] len by (simp add: d'_def)
  have "free_chain d' (fs_fdb (fs s)) 63 xs"
    using assms(3) by (intro free_chain_frame [OF c [unfolded h]]) (auto simp: d'_def)
  moreover have "addr_ok d' a" using v by (simp add: d'_def valid_def addr_ok_def)
  ultimately have "free_chain d' ((fs_fdb (fs s))[0 := a]) 0 (table_stack ((fs_fdb (fs s))[0 := a]) 0 @ a # xs)"
    using len data_addr_not_sb [OF assms(2)] by (intro free_chain.chain_link) (simp_all add: tbl)
  then show "alloc_inv s' (a # xs)"
    using assms(1-3) f' by (simp add: alloc_inv_def s'_def)
  show "bfree a s = Some (1, sync_sb s')"
    using assms(4) len v write_sb_sync [OF f'] by (simp add: bfree_def s'_def d'_def kwrite_valid)
qed

lemma bfree_cons:
  assumes "alloc_inv s xs" and "data_addr a" and "a \<notin> set xs"
  shows "\<exists>r s'. bfree a s = Some (r, s') \<and> alloc_inv s' (a # xs)
    \<and> (\<forall>c. c \<noteq> 1 \<and> c \<noteq> a \<longrightarrow> blk s' c = blk s c) \<and> dnum (dsk s') = dnum (dsk s)
    \<and> store.more s' = store.more s"
proof (cases "fs_fdbhead (fs s) < 63")
  case True
  then show ?thesis
    using bfree_push [OF assms] alloc_inv_sync by (auto intro!: exI)
next
  case False
  then show ?thesis
    using bfree_new_table [OF assms] alloc_inv_sync by (auto intro!: exI)
qed

section \<open>The allocator's contract\<close>

text \<open>
  A pool of blocks as its clients see it: \<open>pool s xs\<close> says that \<open>xs\<close> are the free blocks
  in the order they will be handed out, \<open>owned\<close> which addresses may be given back.
\<close>

locale block_pool =
  fixes alloc :: "'s \<Rightarrow> (u32 \<times> 's) option"
    and free :: "u32 \<Rightarrow> 's \<Rightarrow> (u32 \<times> 's) option"
    and pool :: "'s \<Rightarrow> u32 list \<Rightarrow> bool"
    and owned :: "u32 \<Rightarrow> bool"
  assumes alloc_some: "pool s (x # xs) \<Longrightarrow> \<exists>s'. alloc s = Some (x, s') \<and> pool s' xs"
    and alloc_none: "pool s [] \<Longrightarrow> alloc s = Some (-1, s)"
    and free_some: "pool s xs \<Longrightarrow> owned a \<Longrightarrow> a \<notin> set xs \<Longrightarrow>
      \<exists>r s'. free a s = Some (r, s') \<and> pool s' (a # xs)"
    and pool_distinct: "pool s xs \<Longrightarrow> distinct xs"
    and pool_owned: "pool s xs \<Longrightarrow> a \<in> set xs \<Longrightarrow> owned a"
    and owned_not_error: "\<not> owned (-1)"
begin

text \<open>The block freed last is the block allocated next, and the pool is back where it was.\<close>

lemma free_alloc:
  assumes "pool s xs" and "owned a" and "a \<notin> set xs"
  obtains r s1 s2 where "free a s = Some (r, s1)" and "alloc s1 = Some (a, s2)" and "pool s2 xs"
  using free_some [OF assms] alloc_some by blast

text \<open>An allocated block can be given back, and is in no free list meanwhile.\<close>

lemma alloc_free:
  assumes "pool s xs" and "alloc s = Some (a, s1)" and "a \<noteq> -1"
  obtains r s2 where "owned a" and "a \<notin> set (tl xs)" and "pool s1 (tl xs)"
    and "free a s1 = Some (r, s2)" and "pool s2 xs"
proof (cases xs)
  case Nil
  then have False using assms alloc_none [of s] by simp
  then show ?thesis ..
next
  case (Cons x ys)
  then have x: "a = x" "pool s1 ys" using assms alloc_some [of s x ys] by auto
  then have "a \<notin> set ys" "owned a"
    using Cons assms(1) pool_distinct [of s xs] pool_owned [of s xs a] by auto
  with x Cons free_some [of s1 ys a] that show ?thesis by auto
qed

text \<open>Two blocks allocated one after the other are different, and neither is the error
  value.\<close>

lemma alloc_twice_distinct:
  assumes "pool s xs" and "alloc s = Some (a, s1)" and "alloc s1 = Some (b, s2)" and "b \<noteq> -1"
  shows "a \<noteq> b" and "a \<noteq> -1"
proof -
  obtain x y ys where xs: "xs = x # y # ys"
  proof (cases xs)
    case Nil
    then show ?thesis using assms alloc_none by auto
  next
    case (Cons x zs)
    then obtain s' where "alloc s = Some (x, s')" "pool s' zs" using assms(1) alloc_some by blast
    with Cons that show ?thesis using assms alloc_none by (cases zs) auto
  qed
  then have "a = x" "b = y" using assms alloc_some by (metis Pair_inject option.inject)+
  then show "a \<noteq> b" "a \<noteq> -1"
    using xs assms(1) pool_distinct [of s xs] pool_owned [of s xs x] owned_not_error by auto
qed

end

interpretation bp: block_pool balloc bfree alloc_inv data_addr
proof
  show "\<not> data_addr (-1)" by (simp add: data_addr_def)
qed (use balloc_Cons balloc_Nil bfree_cons in \<open>auto simp: alloc_inv_def\<close>, blast+)

section \<open>Building the free list: the superblock part of \<open>wipe\<close>\<close>

text \<open>Table \<open>i\<close> of the loop in \<open>wipe\<close>, and its first three parts: the geometry, the
  thirty table blocks, the table in the superblock. Entries 62 and 63 of the superblock's
  table keep whatever was there.\<close>

definition wipe_fdb :: "fs_t \<Rightarrow> nat \<Rightarrow> u32 list" where
  "wipe_fdb f i =
     (if i = 29 then fs_sblkno f else of_nat i + 1 + fs_dblkno f)
       # map (\<lambda>j. of_nat (63 * i + j) + (fs_dblkno f + 30)) [0..<63]"

definition wipe_geometry :: "fs_t \<Rightarrow> fs_t" where
  "wipe_geometry f = f\<lparr>fs_sblkno := 1, fs_size := 2048, fs_iblkno := 2, fs_isize := 64 * 8,
     fs_dblkno := 66, fs_dsize := 1982, fs_fdbhead := 1982 mod 64 - 1\<rparr>"

definition wipe_super :: "'a store_scheme \<Rightarrow> 'a store_scheme option" where
  "wipe_super s = do {
     let s = s\<lparr>fs := wipe_geometry (fs s)\<rparr>;
     s \<leftarrow> for_each [0..<30] (\<lambda>i s. kwrite (of_nat i + fs_dblkno (fs s)) (words_bytes (wipe_fdb (fs s) i)) s) s;
     let fdb = foldl (\<lambda>fdb i. fdb[i := of_nat i + 1986]) ((fs_fdb (fs s))[0 := fs_dblkno (fs s)]) [1..<62];
     write_sb (s\<lparr>fs := (fs s)\<lparr>fs_fdb := fdb\<rparr>\<rparr>)
   }"

text \<open>The order in which the blocks of a fresh disk are handed out.\<close>

definition table_blocks :: "nat \<Rightarrow> nat list" where
  "table_blocks i = (66 + i) # rev [96 + 63 * i..<96 + 63 * i + 63]"

definition wipe_order :: "u32 list" where
  "wipe_order = map of_nat (rev [1987..<2048] @ concat (map table_blocks [0..<30]))"

lemma table_blocks_disjoint: "i < 30 \<Longrightarrow> j < 30 \<Longrightarrow> i \<noteq> j \<Longrightarrow> set (table_blocks i) \<inter> set (table_blocks j) = {}"
  by (auto simp: table_blocks_def)

lemma set_table_blocks: "(\<Union>i<30. set (table_blocks i)) = {66..<1986}"
proof
  show "(\<Union>i<30. set (table_blocks i)) \<subseteq> {66..<1986}" by (auto simp: table_blocks_def)
  show "{66..<1986} \<subseteq> (\<Union>i<30. set (table_blocks i))"
  proof
    fix n :: nat assume n: "n \<in> {66..<1986}"
    show "n \<in> (\<Union>i<30. set (table_blocks i))"
    proof (cases "n < 96")
      case True
      with n show ?thesis by (intro UN_I [of "n - 66"]) (auto simp: table_blocks_def)
    next
      case False
      define i where "i = (n - 96) div 63"
      have "n - 96 = 63 * i + (n - 96) mod 63" by (simp add: i_def)
      moreover have "(n - 96) mod 63 < 63" by simp
      ultimately have "n \<in> set (table_blocks i)" "i < 30"
        using n False by (auto simp: table_blocks_def)
      then show ?thesis by blast
    qed
  qed
qed

lemma distinct_table_blocks: "distinct (concat (map table_blocks [0..<30]))"
proof -
  have "inj_on table_blocks {0..<30}"
    by (rule inj_onI) (auto simp: table_blocks_def)
  moreover have "distinct (table_blocks i)" for i by (auto simp: table_blocks_def)
  ultimately show ?thesis
    by (auto intro!: distinct_concat simp: distinct_map simp del: upt_rec_numeral)
      (metis disjoint_iff table_blocks_disjoint)
qed

lemma of_nat_inj_u32: "inj_on (of_nat :: nat \<Rightarrow> u32) {..<2048}"
  by (rule inj_onI) (auto simp: of_nat_inverse word_unat_eq_iff unat_of_nat)

lemma wipe_order_nats: "set (rev [1987..<2048] @ concat (map table_blocks [0..<30])) = {66..<2048} - {1986}"
  using set_table_blocks by (auto simp: atLeast0LessThan simp del: upt_rec_numeral)

lemma distinct_wipe_order: "distinct wipe_order"
proof -
  let ?l = "rev [1987..<2048] @ concat (map table_blocks [0..<30])"
  have "set (concat (map table_blocks [0..<30])) = {66..<1986}"
    using set_table_blocks by (simp add: atLeast0LessThan del: upt_rec_numeral)
  then have "distinct ?l" using distinct_table_blocks by (simp only: distinct_append) (auto simp del: upt_rec_numeral)
  moreover have "inj_on (of_nat :: nat \<Rightarrow> u32) (set ?l)"
    using of_nat_inj_u32 by (rule inj_on_subset) (simp only: wipe_order_nats, auto)
  ultimately show ?thesis by (simp only: wipe_order_def distinct_map)
qed

lemma set_wipe_order: "set wipe_order = of_nat ` ({66..<2048} - {1986})"
  by (simp only: wipe_order_def set_map wipe_order_nats)

lemma length_wipe_order: "length wipe_order = 1981"
proof -
  have "card (set wipe_order) = card ({66..<2048} - {1986 :: nat})"
    unfolding set_wipe_order by (intro card_image inj_on_subset [OF of_nat_inj_u32]) auto
  then show ?thesis using distinct_card [OF distinct_wipe_order] by simp
qed

lemma data_addr_of_nat: "66 \<le> n \<Longrightarrow> n < 2048 \<Longrightarrow> data_addr (of_nat n)"
  by (simp add: data_addr_def word_le_nat_alt word_less_nat_alt unat_of_nat)

lemma wipe_order_data: "a \<in> set wipe_order \<Longrightarrow> data_addr a"
  by (auto simp: set_wipe_order data_addr_of_nat)

text \<open>The tables on disk form the chain \<open>wipe_order\<close> describes.\<close>

definition chain_from :: "nat \<Rightarrow> u32 list" where
  "chain_from i = map of_nat (concat (map table_blocks [i..<30]))"

lemma chain_from_step:
  "i < 30 \<Longrightarrow> chain_from i = of_nat (66 + i) # map of_nat (rev [96 + 63 * i..<96 + 63 * i + 63]) @ chain_from (Suc i)"
  by (simp add: chain_from_def table_blocks_def upt_conv_Cons)

lemma length_wipe_fdb [simp]: "length (wipe_fdb f i) = 64"
  by (simp add: wipe_fdb_def)

lemma wipe_fdb_entries:
  assumes "fs_dblkno f = 66" and "i < 30"
  shows "table_stack (wipe_fdb f i) 63 = map of_nat (rev [96 + 63 * i..<96 + 63 * i + 63])"
proof -
  have "map (\<lambda>j. of_nat (63 * i + j) + (66 + 30)) [0..<63] = (map of_nat [96 + 63 * i..<96 + 63 * i + 63] :: u32 list)"
    by (rule nth_equalityI) (auto simp: algebra_simps)
  then show ?thesis by (simp add: table_stack_def wipe_fdb_def assms rev_map del: upt_rec_numeral)
qed

lemma wipe_chain:
  assumes f: "fs_dblkno f = 66" "fs_sblkno f = 1" and d: "dnum d = 2048"
    and tbl: "\<And>i. i < 30 \<Longrightarrow> words_at (dblk d (of_nat i + 66)) 0 64 = wipe_fdb f i"
    and i: "i < 30"
  shows "free_chain d (wipe_fdb f i) 63 (map of_nat (rev [96 + 63 * i..<96 + 63 * i + 63]) @ chain_from (Suc i))"
  using i
proof (induction "29 - i" arbitrary: i)
  case 0
  then have i: "i = 29" by simp
  have "free_chain d (wipe_fdb f 29) 63 (table_stack (wipe_fdb f 29) 63)"
    using f by (intro free_chain.chain_end) (simp_all add: wipe_fdb_def)
  then show ?case using f by (simp add: i wipe_fdb_entries chain_from_def del: upt_rec_numeral)
next
  case (Suc k)
  let ?a = "of_nat (Suc i) + 66 :: u32"
  have IH: "free_chain d (wipe_fdb f (Suc i)) 63
      (map of_nat (rev [96 + 63 * Suc i..<96 + 63 * Suc i + 63]) @ chain_from (Suc (Suc i)))"
    using Suc by (intro Suc.hyps) auto
  have i: "Suc i < 30" using Suc by auto
  then have ok: "data_addr (of_nat (66 + Suc i))" by (intro data_addr_of_nat) auto
  have "?a = of_nat (66 + Suc i)" by simp
  with ok have "?a \<noteq> 1" and "addr_ok d ?a"
    using data_addr_not_sb d sint_range_unat [of 2048 ?a]
    by (auto simp: addr_ok_def data_addr_def word_less_nat_alt)
  then have "free_chain d (wipe_fdb f i) 63 (table_stack (wipe_fdb f i) 63 @ ?a
      # map of_nat (rev [96 + 63 * Suc i..<96 + 63 * Suc i + 63]) @ chain_from (Suc (Suc i)))"
    using f i IH tbl [OF i]
    by (intro free_chain.chain_link) (simp_all add: wipe_fdb_def algebra_simps del: upt_rec_numeral)
  moreover have "?a # map of_nat (rev [96 + 63 * Suc i..<96 + 63 * Suc i + 63]) @ chain_from (Suc (Suc i))
      = chain_from (Suc i)"
    using chain_from_step [OF i] by (simp add: algebra_simps del: upt_rec_numeral)
  ultimately show ?case using f Suc.prems by (simp add: wipe_fdb_entries del: upt_rec_numeral)
qed

lemma foldl_upd:
  "length (foldl (\<lambda>l i. l[i := g i]) l is) = length l"
  "distinct is \<Longrightarrow> k < length l \<Longrightarrow> foldl (\<lambda>l i. l[i := g i]) l is ! k = (if k \<in> set is then g k else l ! k)"
  by (induction "is" arbitrary: l) (auto simp: nth_list_update)

lemma wipe_table:
  fixes fdb :: "u32 list"
  assumes "length fdb = 64"
  defines "t \<equiv> foldl (\<lambda>fdb i. fdb[i := of_nat i + 1986]) (fdb[0 := 66]) [1..<62]"
  shows "length t = 64" and "t ! 0 = 66" and "table_stack t 61 = map of_nat (rev [1987..<2048])"
proof -
  show len: "length t = 64" using assms(1) by (simp add: t_def foldl_upd(1))
  show "t ! 0 = 66" using assms(1) by (simp add: t_def foldl_upd(2) del: upt_rec_numeral)
  have "t ! k = of_nat (k + 1986)" if "k \<in> {1..<62}" for k
    using that assms(1) by (simp add: t_def foldl_upd(2) del: upt_rec_numeral)
  then have "take 61 (tl t) = map of_nat [1987..<2048]"
    using len by (intro nth_equalityI) (auto simp: nth_tl simp del: upt_rec_numeral)
  then show "table_stack t 61 = map of_nat (rev [1987..<2048])"
    by (simp add: table_stack_def rev_map del: upt_rec_numeral)
qed

lemma unat_table_addr: "i < 30 \<Longrightarrow> unat (of_nat i + 66 :: u32) = i + 66"
  by (simp add: unat_word_ariths unat_of_nat)

lemma table_addr_inj: "i < 30 \<Longrightarrow> j < 30 \<Longrightarrow> of_nat i + 66 = (of_nat j + 66 :: u32) \<longleftrightarrow> i = j"
  by (metis add_right_imp_eq unat_table_addr)

lemma wipe_tables_loop:
  assumes "wf_store s" and "dnum (dsk s) = 2048" and f: "fs_dblkno (fs s) = 66"
  shows "\<exists>s'. for_each [0..<30] (\<lambda>i s. kwrite (of_nat i + fs_dblkno (fs s)) (words_bytes (wipe_fdb (fs s) i)) s) s
      = Some s' \<and> fs s' = fs s \<and> wf_store s' \<and> dnum (dsk s') = 2048 \<and> store.more s' = store.more s
      \<and> (\<forall>i<30. words_at (blk s' (of_nat i + 66)) 0 64 = wipe_fdb (fs s) i)"
proof -
  let ?P = "\<lambda>k s'. fs s' = fs s \<and> wf_store s' \<and> dnum (dsk s') = 2048 \<and> store.more s' = store.more s
      \<and> (\<forall>i<k. words_at (blk s' (of_nat i + 66)) 0 64 = wipe_fdb (fs s) i)"
  have "\<exists>s'. for_each [0..<30] (\<lambda>i s. kwrite (of_nat i + fs_dblkno (fs s)) (words_bytes (wipe_fdb (fs s) i)) s) s
      = Some s' \<and> ?P 30 s'"
  proof (rule for_each_upt)
    show "?P 0 s" using assms by simp
  next
    fix k and t :: "'a store_scheme" assume k: "k < 30" and P: "?P k t"
    let ?a = "of_nat k + 66 :: u32" and ?ws = "wipe_fdb (fs s) k"
    let ?x = "words_bytes ?ws @ drop 256 (blk t ?a)"
    let ?t = "t\<lparr>dsk := (dsk t)\<lparr>dblk := (blk t)(?a := ?x)\<rparr>\<rparr>"
    have v: "valid t ?a"
      using P k sint_range_unat [of 2048 ?a] unat_table_addr by (simp add: valid_def addr_ok_def)
    then have w: "kwrite ?a (words_bytes ?ws) t = Some ?t" by (simp add: kwrite_valid)
    have "length ?x = 512" using P v by simp
    then have "wf_store ?t" using P assms(1) by (simp add: wf_store_def wf_disk_def)
    moreover have "words_at ?x 0 64 = ?ws" using words_at_words_bytes [of 0 64 ?ws] by simp
    then have "words_at (blk ?t (of_nat i + 66)) 0 64 = wipe_fdb (fs s) i" if "i < Suc k" for i
      using that P k table_addr_inj [of i k] by (cases "i = k") auto
    ultimately have "?P (Suc k) ?t" using P by simp
    with w P f show "\<exists>s'. kwrite (of_nat k + fs_dblkno (fs t)) (words_bytes (wipe_fdb (fs t) k)) t
        = Some s' \<and> ?P (Suc k) s'" by auto
  qed
  then show ?thesis by blast
qed

lemma wipe_super_inv:
  assumes "wf_store s" and "dnum (dsk s) = 2048"
  shows "\<exists>s'. wipe_super s = Some s' \<and> alloc_inv s' wipe_order \<and> blk s' 1 = fs_bytes (fs s')
    \<and> store.more s' = store.more s"
proof -
  define s0 where "s0 = s\<lparr>fs := wipe_geometry (fs s)\<rparr>"
  have s0: "wf_store s0" "dnum (dsk s0) = 2048" "fs_dblkno (fs s0) = 66" "store.more s0 = store.more s"
    using assms by (simp_all add: s0_def wf_store_def wf_fs_def wipe_geometry_def)
  from wipe_tables_loop [OF s0(1-3)] obtain s1 where
    s1: "for_each [0..<30] (\<lambda>i s. kwrite (of_nat i + fs_dblkno (fs s)) (words_bytes (wipe_fdb (fs s) i)) s) s0
      = Some s1" "fs s1 = fs s0" "wf_store s1" "dnum (dsk s1) = 2048" "store.more s1 = store.more s0"
    and tbl: "\<And>i. i < 30 \<Longrightarrow> words_at (blk s1 (of_nat i + 66)) 0 64 = wipe_fdb (fs s0) i"
    by auto
  define t where "t = foldl (\<lambda>fdb i. fdb[i := of_nat i + 1986]) ((fs_fdb (fs s1))[0 := 66]) [1..<62]"
  define s2 where "s2 = s1\<lparr>fs := (fs s1)\<lparr>fs_fdb := t\<rparr>\<rparr>"
  have t: "length t = 64" "t ! 0 = 66" "table_stack t 61 = map of_nat (rev [1987..<2048])"
    unfolding t_def using s1(3) by (intro wipe_table, simp add: wf_store_def wf_fs_def)+
  have geo: "fs_sblkno (fs s1) = 1" "fs_iblkno (fs s1) = 2" "fs_isize (fs s1) = 512" "fs_dblkno (fs s1) = 66"
    "unat (fs_fdbhead (fs s1)) = 61"
    by (simp_all add: s1(2) s0_def wipe_geometry_def)
  have form: "formatted s2"
    using s1(3,4) geo t(1) by (simp add: s2_def formatted_def wf_store_def wf_fs_def)
  have "free_chain (dsk s2) (wipe_fdb (fs s0) 0) 63
      (map of_nat (rev [96 + 63 * 0..<96 + 63 * 0 + 63]) @ chain_from (Suc 0))"
    using s1(4) tbl geo by (intro wipe_chain) (simp_all add: s2_def s1(2))
  moreover have "addr_ok (dsk s2) 66" using formatted_valid [OF form, of 66] by (simp add: valid_def)
  ultimately have "free_chain (dsk s2) t 61 (table_stack t 61 @ 66
      # map of_nat (rev [96 + 63 * 0..<96 + 63 * 0 + 63]) @ chain_from (Suc 0))"
    using t tbl [of 0] by (intro free_chain.chain_link) (simp_all add: s2_def)
  moreover have "wipe_order = table_stack t 61 @ 66
      # map of_nat (rev [96 + 63 * 0..<96 + 63 * 0 + 63]) @ chain_from (Suc 0)"
    using chain_from_step [of 0] by (simp add: wipe_order_def t(3) chain_from_def del: upt_rec_numeral)
  ultimately have "alloc_inv s2 wipe_order"
    using form geo distinct_wipe_order wipe_order_data by (simp add: alloc_inv_def s2_def)
  then have "alloc_inv (sync_sb s2) wipe_order" by (rule alloc_inv_sync)
  moreover have "wipe_super s = Some (sync_sb s2)"
    using s1(1) geo write_sb_sync [OF form] by (simp add: wipe_super_def s0_def [symmetric] s2_def t_def del: upt_rec_numeral)
  ultimately show ?thesis using s1(5) s0(4) by (auto simp: s2_def)
qed

section \<open>Properties\<close>

text \<open>A blank disk of 2048 zero blocks, and the same disk after the superblock part of
  \<open>wipe\<close>; the states the witnesses use.\<close>

definition blank :: store where
  "blank = \<lparr>dsk = \<lparr>dnum = 2048, dblk = (\<lambda>_. replicate 512 0)\<rparr>,
     fs = \<lparr>fs_sblkno = 0, fs_size = 0, fs_iblkno = 0, fs_isize = 0, fs_dblkno = 0, fs_dsize = 0,
       fs_fdbhead = 0, fs_fdb = replicate 64 0, fs_fil = replicate 32 0, fs_pad = replicate 100 0\<rparr>\<rparr>"

definition fresh :: store where
  "fresh = the (wipe_super blank)"

lemma blank_wf: "wf_store blank" "dnum (dsk blank) = 2048"
  by (simp_all add: blank_def wf_store_def wf_disk_def wf_fs_def)

lemma fresh_inv: "wipe_super blank = Some fresh" "alloc_inv fresh wipe_order"
  using wipe_super_inv [OF blank_wf] by (auto simp: fresh_def)

lemma wipe_order_hd: "wipe_order = 2047 # 2046 # tl (tl wipe_order)"
proof -
  have "rev [1987..<2048] = 2047 # 2046 # rev [1987..<(2046::nat)]"
    by simp
  then show ?thesis by (simp add: wipe_order_def del: upt_rec_numeral)
qed

text \<open>C10. \<open>balloc\<close> on a consistent disk: it returns the next block of the free stack and
  leaves the rest of the stack free, changing nothing on disk but the superblock copy, which
  matches the superblock in memory again; when no block is free it returns -1 and changes
  nothing. It never fails to return, and a block it returns is never the error value.\<close>

theorem balloc_spec:
  assumes "alloc_inv s xs"
  shows "case xs of [] \<Rightarrow> balloc s = Some (-1, s)
    | x # ys \<Rightarrow> x \<noteq> -1 \<and> (\<exists>s'. balloc s = Some (x, s') \<and> alloc_inv s' ys \<and> same_data s s')"
proof (cases xs)
  case Nil
  then show ?thesis using assms balloc_Nil by simp
next
  case (Cons x ys)
  then have "x \<noteq> -1" using assms bp.pool_owned [of s xs x] bp.owned_not_error by auto
  then show ?thesis using assms Cons balloc_Cons by simp
qed

theorem balloc_spec_witness:
  "alloc_inv fresh wipe_order \<and>
   (\<exists>s'. balloc fresh = Some (2047, s') \<and> alloc_inv s' (tl wipe_order) \<and> same_data fresh s')"
proof -
  have "alloc_inv fresh (2047 # tl wipe_order)"
    using fresh_inv(2) wipe_order_hd by (metis list.sel(3))
  from balloc_spec [OF this] fresh_inv(2) show ?thesis by auto
qed

text \<open>C11. \<open>bfree\<close> on a consistent disk: giving back a data block that is not free makes it
  the next block to be allocated, with the rest of the stack unchanged, whether or not the
  table in the superblock is full; only the superblock copy and, when the table was full,
  the freed block itself are written.\<close>

theorem bfree_spec:
  assumes "alloc_inv s xs" and "data_addr a" and "a \<notin> set xs"
  shows "\<exists>r s'. bfree a s = Some (r, s') \<and> alloc_inv s' (a # xs)
    \<and> (\<forall>c. c \<noteq> 1 \<and> c \<noteq> a \<longrightarrow> blk s' c = blk s c) \<and> dnum (dsk s') = dnum (dsk s)
    \<and> store.more s' = store.more s"
  using assms by (rule bfree_cons)

lemma block_1986_not_free: "(1986 :: u32) \<notin> set wipe_order"
proof
  assume "(1986 :: u32) \<in> set wipe_order"
  then obtain n where mem: "n \<in> {66..<2048} - {1986 :: nat}" and eq: "(1986 :: u32) = of_nat n"
    unfolding set_wipe_order by blast
  from mem have n: "n < 2048" "n \<noteq> 1986" by simp_all
  have "of_nat n = (of_nat 1986 :: u32)" using eq by simp
  then have "n = 1986" using n(1) by (intro inj_onD [OF of_nat_inj_u32]) auto
  with n(2) show False ..
qed

theorem bfree_spec_witness:
  "\<exists>r s'. bfree 1986 fresh = Some (r, s') \<and> alloc_inv s' (1986 # wipe_order)"
  using bfree_spec [OF fresh_inv(2), of 1986] block_1986_not_free data_addr_of_nat [of 1986] by auto

text \<open>Free then allocate is the identity on the pool: the block given back is the very
  block the next \<open>balloc\<close> returns, and afterwards exactly the same blocks are free.\<close>

lemma bfree_balloc_roundtrip:
  assumes "alloc_inv s xs" and "data_addr a" and "a \<notin> set xs"
  shows "\<exists>r s1 s2. bfree a s = Some (r, s1) \<and> balloc s1 = Some (a, s2) \<and> alloc_inv s2 xs"
  using assms by (rule bp.free_alloc) blast

text \<open>No block is handed out twice: two allocations in a row that both succeed return
  different data blocks, neither of which is still free afterwards.\<close>

lemma balloc_no_double_allocation:
  assumes "alloc_inv s xs" and "balloc s = Some (a, s1)" and "balloc s1 = Some (b, s2)" and "b \<noteq> -1"
  shows "a \<noteq> b \<and> data_addr a \<and> data_addr b \<and> (\<exists>ys. alloc_inv s2 ys \<and> a \<notin> set ys \<and> b \<notin> set ys)"
proof -
  have ab: "a \<noteq> b" "a \<noteq> -1" using bp.alloc_twice_distinct [OF assms] .
  from bp.alloc_free [OF assms(1,2) ab(2)]
  have a: "data_addr a" "a \<notin> set (tl xs)" "alloc_inv s1 (tl xs)" by metis+
  from bp.alloc_free [OF a(3) assms(3,4)]
  have b: "data_addr b" "b \<notin> set (tl (tl xs))" "alloc_inv s2 (tl (tl xs))" by metis+
  moreover have "a \<notin> set (tl (tl xs))" using a(2) by (cases "tl xs") auto
  ultimately show ?thesis using ab a(1) by blast
qed

text \<open>C16. The free list \<open>wipe\<close> builds is well formed and holds every data block exactly
  once, except block 1986: the tables cover blocks 66 to 1985 and the superblock's own table
  starts at 1987, so one block of the disk can never be allocated.\<close>

theorem wipe_super_free_list:
  assumes "wf_store s" and "dnum (dsk s) = 2048"
  shows "\<exists>s'. wipe_super s = Some s' \<and> alloc_inv s' wipe_order \<and> blk s' 1 = fs_bytes (fs s')
    \<and> distinct wipe_order \<and> set wipe_order = of_nat ` ({66..<2048} - {1986})
    \<and> length wipe_order = 1981"
  using wipe_super_inv [OF assms] distinct_wipe_order set_wipe_order length_wipe_order by blast

theorem wipe_super_free_list_witness:
  "wf_store blank \<and> (\<exists>s'. wipe_super blank = Some s' \<and> alloc_inv s' wipe_order) \<and> length wipe_order = 1981"
  using wipe_super_free_list [OF blank_wf] blank_wf by blast

end
