(* ===== verification/Inode.thy ===== *)
theory Inode
  imports Alloc
begin

text \<open>
  Inodes on disk: \<open>readInode\<close>, \<open>writeInode\<close> and \<open>getFreeInode\<close> of
  \<open>src/kernel/kernel.c\<close>. Inode \<open>n\<close> is entry \<open>n mod 8\<close> of block
  \<open>fs_iblkno + n div 8\<close>; \<open>itab\<close> is the table as an array, which the three functions
  read, update at one index, and search.
\<close>

section \<open>The operations\<close>

definition readInode :: "inode_t \<Rightarrow> u32 \<Rightarrow> 'a store_scheme \<Rightarrow> inode_t option" where
  "readInode inp ino s = do {
     let q = c_div (sint ino) 8; let r = c_mod (sint ino) 8;
     ic \<leftarrow> kread s (fs_iblkno (fs s) + word_of_int q);
     (if r < 0 then None
      else Some (inp\<lparr>i_number := ino, i_ic := ic_at ic (nat r)\<rparr>))
   }"

definition writeInode :: "inode_t \<Rightarrow> 'a store_scheme \<Rightarrow> 'a store_scheme option" where
  "writeInode inode s = do {
     let q = i_number inode div 8; let r = i_number inode mod 8;
     ic \<leftarrow> kread s (fs_iblkno (fs s) + q);
     kwrite (fs_iblkno (fs s) + q) (put_ic ic (unat r) (i_ic inode)) s
   }"

text \<open>The search of \<open>getFreeInode\<close>: the first unused entry of the first block that has
  one, as an inode number.\<close>

fun find_free :: "'a store_scheme \<Rightarrow> nat list \<Rightarrow> nat option option" where
  "find_free s [] = Some None"
| "find_free s (i # is) = do {
     ic \<leftarrow> kread s (fs_iblkno (fs s) + of_nat i);
     (case find (\<lambda>j. ic_mode (ic_at ic j) = IFZERO) [0..<8] of
        Some j \<Rightarrow> Some (Some (8 * i + j))
      | None \<Rightarrow> find_free s is)
   }"

definition getFreeInode :: "inode_t \<Rightarrow> 'a store_scheme \<Rightarrow> inode_t option option" where
  "getFreeInode inp s = do {
     r \<leftarrow> find_free s [0..<unat (fs_isize (fs s) div 8)];
     Some (map_option (\<lambda>n. inp\<lparr>i_number := of_nat n,
       i_ic := (i_ic inp)\<lparr>ic_mode := IFREG, ic_size := 0\<rparr>\<rparr>) r)
   }"

text \<open>A local \<open>inode_t\<close> before its first assignment, where every field that is used later
  is assigned first.\<close>

definition inode_local :: inode_t where
  "inode_local = \<lparr>i_number = 0, i_links = 0,
     i_ic = \<lparr>ic_mode = 0, ic_size = 0, ic_db = replicate 11 0, ic_ib = replicate 3 0\<rparr>\<rparr>"

section \<open>The inode table as an array\<close>

definition iblock :: "nat \<Rightarrow> u32" where
  "iblock n = of_nat (2 + n div 8)"

definition itab :: "'a store_scheme \<Rightarrow> nat \<Rightarrow> icommon_t" where
  "itab s n = ic_at (blk s (iblock n)) (n mod 8)"

lemma unat_iblock: "n < 512 \<Longrightarrow> unat (iblock n) = 2 + n div 8"
  unfolding iblock_def by (subst unat_of_nat_u32) auto

lemma iblock_valid: "formatted s \<Longrightarrow> n < 512 \<Longrightarrow> valid s (iblock n)"
  by (auto simp: formatted_valid word_less_nat_alt unat_iblock)

lemma iblock_not_data: "n < 512 \<Longrightarrow> \<not> data_addr (iblock n)"
  by (auto simp: data_addr_def word_le_nat_alt unat_iblock)

lemma iblock_not_sb: "n < 512 \<Longrightarrow> iblock n \<noteq> 1"
  using unat_iblock [of n] by force

lemma iblock_eq: "m < 512 \<Longrightarrow> n < 512 \<Longrightarrow> iblock m = iblock n \<longleftrightarrow> m div 8 = n div 8"
  by (metis add_left_cancel unat_iblock iblock_def)

lemma wf_itab [simp]: "wf_ic (itab s n)"
  by (simp add: itab_def)

text \<open>An inode number as the code computes with it.\<close>

lemma ino_div_mod:
  assumes "unat (ino :: u32) < 512"
  shows "word_of_int (c_div (sint ino) 8) = (of_nat (unat ino div 8) :: u32)"
    and "c_mod (sint ino) 8 = int (unat ino mod 8)"
proof -
  have ge: "0 \<le> sint ino" using sint_range_unat [of 512 ino] assms by simp
  have "sint ino < 2 ^ 31" using sint_lt [of ino] by simp
  with ge have "uint ino = sint ino" by (simp add: uint_sint take_bit_eq_mod)
  then have s: "sint ino = int (unat ino)" by simp
  have "c_div (sint ino) 8 = int (unat ino div 8)"
    unfolding s c_div_def by (simp add: zdiv_int)
  then show "word_of_int (c_div (sint ino) 8) = (of_nat (unat ino div 8) :: u32)"
    by (simp only: of_int_of_nat_eq)
  show "c_mod (sint ino) 8 = int (unat ino mod 8)"
    unfolding s c_mod_def by (simp add: zmod_int)
qed

lemma iblock_word: "(2 :: u32) + of_nat (n div 8) = iblock n"
  by (simp add: iblock_def)

lemma readInode_itab:
  assumes "formatted s" and "unat ino < 512"
  shows "readInode inp ino s = Some (inp\<lparr>i_number := ino, i_ic := itab s (unat ino)\<rparr>)"
  using assms iblock_valid [of s "unat ino"]
  by (simp add: readInode_def ino_div_mod formatted_def iblock_word itab_def)

lemma writeInode_write:
  assumes "formatted s" and "unat (i_number inode) < 512" and "wf_ic (i_ic inode)"
  defines "n \<equiv> unat (i_number inode)"
  shows "writeInode inode s = Some (s\<lparr>dsk := (dsk s)\<lparr>dblk :=
      (blk s)(iblock n := put_ic (blk s (iblock n)) (n mod 8) (i_ic inode))\<rparr>\<rparr>)"
proof -
  have v: "valid s (iblock n)" using assms by (simp add: iblock_valid)
  have "i_number inode div 8 = of_nat (n div 8)" "unat (i_number inode mod 8) = n mod 8"
    unfolding n_def by (simp add: div_of_nat_u32) (simp add: unat_mod)
  then show ?thesis
    using assms v kwrite_full [of s "iblock n"]
    by (simp add: writeInode_def iblock_word formatted_def)
qed

text \<open>Writing an inode updates the table at its index; nothing outside the inode blocks
  changes, so the free list stays as it is.\<close>

definition only_inodes :: "'a store_scheme \<Rightarrow> 'a store_scheme \<Rightarrow> bool" where
  "only_inodes s s' \<longleftrightarrow> fs s' = fs s \<and> dnum (dsk s') = dnum (dsk s) \<and> store.more s' = store.more s
     \<and> (\<forall>a. (\<forall>n<512. a \<noteq> iblock n) \<longrightarrow> blk s' a = blk s a)"

lemma writeInode_itab:
  assumes "formatted s" and n: "unat (i_number inode) < 512" and "wf_ic (i_ic inode)"
  shows "\<exists>s'. writeInode inode s = Some s' \<and> formatted s' \<and> only_inodes s s'
    \<and> (\<forall>m<512. itab s' m = (if m = unat (i_number inode) then i_ic inode else itab s m))"
proof -
  let ?n = "unat (i_number inode)"
  let ?x = "put_ic (blk s (iblock ?n)) (?n mod 8) (i_ic inode)"
  let ?s = "s\<lparr>dsk := (dsk s)\<lparr>dblk := (blk s)(iblock ?n := ?x)\<rparr>\<rparr>"
  have len: "length (blk s (iblock ?n)) = 512" using assms by (simp add: iblock_valid)
  have "formatted ?s" using assms len by (intro formatted_write) simp_all
  moreover have "itab ?s m = (if m = ?n then i_ic inode else itab s m)" if m: "m < 512" for m
  proof (cases "iblock m = iblock ?n")
    case True
    then have "m div 8 = ?n div 8" using iblock_eq m n by simp
    then have "m mod 8 = ?n mod 8 \<longleftrightarrow> m = ?n" by (metis div_mult_mod_eq)
    with True assms len show ?thesis by (simp add: itab_def ic_at_put_ic)
  next
    case False
    then show ?thesis by (auto simp: itab_def)
  qed
  moreover have "only_inodes s ?s" using n by (auto simp: only_inodes_def)
  ultimately show ?thesis using writeInode_write [OF assms] by blast
qed

lemma only_inodes_alloc_inv:
  assumes "alloc_inv s xs" and "only_inodes s s'" and "formatted s'"
  shows "alloc_inv s' xs"
proof -
  have "blk s' a = blk s a" if "a \<in> set xs" for a
  proof -
    have "data_addr a" using assms(1) that by (simp add: alloc_inv_def)
    then have "\<forall>n<512. a \<noteq> iblock n" using iblock_not_data by blast
    with assms(2) show ?thesis by (simp add: only_inodes_def)
  qed
  then show ?thesis
    using assms(2,3) by (intro alloc_inv_frame [OF assms(1)]) (simp_all add: only_inodes_def)
qed

section \<open>Looking for an unused inode\<close>

lemma find_block:
  assumes "formatted s" and "i < 64"
  shows "kread s (fs_iblkno (fs s) + of_nat i) = Some (blk s (iblock (8 * i)))"
    and "j < 8 \<Longrightarrow> ic_at (blk s (iblock (8 * i))) j = itab s (8 * i + j)"
proof -
  have "fs_iblkno (fs s) + of_nat i = iblock (8 * i)" using assms by (simp add: formatted_def iblock_def)
  moreover have "valid s (iblock (8 * i))" using assms by (intro iblock_valid) auto
  ultimately show "kread s (fs_iblkno (fs s) + of_nat i) = Some (blk s (iblock (8 * i)))" by simp
  show "j < 8 \<Longrightarrow> ic_at (blk s (iblock (8 * i))) j = itab s (8 * i + j)"
    by (simp add: itab_def iblock_def)
qed

text \<open>The search visits the table in order and stops at the first unused inode.\<close>

lemma find_free_upt:
  assumes "formatted s" and "k \<le> m" and "m \<le> 64"
  shows "find_free s [k..<m] = Some (find (\<lambda>n. ic_mode (itab s n) = 0) [8 * k..<8 * m])"
  using assms(2,3)
proof (induction "m - k" arbitrary: k)
  case (Suc d)
  then have k: "k < m" "k < 64" by auto
  let ?Q = "\<lambda>n. ic_mode (itab s n) = 0"
  have "map (\<lambda>j. 8 * k + j) [0..<8] = [8 * k..<8 * Suc k]"
    by (rule nth_equalityI) auto
  then have split: "[8 * k..<8 * m] = map (\<lambda>j. 8 * k + j) [0..<8] @ [8 * Suc k..<8 * m]"
    using k upt_split [of "8 * k" "8 * Suc k" "8 * m"] by simp
  have f: "find (\<lambda>j. ic_mode (ic_at (blk s (iblock (8 * k))) j) = 0) [0..<8] = find (\<lambda>j. ?Q (8 * k + j)) [0..<8]"
    using find_block(2) [OF assms(1) k(2)] by (intro find_cong) auto
  have IH: "find_free s [Suc k..<m] = Some (find ?Q [8 * Suc k..<8 * m])"
    using Suc k by (intro Suc.hyps) auto
  have fm: "find ?Q (map (\<lambda>j. 8 * k + j) [0..<8] @ ys) =
      (case find (\<lambda>j. ?Q (8 * k + j)) [0..<8] of Some j \<Rightarrow> Some (8 * k + j) | None \<Rightarrow> find ?Q ys)" for ys
    by (simp add: find_append find_map o_def del: upt_rec_numeral split: option.split)
  show ?case
    unfolding split fm using k find_block(1) [OF assms(1) k(2)] IH
    by (simp add: upt_conv_Cons [OF k(1)] f del: upt_rec_numeral split: option.split)
qed simp

lemma getFreeInode_find:
  assumes "formatted s"
  shows "getFreeInode inp s = Some (map_option (\<lambda>n. inp\<lparr>i_number := of_nat n,
      i_ic := (i_ic inp)\<lparr>ic_mode := IFREG, ic_size := 0\<rparr>\<rparr>) (find (\<lambda>n. ic_mode (itab s n) = 0) [0..<512]))"
proof -
  have "unat (fs_isize (fs s) div 8) = 64" using assms by (simp add: formatted_def)
  then show ?thesis using find_free_upt [OF assms, of 0 64] by (simp add: getFreeInode_def del: upt_rec_numeral)
qed

section \<open>The inode table's contract\<close>

text \<open>An array of inodes behind a read and a write operation.\<close>

locale inode_array =
  fixes get :: "'s \<Rightarrow> nat \<Rightarrow> icommon_t"
    and put :: "inode_t \<Rightarrow> 's \<Rightarrow> 's option"
    and inv :: "'s \<Rightarrow> bool"
    and keeps :: "'s \<Rightarrow> 's \<Rightarrow> bool"
  assumes put_get: "inv s \<Longrightarrow> unat (i_number i) < 512 \<Longrightarrow> wf_ic (i_ic i) \<Longrightarrow>
      \<exists>s'. put i s = Some s' \<and> inv s' \<and> keeps s s'
        \<and> (\<forall>m<512. get s' m = (if m = unat (i_number i) then i_ic i else get s m))"
    and keeps_trans: "keeps s s' \<Longrightarrow> keeps s' s'' \<Longrightarrow> keeps s s''"
begin

text \<open>Two writes: the last one to an index wins, writes to different indices both stand.\<close>

lemma put_put:
  assumes "inv s" and "unat (i_number i) < 512" and "wf_ic (i_ic i)"
    and "unat (i_number j) < 512" and "wf_ic (i_ic j)"
  obtains s1 s2 where "put i s = Some s1" and "put j s1 = Some s2" and "inv s2" and "keeps s s2"
    and "\<forall>m<512. get s2 m = (if m = unat (i_number j) then i_ic j
           else if m = unat (i_number i) then i_ic i else get s m)"
proof -
  from put_get [OF assms(1-3)] obtain s1 where s1: "put i s = Some s1" "inv s1" "keeps s s1"
    "\<forall>m<512. get s1 m = (if m = unat (i_number i) then i_ic i else get s m)" by blast
  from put_get [OF s1(2) assms(4,5)] obtain s2 where s2: "put j s1 = Some s2" "inv s2" "keeps s1 s2"
    "\<forall>m<512. get s2 m = (if m = unat (i_number j) then i_ic j else get s1 m)" by blast
  from s1 s2 that keeps_trans show ?thesis by simp
qed

end

interpretation it: inode_array itab writeInode formatted only_inodes
proof
  fix s s' s'' :: "'a store_scheme"
  assume "only_inodes s s'" and "only_inodes s' s''"
  then show "only_inodes s s''" by (simp add: only_inodes_def)
qed (rule writeInode_itab)

section \<open>Properties\<close>

lemma formatted_fresh [simp]: "formatted fresh"
  using fresh_inv(2) by (simp add: alloc_inv_def)

text \<open>C15. An inode written with \<open>writeInode\<close> is what \<open>readInode\<close> returns afterwards;
  every other inode, every block outside the inode area and the list of free blocks are
  unchanged.\<close>

theorem inode_roundtrip:
  assumes "alloc_inv s xs" and "unat (i_number inode) < 512" and "wf_ic (i_ic inode)"
  shows "\<exists>s'. writeInode inode s = Some s' \<and> alloc_inv s' xs \<and> only_inodes s s'
    \<and> readInode inode (i_number inode) s' = Some inode
    \<and> (\<forall>ino buf. unat ino < 512 \<and> ino \<noteq> i_number inode \<longrightarrow> readInode buf ino s' = readInode buf ino s)"
proof -
  have f: "formatted s" using assms(1) by (simp add: alloc_inv_def)
  from writeInode_itab [OF f assms(2,3)] obtain s' where s': "writeInode inode s = Some s'" "formatted s'"
    "only_inodes s s'"
    and tab: "\<And>m. m < 512 \<Longrightarrow> itab s' m = (if m = unat (i_number inode) then i_ic inode else itab s m)"
    by blast
  have "readInode inode (i_number inode) s' = Some inode"
    using s'(2) assms(2) by (simp add: readInode_itab tab)
  moreover have "readInode buf ino s' = readInode buf ino s" if "unat ino < 512" "ino \<noteq> i_number inode" for ino buf
    using that s'(2) f by (simp add: readInode_itab tab word_unat_eq_iff)
  ultimately show ?thesis using s' only_inodes_alloc_inv [OF assms(1)] by blast
qed

theorem inode_roundtrip_witness:
  "\<exists>s'. writeInode (inode_local\<lparr>i_number := 5\<rparr>) fresh = Some s' \<and> alloc_inv s' wipe_order
     \<and> readInode (inode_local\<lparr>i_number := 5\<rparr>) 5 s' = Some (inode_local\<lparr>i_number := 5\<rparr>)"
  using inode_roundtrip [OF fresh_inv(2), of "inode_local\<lparr>i_number := 5\<rparr>"]
  by (auto simp: inode_local_def wf_ic_def)

text \<open>\<open>getFreeInode\<close> returns the lowest-numbered unused inode, set up as an empty
  regular file with its block pointers left as they were, and \<open>NULL\<close> exactly when all 512
  inodes are in use.\<close>

lemma getFreeInode_spec:
  assumes "formatted s"
  shows "case getFreeInode inp s of
      None \<Rightarrow> False
    | Some None \<Rightarrow> \<forall>n<512. ic_mode (itab s n) \<noteq> IFZERO
    | Some (Some i) \<Rightarrow> unat (i_number i) < 512 \<and> ic_mode (itab s (unat (i_number i))) = IFZERO
        \<and> (\<forall>n<unat (i_number i). ic_mode (itab s n) \<noteq> IFZERO)
        \<and> i_ic i = (i_ic inp)\<lparr>ic_mode := IFREG, ic_size := 0\<rparr>"
proof (cases "find (\<lambda>n. ic_mode (itab s n) = IFZERO) [0..<512]")
  case None
  then have "\<forall>n<512. ic_mode (itab s n) \<noteq> IFZERO"
    by (auto simp: find_None_iff simp del: upt_rec_numeral)
  with None show ?thesis using assms by (simp add: getFreeInode_find del: upt_rec_numeral)
next
  case (Some n)
  then have n: "n < 512" "ic_mode (itab s n) = IFZERO" "\<And>m. m < n \<Longrightarrow> ic_mode (itab s m) \<noteq> IFZERO"
    by (auto simp: find_Some_iff simp del: upt_rec_numeral)
  then have "unat (of_nat n :: u32) = n" by (intro unat_of_nat_u32) auto
  with n Some show ?thesis using assms by (simp add: getFreeInode_find del: upt_rec_numeral)
qed

end
