(* ===== verification/Blocks.thy ===== *)
theory Blocks
  imports Inode
begin

text \<open>
  The data blocks of a file: \<open>getDataBlockAddr\<close>, \<open>allocateDataBlockAddr\<close>,
  \<open>allocateDataBlocks\<close>, \<open>freeDataBlocks\<close> and \<open>getDataBlock\<close> of
  \<open>src/kernel/kernel.c\<close>. Blocks 0 to 10 of a file are named in its inode, the next 128 in
  the block \<open>ic_ib[0]\<close> names, and further blocks two and three levels below \<open>ic_ib[1]\<close> and
  \<open>ic_ib[2]\<close>. The inode is the caller's copy: an operation that assigns to it returns it.
\<close>

section \<open>Finding a block\<close>

abbreviation (input) LS :: nat where "LS \<equiv> 128"

definition getDataBlockAddr :: "inode_t \<Rightarrow> u32 \<Rightarrow> 'a store_scheme \<Rightarrow> u32 option" where
  "getDataBlockAddr inode byt s =
     (let blk = unat byt div BLOCK_SIZE
      in if blk < NDADDR then arr (ic_db (i_ic inode)) blk
      else if blk < LS + NDADDR then do {
        let blk = blk - NDADDR;
        ib \<leftarrow> arr (ic_ib (i_ic inode)) 0;
        block \<leftarrow> kread s ib;
        Some (word_at block blk)
      }
      else if blk < LS * LS + LS + NDADDR then do {
        let blk = blk - (LS + NDADDR);
        ib \<leftarrow> arr (ic_ib (i_ic inode)) 1;
        block \<leftarrow> kread s ib;
        block \<leftarrow> kread_into s (word_at block (blk div LS)) block;
        Some (word_at block (blk mod LS))
      }
      else if blk < LS * LS * LS + LS * LS + LS + NDADDR then do {
        let blk = blk - (LS * LS + LS + NDADDR);
        ib \<leftarrow> arr (ic_ib (i_ic inode)) 2;
        block \<leftarrow> kread s ib;
        block \<leftarrow> kread_into s (word_at block (blk div (LS * LS))) block;
        block \<leftarrow> kread_into s (word_at block ((blk mod (LS * LS)) div LS)) block;
        Some (word_at block (blk mod LS))
      }
      else Some (-1))"

text \<open>The caller's buffer is \<open>None\<close> before its first use.\<close>

definition getDataBlock :: "byte list option \<Rightarrow> inode_t \<Rightarrow> u32 \<Rightarrow> 'a store_scheme \<Rightarrow> (u32 \<times> byte list) option" where
  "getDataBlock buf inode byt s = do {
     addr \<leftarrow> getDataBlockAddr inode byt s;
     block \<leftarrow> (case buf of None \<Rightarrow> kread s addr | Some b \<Rightarrow> kread_into s addr b);
     Some (addr, block)
   }"

section \<open>Allocating a block\<close>

text \<open>The index block \<open>ic_ib[ k ]\<close>: allocated when the first entry below it is needed,
  otherwise the one the inode names. \<open>None\<close> in the first component is the C code's
  \<open>return -1\<close>.\<close>

definition index_block :: "nat \<Rightarrow> bool \<Rightarrow> inode_t \<Rightarrow> 'a store_scheme \<Rightarrow> (u32 option \<times> inode_t \<times> 'a store_scheme) option"
where
  "index_block k first inode s =
     (if first then do {
        (taddr, s) \<leftarrow> balloc s;
        (if taddr = -1 then Some (None, inode, s)
         else do {
           ib \<leftarrow> arr_upd (ic_ib (i_ic inode)) k taddr;
           let inode = inode\<lparr>i_ic := (i_ic inode)\<lparr>ic_ib := ib\<rparr>\<rparr>;
           s \<leftarrow> writeInode inode s;
           Some (Some taddr, inode, s)
         })
      }
      else do {
        taddr \<leftarrow> arr (ic_ib (i_ic inode)) k;
        Some (Some taddr, inode, s)
      })"

text \<open>One level down: entry \<open>e\<close> of the table in \<open>block\<close> names the next table, or a new
  one is allocated; as in the source, the new entry is written to the new table's own block
  and not back to the table it belongs to.\<close>

definition next_table :: "nat \<Rightarrow> bool \<Rightarrow> byte list \<Rightarrow> 'a store_scheme \<Rightarrow> (u32 option \<times> byte list \<times> 'a store_scheme) option"
where
  "next_table e first block s =
     (if first then do {
        (taddr, s) \<leftarrow> balloc s;
        (if taddr = -1 then Some (None, block, s)
         else do {
           let block = put_word block e taddr;
           s \<leftarrow> kwrite taddr block s;
           Some (Some taddr, block, s)
         })
      }
      else Some (Some (word_at block e), block, s))"

text \<open>The leaf: entry \<open>e\<close> of the table at \<open>taddr\<close> is set.\<close>

definition set_leaf :: "u32 \<Rightarrow> nat \<Rightarrow> byte list \<Rightarrow> u32 \<Rightarrow> 'a store_scheme \<Rightarrow> 'a store_scheme option" where
  "set_leaf taddr e block addr s = kwrite taddr (put_word block e addr) s"

definition allocateDataBlockAddr :: "inode_t \<Rightarrow> u32 \<Rightarrow> 'a store_scheme \<Rightarrow> (u32 \<times> inode_t \<times> 'a store_scheme) option"
where
  "allocateDataBlockAddr inode byt s = do {
     let blk = unat byt div BLOCK_SIZE;
     (addr, s) \<leftarrow> balloc s;
     (if addr = -1 then Some (-1, inode, s)
      else if blk < NDADDR then do {
        db \<leftarrow> arr_upd (ic_db (i_ic inode)) blk addr;
        let inode = inode\<lparr>i_ic := (i_ic inode)\<lparr>ic_db := db\<rparr>\<rparr>;
        s \<leftarrow> writeInode inode s;
        Some (addr, inode, s)
      }
      else if blk < LS + NDADDR then do {
        let blk = blk - NDADDR;
        (t, inode, s) \<leftarrow> index_block 0 (blk = 0) inode s;
        (case t of None \<Rightarrow> Some (-1, inode, s)
         | Some taddr \<Rightarrow> do {
             block \<leftarrow> kread s taddr;
             s \<leftarrow> set_leaf taddr blk block addr s;
             Some (addr, inode, s)
           })
      }
      else if blk < LS * LS + LS + NDADDR then do {
        let blk = blk - (LS + NDADDR);
        (t, inode, s) \<leftarrow> index_block 1 (blk = 0) inode s;
        (case t of None \<Rightarrow> Some (-1, inode, s)
         | Some taddr \<Rightarrow> do {
             block \<leftarrow> kread s taddr;
             (t, block, s) \<leftarrow> next_table (blk div LS) (blk mod LS = 0) block s;
             (case t of None \<Rightarrow> Some (-1, inode, s)
              | Some taddr \<Rightarrow> do {
                  block \<leftarrow> kread_into s taddr block;
                  s \<leftarrow> set_leaf taddr (blk mod LS) block addr s;
                  Some (addr, inode, s)
                })
           })
      }
      else if blk < LS * LS * LS + LS * LS + LS + NDADDR then do {
        let blk = blk - (LS * LS + LS + NDADDR);
        (t, inode, s) \<leftarrow> index_block 2 (blk = 0) inode s;
        (case t of None \<Rightarrow> Some (-1, inode, s)
         | Some taddr \<Rightarrow> do {
             block \<leftarrow> kread s taddr;
             (t, block, s) \<leftarrow> next_table (blk div (LS * LS)) (blk mod (LS * LS) = 0) block s;
             (case t of None \<Rightarrow> Some (-1, inode, s)
              | Some taddr \<Rightarrow> do {
                  block \<leftarrow> kread_into s taddr block;
                  let blk = blk mod (LS * LS);
                  (t, block, s) \<leftarrow> next_table (blk div LS) (blk mod LS = 0) block s;
                  (case t of None \<Rightarrow> Some (-1, inode, s)
                   | Some taddr \<Rightarrow> do {
                       block \<leftarrow> kread_into s taddr block;
                       s \<leftarrow> set_leaf taddr (blk mod LS) block addr s;
                       Some (addr, inode, s)
                     })
                })
           })
      }
      else Some (addr, inode, s))
   }"

text \<open>The loop of \<open>allocateDataBlocks\<close> over block numbers; \<open>True\<close> when every
  allocation succeeded.\<close>

fun allocate_loop :: "nat list \<Rightarrow> inode_t \<Rightarrow> 'a store_scheme \<Rightarrow> (bool \<times> inode_t \<times> 'a store_scheme) option" where
  "allocate_loop [] inode s = Some (True, inode, s)"
| "allocate_loop (i # is) inode s = do {
     (a, inode, s) \<leftarrow> allocateDataBlockAddr inode (of_nat (i * BLOCK_SIZE)) s;
     (if a = -1 then Some (False, inode, s) else allocate_loop is inode s)
   }"

definition allocateDataBlocks :: "inode_t \<Rightarrow> u32 \<Rightarrow> 'a store_scheme \<Rightarrow> (u32 \<times> inode_t \<times> 'a store_scheme) option"
where
  "allocateDataBlocks inode bytes s = do {
     let b = unat (ic_size (i_ic inode)) div BLOCK_SIZE;
     let n = unat (ic_size (i_ic inode) + bytes) div BLOCK_SIZE;
     (ok, inode, s) \<leftarrow> allocate_loop [b + 1..<n + 1] inode s;
     (if ok then do {
        let sz = ic_size (i_ic inode) + bytes;
        Some (sz, inode\<lparr>i_ic := (i_ic inode)\<lparr>ic_size := sz\<rparr>\<rparr>, s)
      }
      else Some (-1, inode, s))
   }"

section \<open>Freeing the blocks of a file\<close>

definition free_block_at :: "inode_t \<Rightarrow> nat \<Rightarrow> 'a store_scheme \<Rightarrow> 'a store_scheme option" where
  "free_block_at inode b s = do {
     a \<leftarrow> getDataBlockAddr inode (of_nat (b * BLOCK_SIZE)) s;
     (_, s) \<leftarrow> bfree a s;
     (if b < NDADDR then Some s
      else if b < LS + NDADDR then do {
        ib \<leftarrow> arr (ic_ib (i_ic inode)) 0;
        (if b - NDADDR = 0 then map_option snd (bfree ib s) else Some s)
      }
      else if b < LS * LS + LS + NDADDR then do {
        let blk = b - (LS + NDADDR);
        ib \<leftarrow> arr (ic_ib (i_ic inode)) 1;
        block \<leftarrow> kread s ib;
        s \<leftarrow> (if blk mod LS = 0 then map_option snd (bfree (word_at block (blk div LS)) s) else Some s);
        (if blk = 0 then map_option snd (bfree ib s) else Some s)
      }
      else if b < LS * LS * LS + LS * LS + LS + NDADDR then do {
        let blk = b - (LS * LS + LS + NDADDR);
        ib \<leftarrow> arr (ic_ib (i_ic inode)) 2;
        block \<leftarrow> kread s ib;
        block \<leftarrow> kread_into s (word_at block (blk div (LS * LS))) block;
        s \<leftarrow> (if (blk mod (LS * LS)) mod LS = 0
              then map_option snd (bfree (word_at block ((blk mod (LS * LS)) div LS)) s) else Some s);
        block \<leftarrow> kread_into s ib block;
        s \<leftarrow> (if blk mod (LS * LS) = 0
              then map_option snd (bfree (word_at block (blk div (LS * LS))) s) else Some s);
        (if blk = 0 then map_option snd (bfree ib s) else Some s)
      }
      else Some s)
   }"

text \<open>The loop variable of \<open>freeDataBlocks\<close> takes the values 0, 512, 1024, ... below the
  file's size (a signed counter, so this is its behaviour for sizes below 2^31).\<close>

definition freeDataBlocks :: "inode_t \<Rightarrow> 'a store_scheme \<Rightarrow> 'a store_scheme option" where
  "freeDataBlocks inode s =
     for_each [0..<(unat (ic_size (i_ic inode)) + (BLOCK_SIZE - 1)) div BLOCK_SIZE] (free_block_at inode) s"

section \<open>The blocks of a file\<close>

text \<open>\<open>fblk s ic i\<close> is the address of block \<open>i\<close> of a file in its first 139 blocks, those
  named in the inode and in the first index block. \<open>file_blocks\<close> are all blocks a file of
  \<open>n\<close> blocks holds, the index block included; \<open>file_inv\<close> says that they are data blocks,
  all different, and none of them free.\<close>

definition fblk :: "'a store_scheme \<Rightarrow> icommon_t \<Rightarrow> nat \<Rightarrow> u32" where
  "fblk s ic i = (if i < NDADDR then ic_db ic ! i else word_at (blk s (ic_ib ic ! 0)) (i - NDADDR))"

definition file_blocks :: "'a store_scheme \<Rightarrow> icommon_t \<Rightarrow> nat \<Rightarrow> u32 list" where
  "file_blocks s ic n = map (fblk s ic) [0..<n] @ (if NDADDR < n then [ic_ib ic ! 0] else [])"

definition file_inv :: "'a store_scheme \<Rightarrow> icommon_t \<Rightarrow> nat \<Rightarrow> u32 list \<Rightarrow> bool" where
  "file_inv s ic n xs \<longleftrightarrow> wf_ic ic \<and> n \<le> LS + NDADDR \<and> distinct (file_blocks s ic n @ xs)
     \<and> (\<forall>a \<in> set (file_blocks s ic n). data_addr a)"

lemma set_file_blocks:
  "set (file_blocks s ic n) = fblk s ic ` {0..<n} \<union> (if NDADDR < n then {ic_ib ic ! 0} else {})"
  by (auto simp: file_blocks_def)

lemma file_inv_fblk:
  assumes "file_inv s ic n xs" and "i < n"
  shows "data_addr (fblk s ic i)" and "fblk s ic i \<notin> set xs"
    and "j < n \<Longrightarrow> fblk s ic i = fblk s ic j \<longleftrightarrow> i = j"
    and "11 < n \<Longrightarrow> fblk s ic i \<noteq> ic_ib ic ! 0"
proof -
  have d: "distinct (file_blocks s ic n @ xs)" using assms(1) by (simp add: file_inv_def)
  then have "fblk s ic ` {0..<n} \<inter> set xs = {}" "inj_on (fblk s ic) {0..<n}"
    by (auto simp: file_blocks_def distinct_map)
  moreover have i: "fblk s ic i \<in> fblk s ic ` {0..<n}" using assms(2) by simp
  ultimately show "fblk s ic i \<notin> set xs" and "j < n \<Longrightarrow> fblk s ic i = fblk s ic j \<longleftrightarrow> i = j"
    using assms(2) by (blast, simp add: inj_on_eq_iff)
  show "data_addr (fblk s ic i)" using assms(1) i by (auto simp: file_inv_def set_file_blocks)
  show "11 < n \<Longrightarrow> fblk s ic i \<noteq> ic_ib ic ! 0" using d i by (auto simp: file_blocks_def)
qed

lemma file_inv_index:
  assumes "file_inv s ic n xs" and "11 < n"
  shows "data_addr (ic_ib ic ! 0)" and "ic_ib ic ! 0 \<notin> set xs"
  using assms by (auto simp: file_inv_def file_blocks_def)

lemma getDataBlockAddr_fblk:
  assumes "formatted s" and "file_inv s (i_ic inode) n xs" and "unat byt div 512 < n"
  shows "getDataBlockAddr inode byt s = Some (fblk s (i_ic inode) (unat byt div 512))"
proof (cases "unat byt div 512 < 11")
  case True
  then show ?thesis using assms(2) by (simp add: getDataBlockAddr_def fblk_def file_inv_def wf_ic_def Let_def)
next
  case False
  then have n: "11 < n" "unat byt div 512 < 128 + 11" using assms(2,3) by (auto simp: file_inv_def)
  then have "data_addr (ic_ib (i_ic inode) ! 0)" using assms(2) by (simp add: file_inv_def set_file_blocks)
  then have "valid s (ic_ib (i_ic inode) ! 0)" using data_addr_valid [OF assms(1)] by blast
  then show ?thesis
    using False n assms(2) by (simp add: getDataBlockAddr_def fblk_def file_inv_def wf_ic_def Let_def)
qed

text \<open>The blocks of a file depend on the inode's pointers and the contents of the index
  block only.\<close>

lemma fblk_cong:
  assumes "ic_db ic' = ic_db ic" and "11 \<le> i \<Longrightarrow> ic_ib ic' ! 0 = ic_ib ic ! 0"
    and "11 \<le> i \<Longrightarrow> blk s' (ic_ib ic ! 0) = blk s (ic_ib ic ! 0)"
  shows "fblk s' ic' i = fblk s ic i"
  using assms by (simp add: fblk_def)

lemma file_blocks_cong:
  assumes "ic_db ic' = ic_db ic" and "11 < n \<Longrightarrow> ic_ib ic' ! 0 = ic_ib ic ! 0"
    and "11 < n \<Longrightarrow> blk s' (ic_ib ic ! 0) = blk s (ic_ib ic ! 0)"
  shows "file_blocks s' ic' n = file_blocks s ic n"
  using assms by (auto simp: file_blocks_def intro!: fblk_cong)

text \<open>A file is unaffected by changes that leave its index block alone, in particular by
  writes to its data blocks.\<close>

lemma file_inv_same:
  assumes "file_inv s ic n xs" and "11 < n \<Longrightarrow> blk s' (ic_ib ic ! 0) = blk s (ic_ib ic ! 0)"
  shows "file_inv s' ic n xs" and "i < n \<Longrightarrow> fblk s' ic i = fblk s ic i"
    and "file_blocks s' ic n = file_blocks s ic n"
proof -
  show fb: "file_blocks s' ic n = file_blocks s ic n" using assms(2) by (intro file_blocks_cong) simp_all
  with assms(1) show "file_inv s' ic n xs" by (simp add: file_inv_def)
  show "i < n \<Longrightarrow> fblk s' ic i = fblk s ic i" using assms(2) by (intro fblk_cong) auto
qed

lemma file_inv_write:
  fixes x :: "byte list"
  assumes "file_inv s ic n xs" and "i < n"
  defines "s' \<equiv> s\<lparr>dsk := (dsk s)\<lparr>dblk := (blk s)(fblk s ic i := x)\<rparr>\<rparr>"
  shows "file_inv s' ic n xs" and "k < n \<Longrightarrow> fblk s' ic k = fblk s ic k"
    and "file_blocks s' ic n = file_blocks s ic n"
proof -
  have "11 < n \<Longrightarrow> blk s' (ic_ib ic ! 0) = blk s (ic_ib ic ! 0)"
    using file_inv_fblk(4) [OF assms(1,2)] by (simp add: s'_def)
  note same = file_inv_same [OF assms(1) this]
  show "file_inv s' ic n xs" and "k < n \<Longrightarrow> fblk s' ic k = fblk s ic k"
    and "file_blocks s' ic n = file_blocks s ic n"
    by (rule same; assumption)+
qed

section \<open>Growing a file\<close>

text \<open>Between two states only metadata changed: the superblock and inode \<open>ino\<close>.\<close>

definition meta_only :: "nat \<Rightarrow> 'a store_scheme \<Rightarrow> 'a store_scheme \<Rightarrow> bool" where
  "meta_only ino s s' \<longleftrightarrow> (\<forall>a. data_addr a \<longrightarrow> blk s' a = blk s a) \<and> store.more s' = store.more s
     \<and> (\<forall>m<512. m \<noteq> ino \<longrightarrow> itab s' m = itab s m)"

lemma meta_only_refl [simp]: "meta_only ino s s"
  by (simp add: meta_only_def)

lemma meta_only_trans: "meta_only ino s s' \<Longrightarrow> meta_only ino s' s'' \<Longrightarrow> meta_only ino s s''"
  by (simp add: meta_only_def)

lemma balloc_meta:
  assumes "same_data s s'"
  shows "meta_only ino s s'" and "n < 512 \<Longrightarrow> itab s' n = itab s n"
  using assms data_addr_not_sb iblock_not_sb by (auto simp: meta_only_def same_data_def itab_def)

lemma writeInode_meta:
  assumes "alloc_inv s xs" and "unat (i_number inode) < 512" and "wf_ic (i_ic inode)"
  shows "\<exists>s'. writeInode inode s = Some s' \<and> alloc_inv s' xs \<and> meta_only (unat (i_number inode)) s s'
    \<and> itab s' (unat (i_number inode)) = i_ic inode"
proof -
  have "formatted s" using assms(1) by (simp add: alloc_inv_def)
  from writeInode_itab [OF this assms(2,3)] obtain s' where s': "writeInode inode s = Some s'"
    "formatted s'" "only_inodes s s'"
    "\<forall>m<512. itab s' m = (if m = unat (i_number inode) then i_ic inode else itab s m)" by blast
  have "blk s' a = blk s a" if "data_addr a" for a
  proof -
    have "\<forall>n<512. a \<noteq> iblock n" using that iblock_not_data by blast
    with s'(3) show ?thesis by (simp add: only_inodes_def)
  qed
  then have "meta_only (unat (i_number inode)) s s'"
    using s'(3,4) by (auto simp: meta_only_def only_inodes_def)
  with s' assms(2) only_inodes_alloc_inv [OF assms(1)] show ?thesis by auto
qed

text \<open>A write to a data block that is not free.\<close>

lemma data_write:
  assumes "alloc_inv s xs" and "data_addr a" and "a \<notin> set xs" and "length x = 512"
  defines "s' \<equiv> s\<lparr>dsk := (dsk s)\<lparr>dblk := (blk s)(a := x)\<rparr>\<rparr>"
  shows "kwrite a x s = Some s'" and "alloc_inv s' xs"
    and "\<And>m. m < 512 \<Longrightarrow> itab s' m = itab s m"
proof -
  have f: "formatted s" using assms(1) by (simp add: alloc_inv_def)
  show "kwrite a x s = Some s'"
    unfolding s'_def using f assms(2,4) by (intro kwrite_full) (simp_all add: data_addr_valid)
  have f': "formatted s'" unfolding s'_def using f assms(4) by (intro formatted_write) simp_all
  have "blk s' c = blk s c" if "c \<in> set xs" for c using that assms(3) by (auto simp: s'_def)
  then show "alloc_inv s' xs" by (intro alloc_inv_frame [OF assms(1) f']) (simp_all add: s'_def)
  show "itab s' m = itab s m" if "m < 512" for m
    using that assms(2) iblock_not_data by (auto simp: s'_def itab_def)
qed

lemma index_block_spec:
  assumes ai: "alloc_inv s ys" and num: "unat (i_number inode) < 512" and wf: "wf_ic (i_ic inode)"
    and ys: "first \<Longrightarrow> ys \<noteq> []"
  defines "t \<equiv> if first then hd ys else ic_ib (i_ic inode) ! 0"
  shows "\<exists>s'. index_block 0 first inode s =
      Some (Some t, inode\<lparr>i_ic := (i_ic inode)\<lparr>ic_ib := (ic_ib (i_ic inode))[0 := t]\<rparr>\<rparr>, s')
    \<and> alloc_inv s' (if first then tl ys else ys) \<and> meta_only (unat (i_number inode)) s s'"
proof (cases first)
  case True
  then obtain zs where zs: "ys = t # zs" using ys by (cases ys) (auto simp: t_def)
  with ai balloc_Cons obtain s1 where s1: "balloc s = Some (t, s1)" "alloc_inv s1 zs" "same_data s s1"
    by blast
  have t: "t \<noteq> -1" using bp.pool_owned [OF ai, of t] bp.owned_not_error zs by auto
  let ?inode = "inode\<lparr>i_ic := (i_ic inode)\<lparr>ic_ib := (ic_ib (i_ic inode))[0 := t]\<rparr>\<rparr>"
  have "wf_ic (i_ic ?inode)" using wf by (simp add: wf_ic_def)
  with writeInode_meta [OF s1(2), of ?inode] num obtain s2 where
    "writeInode ?inode s1 = Some s2" "alloc_inv s2 zs" "meta_only (unat (i_number inode)) s1 s2" by auto
  with s1 t True wf zs balloc_meta(1) [OF s1(3), of "unat (i_number inode)"] show ?thesis
    by (auto simp: index_block_def wf_ic_def intro: meta_only_trans)
next
  case False
  then show ?thesis using ai wf by (simp add: index_block_def t_def wf_ic_def)
qed

text \<open>One allocation: block \<open>n\<close> of a file that has blocks \<open>0 .. n - 1\<close>. Block 11
  also takes a block for the index table.\<close>

definition grow_need :: "nat \<Rightarrow> nat" where
  "grow_need n = (if n = NDADDR then 2 else 1)"

text \<open>What a file that grows from \<open>n\<close> to \<open>k\<close> blocks with the free blocks \<open>xs\<close> leaves
  alone: the block addresses it already had, every data block in use, the other inodes.\<close>

definition grown :: "u32 list \<Rightarrow> nat \<Rightarrow> nat \<Rightarrow> inode_t \<Rightarrow> 'a store_scheme \<Rightarrow> inode_t \<Rightarrow> 'a store_scheme \<Rightarrow> bool" where
  "grown xs n k inode s inode' s' \<longleftrightarrow> i_number inode' = i_number inode \<and> i_links inode' = i_links inode
     \<and> ic_mode (i_ic inode') = ic_mode (i_ic inode) \<and> ic_size (i_ic inode') = ic_size (i_ic inode)
     \<and> store.more s' = store.more s
     \<and> (NDADDR < n \<longrightarrow> ic_ib (i_ic inode') ! 0 = ic_ib (i_ic inode) ! 0)
     \<and> (n \<le> NDADDR \<and> NDADDR < k \<longrightarrow> ic_ib (i_ic inode') ! 0 \<in> set xs)
     \<and> (\<forall>i<n. fblk s' (i_ic inode') i = fblk s (i_ic inode) i)
     \<and> (\<forall>i. n \<le> i \<and> i < k \<longrightarrow> fblk s' (i_ic inode') i \<in> set xs)
     \<and> (\<forall>a. data_addr a \<and> a \<notin> set xs \<and> (n \<le> NDADDR \<or> a \<noteq> ic_ib (i_ic inode) ! 0) \<longrightarrow> blk s' a = blk s a)
     \<and> (\<forall>m<512. m \<noteq> unat (i_number inode) \<longrightarrow> itab s' m = itab s m)"

lemma allocate_direct:
  assumes ai: "alloc_inv s (x # xs)" and fi: "file_inv s (i_ic inode) n (x # xs)"
    and num: "unat (i_number inode) < 512" and n: "n < 11" and byt: "unat byt div 512 = n"
  shows "\<exists>inode' s'. allocateDataBlockAddr inode byt s = Some (x, inode', s')
    \<and> alloc_inv s' xs \<and> file_inv s' (i_ic inode') (Suc n) xs \<and> fblk s' (i_ic inode') n = x
    \<and> grown (x # xs) n (Suc n) inode s inode' s'"
proof -
  let ?inode = "inode\<lparr>i_ic := (i_ic inode)\<lparr>ic_db := (ic_db (i_ic inode))[n := x]\<rparr>\<rparr>"
  from fi have wf: "wf_ic (i_ic inode)" by (simp add: file_inv_def)
  have x: "x \<noteq> -1" "data_addr x" using bp.pool_owned [OF ai, of x] bp.owned_not_error by auto
  from balloc_Cons [OF ai] obtain s1 where s1: "balloc s = Some (x, s1)" "alloc_inv s1 xs" "same_data s s1"
    by blast
  from writeInode_meta [OF s1(2), of ?inode] num wf obtain s2 where s2: "writeInode ?inode s1 = Some s2"
    "alloc_inv s2 xs" "meta_only (unat (i_number inode)) s1 s2" by (auto simp: wf_ic_def)
  have m: "meta_only (unat (i_number inode)) s s2"
    using s2(3) balloc_meta(1) [OF s1(3)] meta_only_trans by blast
  have run: "allocateDataBlockAddr inode byt s = Some (x, ?inode, s2)"
    using s1 s2 x wf n byt by (simp add: allocateDataBlockAddr_def wf_ic_def)
  have old: "fblk s2 (i_ic ?inode) i = fblk s (i_ic inode) i" if "i < n" for i
    using that n by (simp add: fblk_def)
  have new: "fblk s2 (i_ic ?inode) n = x" using n wf by (simp add: fblk_def wf_ic_def)
  have fb: "file_blocks s2 (i_ic ?inode) (Suc n) = file_blocks s (i_ic inode) n @ [x]"
    using n old new by (simp add: file_blocks_def)
  have "file_inv s2 (i_ic ?inode) (Suc n) xs"
    using fi fb n x wf by (auto simp: file_inv_def wf_ic_def)
  then show ?thesis
    using run s2(2) new old m n by (auto simp: grown_def meta_only_def less_Suc_eq)
qed

lemma allocate_indirect:
  assumes ai: "alloc_inv s (x # ys)" and fi: "file_inv s (i_ic inode) n (x # ys)"
    and num: "unat (i_number inode) < 512" and n: "11 \<le> n" "n < 139" and byt: "unat byt div 512 = n"
    and ys: "n = 11 \<Longrightarrow> ys \<noteq> []"
  shows "\<exists>inode' s'. allocateDataBlockAddr inode byt s = Some (x, inode', s')
    \<and> alloc_inv s' (if n = 11 then tl ys else ys)
    \<and> file_inv s' (i_ic inode') (Suc n) (if n = 11 then tl ys else ys)
    \<and> fblk s' (i_ic inode') n = x \<and> grown (x # ys) n (Suc n) inode s inode' s'"
proof -
  define t where "t = (if n = 11 then hd ys else ic_ib (i_ic inode) ! 0)"
  define zs where "zs = (if n = 11 then tl ys else ys)"
  let ?ino = "unat (i_number inode)"
  let ?inode = "inode\<lparr>i_ic := (i_ic inode)\<lparr>ic_ib := (ic_ib (i_ic inode))[0 := t]\<rparr>\<rparr>"
  from fi have wf: "wf_ic (i_ic inode)" and dist: "distinct (file_blocks s (i_ic inode) n @ x # ys)"
    and own: "\<forall>a \<in> set (file_blocks s (i_ic inode) n). data_addr a" by (simp_all add: file_inv_def)
  have pool: "data_addr a" if "a \<in> set (x # ys)" for a using bp.pool_owned [OF ai that] .
  have x: "x \<noteq> -1" using pool [of x] bp.owned_not_error by auto
  from balloc_Cons [OF ai] obtain s1 where s1: "balloc s = Some (x, s1)" "alloc_inv s1 ys" "same_data s s1"
    by blast
  from index_block_spec [OF s1(2) num wf, of "n = 11"] ys obtain s2 where
    s2: "index_block 0 (n = 11) inode s1 = Some (Some t, ?inode, s2)" "alloc_inv s2 zs" "meta_only ?ino s1 s2"
    unfolding t_def zs_def by blast
  have m: "meta_only ?ino s s2" using s2(3) balloc_meta(1) [OF s1(3)] meta_only_trans by blast
  have t_src: "n = 11 \<and> ys = t # zs \<or> n \<noteq> 11 \<and> zs = ys \<and> t = ic_ib (i_ic inode) ! 0 \<and> t \<in> set (file_blocks s (i_ic inode) n)"
    using ys n by (cases ys) (auto simp: t_def zs_def set_file_blocks)
  then have dt: "data_addr t" using pool own by auto
  have tz: "t \<notin> set zs" and tx: "t \<noteq> x" using t_src dist by auto
  have bt: "blk s2 t = blk s t" using m dt by (simp add: meta_only_def)
  have f2: "formatted s2" using s2(2) by (simp add: alloc_inv_def)
  have vt: "valid s2 t" using data_addr_valid [OF f2 dt] .
  have len: "length (blk s2 t) = 512" using f2 vt by simp
  let ?tab = "put_word (blk s2 t) (n - 11) x"
  have lent: "length ?tab = 512" using len n by simp
  let ?s = "s2\<lparr>dsk := (dsk s2)\<lparr>dblk := (blk s2)(t := ?tab)\<rparr>\<rparr>"
  note w = data_write [OF s2(2) dt tz lent]
  have n11: "\<not> n < 11" "n \<le> 11 \<longleftrightarrow> n = 11" using n by auto
  have run: "allocateDataBlockAddr inode byt s = Some (x, ?inode, ?s)"
    using s1(1) s2(1) x n(2) n11 vt w(1) byt by (simp add: allocateDataBlockAddr_def set_leaf_def)
  have ib: "ic_ib (i_ic ?inode) ! 0 = t" using wf by (simp add: wf_ic_def)
  have old: "fblk ?s (i_ic ?inode) i = fblk s (i_ic inode) i" if "i < n" for i
    using that n ib len t_src by (auto simp: fblk_def word_at_put_word bt)
  have new: "fblk ?s (i_ic ?inode) n = x" using n ib len by (simp add: fblk_def word_at_put_word)
  let ?L = "map (fblk s (i_ic inode)) [0..<n]"
  have fb: "file_blocks ?s (i_ic ?inode) (Suc n) = ?L @ [x, t]"
    using n ib old new by (simp add: file_blocks_def)
  have "file_blocks s (i_ic inode) n = ?L @ (if n = 11 then [] else [t])"
    using n t_src by (auto simp: file_blocks_def)
  then have "distinct (?L @ [x, t] @ zs)" "\<forall>a \<in> set (?L @ [x, t]). data_addr a"
    using dist own t_src pool dt by (auto split: if_splits)
  then have "file_inv ?s (i_ic ?inode) (Suc n) zs"
    using fb n wf by (simp add: file_inv_def wf_ic_def)
  moreover have "grown (x # ys) n (Suc n) inode s ?inode ?s"
    using m old new w(3) t_src n ib by (auto simp: grown_def meta_only_def less_Suc_eq)
  ultimately show ?thesis using run w(2) new zs_def by blast
qed

text \<open>Both cases together: allocating block \<open>n\<close> takes \<open>grow_need n\<close> blocks from the
  pool, the first of them becoming the data block.\<close>

lemma allocate_step:
  assumes ai: "alloc_inv s xs" and fi: "file_inv s (i_ic inode) n xs"
    and num: "unat (i_number inode) < 512" and n: "n < 139" and byt: "unat byt div 512 = n"
    and xs: "grow_need n \<le> length xs"
  shows "\<exists>inode' s'. allocateDataBlockAddr inode byt s = Some (hd xs, inode', s')
    \<and> alloc_inv s' (drop (grow_need n) xs) \<and> file_inv s' (i_ic inode') (Suc n) (drop (grow_need n) xs)
    \<and> fblk s' (i_ic inode') n = hd xs \<and> grown xs n (Suc n) inode s inode' s'"
proof -
  obtain x ys where x: "xs = x # ys" using xs by (cases xs) (auto simp: grow_need_def split: if_splits)
  show ?thesis
  proof (cases "n < 11")
    case True
    with allocate_direct [of s x ys inode n byt] assms x show ?thesis by (auto simp: grow_need_def)
  next
    case False
    have "n = 11 \<Longrightarrow> ys \<noteq> []" using xs x by (auto simp: grow_need_def)
    moreover have "drop (grow_need n) xs = (if n = 11 then tl ys else ys)"
      by (simp add: x grow_need_def drop_Suc numeral_2_eq_2)
    ultimately show ?thesis using allocate_indirect [of s x ys inode n byt] assms x False by simp
  qed
qed

lemma grown_trans:
  assumes g1: "grown xs n k inode s inode1 s1" and g2: "grown ys k m inode1 s1 inode2 s2"
    and "n \<le> k" and ys: "set ys \<subseteq> set xs"
  shows "grown xs n m inode s inode2 s2"
  unfolding grown_def
proof (intro conjI allI impI)
  show "blk s2 a = blk s a" if a: "data_addr a \<and> a \<notin> set xs \<and> (n \<le> 11 \<or> a \<noteq> ic_ib (i_ic inode) ! 0)" for a
  proof -
    have "k \<le> 11 \<or> a \<noteq> ic_ib (i_ic inode1) ! 0"
      using g1 a by (cases "n \<le> 11") (fastforce simp: grown_def)+
    moreover have "a \<notin> set ys" using a ys by blast
    ultimately show ?thesis using g1 g2 a by (simp add: grown_def)
  qed
  have "11 < k \<Longrightarrow> ic_ib (i_ic inode2) ! 0 = ic_ib (i_ic inode1) ! 0"
    "n \<le> 11 \<and> 11 < k \<Longrightarrow> ic_ib (i_ic inode1) ! 0 \<in> set xs" "k \<le> 11 \<and> 11 < m \<Longrightarrow> ic_ib (i_ic inode2) ! 0 \<in> set ys"
    using g1 g2 by (simp_all add: grown_def)
  with ys show "ic_ib (i_ic inode2) ! 0 \<in> set xs" if "n \<le> 11 \<and> 11 < m" using that by (metis not_le subsetD)
  have "i < k \<Longrightarrow> fblk s2 (i_ic inode2) i = fblk s1 (i_ic inode1) i"
    "n \<le> i \<and> i < k \<Longrightarrow> fblk s1 (i_ic inode1) i \<in> set xs" "k \<le> i \<and> i < m \<Longrightarrow> fblk s2 (i_ic inode2) i \<in> set ys" for i
    using g1 g2 by (simp_all add: grown_def)
  with ys show "fblk s2 (i_ic inode2) i \<in> set xs" if "n \<le> i \<and> i < m" for i using that by (metis not_le subsetD)
qed (use g1 g2 \<open>n \<le> k\<close> in \<open>simp_all add: grown_def\<close>)

lemma grown_refl: "grown xs n n inode s inode s"
  by (auto simp: grown_def)

text \<open>The blocks taken to grow from \<open>n\<close> to \<open>m\<close>.\<close>

definition grow_cost :: "nat \<Rightarrow> nat \<Rightarrow> nat" where
  "grow_cost n m = (m - n) + (if n \<le> NDADDR \<and> NDADDR < m then 1 else 0)"

lemma grow_cost_step: "n < m \<Longrightarrow> grow_cost n m = grow_need n + grow_cost (Suc n) m"
  by (auto simp: grow_cost_def grow_need_def)

lemma of_nat_block: "n < 139 \<Longrightarrow> unat (of_nat (n * 512) :: u32) = n * 512"
  by (rule unat_of_nat_u32) simp

lemma allocate_loop_spec:
  assumes "alloc_inv s xs" and "file_inv s (i_ic inode) n xs" and "unat (i_number inode) < 512"
    and "n \<le> m" and "m \<le> 139" and "grow_cost n m \<le> length xs"
  shows "\<exists>inode' s'. allocate_loop [n..<m] inode s = Some (True, inode', s')
    \<and> alloc_inv s' (drop (grow_cost n m) xs) \<and> file_inv s' (i_ic inode') m (drop (grow_cost n m) xs)
    \<and> grown xs n m inode s inode' s'"
  using assms
proof (induction "m - n" arbitrary: n inode s xs)
  case 0
  then have "m = n" by simp
  with 0 show ?case by (auto simp: grow_cost_def grown_refl)
next
  case (Suc d)
  then have n: "n < m" "n < 139" "d = m - Suc n" by auto
  let ?k = "grow_need n"
  have need: "?k \<le> length xs" "grow_cost (Suc n) m \<le> length (drop ?k xs)"
    using Suc.prems(6) grow_cost_step [OF n(1)] by simp_all
  have "unat (of_nat (n * 512) :: u32) div 512 = n" using of_nat_block [OF n(2)] by simp
  from allocate_step [OF Suc.prems(1-3) n(2) this need(1)] obtain inode1 s1 where
    st: "allocateDataBlockAddr inode (of_nat (n * 512)) s = Some (hd xs, inode1, s1)"
      "alloc_inv s1 (drop ?k xs)" "file_inv s1 (i_ic inode1) (Suc n) (drop ?k xs)"
      "grown xs n (Suc n) inode s inode1 s1" by blast
  have num: "unat (i_number inode1) < 512" using st(4) Suc.prems(3) by (simp add: grown_def)
  from Suc.hyps(1) [OF n(3) st(2,3) num _ Suc.prems(5) need(2)] n obtain inode2 s2 where
    r: "allocate_loop [Suc n..<m] inode1 s1 = Some (True, inode2, s2)"
      "alloc_inv s2 (drop (grow_cost (Suc n) m) (drop ?k xs))"
      "file_inv s2 (i_ic inode2) m (drop (grow_cost (Suc n) m) (drop ?k xs))"
      "grown (drop ?k xs) (Suc n) m inode1 s1 inode2 s2" by auto
  have "hd xs \<in> set xs" using need(1) by (cases xs) (auto simp: grow_need_def split: if_splits)
  then have x: "hd xs \<noteq> -1" using bp.pool_owned [OF Suc.prems(1)] bp.owned_not_error by auto
  have "grown xs n m inode s inode2 s2"
    using grown_trans [OF st(4) r(4)] set_drop_subset by fastforce
  then show ?case
    using st(1) r(1-3) x grow_cost_step [OF n(1)] by (auto simp: upt_conv_Cons [OF n(1)] add.commute)
qed

text \<open>A file of \<open>sz\<close> bytes has \<open>sz div 512 + 1\<close> blocks: the block of its end
  position is always allocated.\<close>

definition nblocks :: "u32 \<Rightarrow> nat" where
  "nblocks sz = unat sz div BLOCK_SIZE + 1"

lemma nblocks_mono: "unat sz + unat bytes < 2 ^ 32 \<Longrightarrow> nblocks sz \<le> nblocks (sz + bytes)"
  by (simp add: nblocks_def unat_word_ariths div_le_mono)

lemma allocateDataBlocks_ok:
  assumes "alloc_inv s xs" and fi: "file_inv s (i_ic inode) (nblocks (ic_size (i_ic inode))) xs"
    and "unat (i_number inode) < 512" and ov: "unat (ic_size (i_ic inode)) + unat bytes < 2 ^ 32"
    and "nblocks (ic_size (i_ic inode) + bytes) \<le> 139"
    and "grow_cost (nblocks (ic_size (i_ic inode))) (nblocks (ic_size (i_ic inode) + bytes)) \<le> length xs"
  defines "n \<equiv> nblocks (ic_size (i_ic inode))" and "m \<equiv> nblocks (ic_size (i_ic inode) + bytes)"
    and "sz \<equiv> ic_size (i_ic inode) + bytes"
  shows "\<exists>inode1 s'. allocateDataBlocks inode bytes s =
        Some (sz, inode1\<lparr>i_ic := (i_ic inode1)\<lparr>ic_size := sz\<rparr>\<rparr>, s')
    \<and> alloc_inv s' (drop (grow_cost n m) xs) \<and> file_inv s' (i_ic inode1) m (drop (grow_cost n m) xs)
    \<and> grown xs n m inode s inode1 s'"
proof -
  from allocate_loop_spec [OF assms(1) fi assms(3) nblocks_mono [OF ov] assms(5,6)]
  obtain inode1 s' where r: "allocate_loop [n..<m] inode s = Some (True, inode1, s')"
    "alloc_inv s' (drop (grow_cost n m) xs)" "file_inv s' (i_ic inode1) m (drop (grow_cost n m) xs)"
    "grown xs n m inode s inode1 s'" unfolding n_def m_def by blast
  moreover have "ic_size (i_ic inode1) = ic_size (i_ic inode)" using r(4) by (simp add: grown_def)
  ultimately show ?thesis
    using r(1) by (intro exI [of _ inode1] exI [of _ s'])
      (simp add: allocateDataBlocks_def n_def m_def sz_def nblocks_def Let_def)
qed

text \<open>The size field is not part of where the blocks are.\<close>

lemma fblk_size [simp]: "fblk s (ic\<lparr>ic_size := z\<rparr>) i = fblk s ic i"
  by (simp add: fblk_def)

lemma file_inv_size [simp]: "file_inv s (ic\<lparr>ic_size := z\<rparr>) n xs = file_inv s ic n xs"
proof -
  have "fblk s (ic\<lparr>ic_size := z\<rparr>) = fblk s ic" by (rule ext) simp
  then show ?thesis by (simp add: file_inv_def file_blocks_def wf_ic_def)
qed

section \<open>Releasing a file's blocks\<close>

lemma free_direct_loop:
  assumes ai: "alloc_inv s xs" and fi: "file_inv s (i_ic inode) n xs" and k: "k \<le> n" "k \<le> 11"
  shows "\<exists>s'. for_each [0..<k] (free_block_at inode) s = Some s'
    \<and> alloc_inv s' (rev (map (fblk s (i_ic inode)) [0..<k]) @ xs) \<and> store.more s' = store.more s
    \<and> (\<forall>m<512. itab s' m = itab s m)"
  using k
proof (induction k)
  case 0
  then show ?case using ai by simp
next
  case (Suc k)
  then obtain s1 where s1: "for_each [0..<k] (free_block_at inode) s = Some s1"
    "alloc_inv s1 (rev (map (fblk s (i_ic inode)) [0..<k]) @ xs)" "store.more s1 = store.more s"
    "\<forall>m<512. itab s1 m = itab s m" by auto
  let ?a = "fblk s (i_ic inode) k"
  have wf: "wf_ic (i_ic inode)" using fi by (simp add: file_inv_def)
  have a: "data_addr ?a" "?a \<notin> set (rev (map (fblk s (i_ic inode)) [0..<k]) @ xs)"
    using Suc.prems file_inv_fblk(1-3) [OF fi, of k] by (auto dest!: file_inv_fblk(3) [THEN iffD1, OF fi, rotated 2])
  from bfree_cons [OF s1(2) a] obtain r s2 where s2: "bfree ?a s1 = Some (r, s2)"
    "alloc_inv s2 (?a # rev (map (fblk s (i_ic inode)) [0..<k]) @ xs)"
    "\<forall>c. c \<noteq> 1 \<and> c \<noteq> ?a \<longrightarrow> blk s2 c = blk s1 c" "store.more s2 = store.more s1" by blast
  have "unat (of_nat (k * 512) :: u32) = k * 512" using Suc.prems of_nat_block [of k] by simp
  then have "getDataBlockAddr inode (of_nat (k * 512)) s1 = Some ?a"
    using wf Suc.prems by (simp add: getDataBlockAddr_def fblk_def wf_ic_def)
  then have "free_block_at inode k s1 = Some s2" using s2(1) Suc.prems by (simp add: free_block_at_def)
  moreover have "itab s2 m = itab s1 m" if "m < 512" for m
    using s2(3) that iblock_not_data [of m] iblock_not_sb [of m] a(1) by (auto simp: itab_def)
  ultimately show ?case using s1 s2 by (simp add: for_each_append)
qed

text \<open>A file within its direct blocks gives back the blocks that hold its bytes. A file whose
  size is a multiple of the block size has one block more, which is not given back.\<close>

lemma freeDataBlocks_direct:
  assumes "alloc_inv s xs" and "file_inv s (i_ic inode) n xs"
  defines "k \<equiv> (unat (ic_size (i_ic inode)) + 511) div 512"
  assumes "k \<le> n" "k \<le> 11"
  shows "\<exists>s'. freeDataBlocks inode s = Some s'
    \<and> alloc_inv s' (rev (map (fblk s (i_ic inode)) [0..<k]) @ xs) \<and> store.more s' = store.more s
    \<and> (\<forall>m<512. itab s' m = itab s m)"
  using free_direct_loop [OF assms(1,2,4,5)] by (simp add: freeDataBlocks_def k_def)

section \<open>Properties\<close>

text \<open>An example: inode 5 as an empty file whose first block is block 1986.\<close>

definition inode5 :: inode_t where
  "inode5 = inode_local\<lparr>i_number := 5, i_ic := (i_ic inode_local)\<lparr>ic_mode := IFREG, ic_db := 1986 # replicate 10 0\<rparr>\<rparr>"

lemma inode5_simps [simp]:
  "unat (i_number inode5) = 5" "ic_size (i_ic inode5) = 0" "ic_size (i_ic (inode5\<lparr>i_ic := ic\<rparr>)) = ic_size ic"
  by (simp_all add: inode5_def inode_local_def)

lemma inode5_inv: "file_inv fresh (i_ic inode5) 1 wipe_order"
  using block_1986_not_free distinct_wipe_order data_addr_of_nat [of 1986]
  by (simp add: file_inv_def file_blocks_def fblk_def inode5_def inode_local_def wf_ic_def)

text \<open>C12. Growing a file. When enough blocks are free, \<open>allocateDataBlocks\<close> succeeds and
  returns the new size; the file then has a data block for every byte position up to its new
  end, all different, none of them free and none the index block; the blocks it had keep their
  addresses, no block in use by another file is written, and the other inodes are unchanged.
  The bound of 139 blocks is the reach of the direct pointers and the first index block.\<close>

theorem allocateDataBlocks_spec:
  assumes "alloc_inv s xs" and "file_inv s (i_ic inode) (nblocks (ic_size (i_ic inode))) xs"
    and "unat (i_number inode) < 512" and "unat (ic_size (i_ic inode)) + unat bytes < 2 ^ 32"
    and "nblocks (ic_size (i_ic inode) + bytes) \<le> 139"
    and "grow_cost (nblocks (ic_size (i_ic inode))) (nblocks (ic_size (i_ic inode) + bytes)) \<le> length xs"
  defines "n \<equiv> nblocks (ic_size (i_ic inode))" and "m \<equiv> nblocks (ic_size (i_ic inode) + bytes)"
  shows "\<exists>inode' s'. allocateDataBlocks inode bytes s = Some (ic_size (i_ic inode) + bytes, inode', s')
    \<and> ic_size (i_ic inode') = ic_size (i_ic inode) + bytes \<and> i_number inode' = i_number inode
    \<and> alloc_inv s' (drop (grow_cost n m) xs)
    \<and> file_inv s' (i_ic inode') m (drop (grow_cost n m) xs)
    \<and> (\<forall>byt. unat byt div 512 < n \<longrightarrow> getDataBlockAddr inode' byt s' = getDataBlockAddr inode byt s)
    \<and> (\<forall>byt. unat byt div 512 < m \<longrightarrow> getDataBlockAddr inode' byt s' = Some (fblk s' (i_ic inode') (unat byt div 512)))
    \<and> (\<forall>a. data_addr a \<and> a \<notin> set xs \<and> a \<notin> set (file_blocks s (i_ic inode) n) \<longrightarrow> blk s' a = blk s a)
    \<and> (\<forall>k<512. k \<noteq> unat (i_number inode) \<longrightarrow> itab s' k = itab s k)"
proof -
  from allocateDataBlocks_ok [OF assms(1-6)] obtain inode1 s' where
    r: "allocateDataBlocks inode bytes s = Some (ic_size (i_ic inode) + bytes,
        inode1\<lparr>i_ic := (i_ic inode1)\<lparr>ic_size := ic_size (i_ic inode) + bytes\<rparr>\<rparr>, s')"
      "alloc_inv s' (drop (grow_cost n m) xs)" "file_inv s' (i_ic inode1) m (drop (grow_cost n m) xs)"
      "grown xs n m inode s inode1 s'" unfolding n_def m_def by blast
  let ?i = "inode1\<lparr>i_ic := (i_ic inode1)\<lparr>ic_size := ic_size (i_ic inode) + bytes\<rparr>\<rparr>"
  have f: "formatted s" "formatted s'" using assms(1) r(2) by (simp_all add: alloc_inv_def)
  have nm: "n \<le> m" unfolding n_def m_def by (rule nblocks_mono [OF assms(4)])
  have get': "getDataBlockAddr ?i byt s' = Some (fblk s' (i_ic ?i) (unat byt div 512))"
    if "unat byt div 512 < m" for byt
    using that r(3) by (intro getDataBlockAddr_fblk [OF f(2)]) simp_all
  have get: "getDataBlockAddr ?i byt s' = getDataBlockAddr inode byt s" if "unat byt div 512 < n" for byt
    using that nm get' [of byt] getDataBlockAddr_fblk [OF f(1) assms(2)] r(4)
    by (simp add: n_def grown_def)
  have frame: "blk s' a = blk s a" if "data_addr a" "a \<notin> set xs" "a \<notin> set (file_blocks s (i_ic inode) n)" for a
    using that r(4) by (auto simp: grown_def set_file_blocks split: if_splits)
  show ?thesis
    using r get get' frame by (intro exI [of _ ?i] exI [of _ s']) (auto simp: grown_def)
qed

theorem allocateDataBlocks_spec_witness:
  "\<exists>inode' s'. allocateDataBlocks inode5 6000 fresh = Some (6000, inode', s')
     \<and> alloc_inv s' (drop 12 wipe_order) \<and> file_inv s' (i_ic inode') 12 (drop 12 wipe_order)"
proof -
  have "nblocks (ic_size (i_ic inode5)) = 1" "nblocks (ic_size (i_ic inode5) + 6000) = 12"
    by (simp_all add: nblocks_def)
  moreover from this have "grow_cost (nblocks (ic_size (i_ic inode5))) (nblocks (ic_size (i_ic inode5) + 6000)) = 12"
    by (simp add: grow_cost_def)
  ultimately show ?thesis
    using allocateDataBlocks_spec [OF fresh_inv(2), of inode5 6000] inode5_inv length_wipe_order by auto
qed

text \<open>C18. Out of space. With no block free \<open>allocateDataBlockAddr\<close> returns -1 and changes
  neither inode nor disk. With exactly one free block it also returns -1 for block 11 of a
  file, the first that needs an index block, but the data block it had taken by then is
  neither in the file nor free any more.\<close>

theorem allocateDataBlockAddr_no_space:
  assumes "alloc_inv s xs"
  shows "if xs = [] then allocateDataBlockAddr inode byt s = Some (-1, inode, s)
    else length xs = 1 \<and> unat byt div 512 = 11 \<longrightarrow>
      (\<exists>s'. allocateDataBlockAddr inode byt s = Some (-1, inode, s') \<and> alloc_inv s' [] \<and> same_data s s')"
proof (cases xs)
  case Nil
  then show ?thesis using assms by (simp add: allocateDataBlockAddr_def balloc_Nil)
next
  case (Cons x ys)
  then have x: "x \<noteq> -1" using bp.pool_owned [OF assms, of x] bp.owned_not_error by auto
  from assms Cons balloc_Cons obtain s' where s': "balloc s = Some (x, s')" "alloc_inv s' ys" "same_data s s'"
    by blast
  have "allocateDataBlockAddr inode byt s = Some (-1, inode, s')" if "ys = []" "unat byt div 512 = 11"
    using s' x that by (simp add: allocateDataBlockAddr_def index_block_def balloc_Nil)
  with s' Cons show ?thesis by auto
qed

definition one_left :: store where
  "one_left = fresh\<lparr>fs := (fs fresh)\<lparr>fs_fdb := 1 # 100 # replicate 62 0, fs_fdbhead := 1\<rparr>\<rparr>"

lemma one_left_inv: "alloc_inv one_left [100]"
proof -
  have "free_chain d (1 # 100 # replicate 62 0) 1 (table_stack (1 # 100 # replicate 62 0) 1)" for d
    by (rule free_chain.chain_end) simp_all
  then have "free_chain d (1 # 100 # replicate 62 0) 1 [100]" for d by (simp add: table_stack_def)
  then show ?thesis
    using data_addr_of_nat [of 100] by (simp add: alloc_inv_def one_left_def formatted_table(1))
qed

theorem allocateDataBlockAddr_no_space_witness:
  "\<exists>s'. allocateDataBlockAddr inode5 5632 one_left = Some (-1, inode5, s') \<and> alloc_inv s' []
     \<and> allocateDataBlockAddr inode5 512 s' = Some (-1, inode5, s')"
proof -
  obtain s' where "allocateDataBlockAddr inode5 5632 one_left = Some (-1, inode5, s')" "alloc_inv s' []"
    using allocateDataBlockAddr_no_space [OF one_left_inv, of inode5 5632] by auto
  then show ?thesis using allocateDataBlockAddr_no_space [of s' "[]" inode5 512] by auto
qed

lemma ceil_block: "(z + 511) div 512 = z div 512 + (if z mod 512 = 0 then 0 else 1)" for z :: nat
proof -
  obtain q r where z: "z = 512 * q + r" "r < 512" by (metis mod_less_divisor mult_div_mod_eq zero_less_numeral)
  then have "(r + 511) div 512 = (if r = 0 then 0 else 1)" by auto
  moreover have "(z + 511) div 512 = q + (r + 511) div 512" using z(1) by (simp add: add.assoc)
  ultimately show ?thesis using z by simp
qed

text \<open>C17. Releasing a file that fits its direct blocks: \<open>freeDataBlocks\<close> puts exactly the
  blocks that hold its bytes back into the pool, the last one on top, and touches no inode. A
  file whose size is a multiple of 512, an empty file included, has one block more than that,
  which stays allocated.\<close>

theorem freeDataBlocks_spec:
  assumes "alloc_inv s xs" and "file_inv s (i_ic inode) (nblocks (ic_size (i_ic inode))) xs"
    and "unat (ic_size (i_ic inode)) \<le> 11 * 512"
  defines "k \<equiv> (unat (ic_size (i_ic inode)) + 511) div 512"
  shows "\<exists>s'. freeDataBlocks inode s = Some s'
    \<and> alloc_inv s' (rev (map (fblk s (i_ic inode)) [0..<k]) @ xs) \<and> (\<forall>m<512. itab s' m = itab s m)
    \<and> nblocks (ic_size (i_ic inode)) = (if unat (ic_size (i_ic inode)) mod 512 = 0 then Suc k else k)"
proof -
  let ?z = "unat (ic_size (i_ic inode))"
  have k: "nblocks (ic_size (i_ic inode)) = (if ?z mod 512 = 0 then Suc k else k)"
    unfolding nblocks_def k_def ceil_block by simp
  have "k \<le> 11" using assms(3) unfolding k_def by simp
  then have "k \<le> nblocks (ic_size (i_ic inode))" "k \<le> 11" using k by simp_all
  from freeDataBlocks_direct [OF assms(1,2) this [unfolded k_def]] k show ?thesis
    unfolding k_def by blast
qed

theorem freeDataBlocks_spec_witness:
  "\<exists>s'. freeDataBlocks inode5 fresh = Some s' \<and> alloc_inv s' wipe_order
     \<and> nblocks (ic_size (i_ic inode5)) = 1"
  using freeDataBlocks_spec [OF fresh_inv(2), of inode5] inode5_inv by (auto simp: nblocks_def)

text \<open>C19. Beyond the first index block the block map is not kept. Allocating the first
  double-indirect block (block 139) takes three blocks: data, index \<open>t\<close> and table; the entry
  of \<open>t\<close> is written into the table's own block and block \<open>t\<close> is left as it was. A later
  lookup of the same position therefore follows whatever word block \<open>t\<close> held before.\<close>

theorem double_indirect_lookup:
  assumes ai: "alloc_inv s (a # t # u # xs)" and num: "unat (i_number inode) < 512"
    and wf: "wf_ic (i_ic inode)"
    and st: "data_addr (word_at (blk s t) 0)" "word_at (blk s t) 0 \<noteq> u"
  shows "\<exists>inode' s'. allocateDataBlockAddr inode (139 * 512) s = Some (a, inode', s')
    \<and> getDataBlockAddr inode' (139 * 512) s' = Some (word_at (blk s (word_at (blk s t) 0)) 0)"
proof -
  have pool: "data_addr b" if "b \<in> set (a # t # u # xs)" for b using bp.pool_owned [OF ai that] .
  have ne: "a \<noteq> -1" "t \<noteq> -1" "u \<noteq> -1" and tu: "t \<noteq> u"
    using pool bp.owned_not_error ai by (auto simp: alloc_inv_def)
  from balloc_Cons [OF ai] obtain s1 where s1: "balloc s = Some (a, s1)" "alloc_inv s1 (t # u # xs)"
    "same_data s s1" by blast
  from balloc_Cons [OF s1(2)] obtain s2 where s2: "balloc s1 = Some (t, s2)" "alloc_inv s2 (u # xs)"
    "same_data s1 s2" by blast
  let ?i = "inode\<lparr>i_ic := (i_ic inode)\<lparr>ic_ib := (ic_ib (i_ic inode))[1 := t]\<rparr>\<rparr>"
  from writeInode_meta [OF s2(2), of ?i] num wf obtain s3 where s3: "writeInode ?i s2 = Some s3"
    "alloc_inv s3 (u # xs)" "meta_only (unat (i_number inode)) s2 s3" by (auto simp: wf_ic_def)
  from balloc_Cons [OF s3(2)] obtain s4 where s4: "balloc s3 = Some (u, s4)" "alloc_inv s4 xs"
    "same_data s3 s4" by blast
  have same: "blk s3 b = blk s b" "blk s4 b = blk s b" if "data_addr b" for b
    using that s1(3) s2(3) s3(3) s4(3) data_addr_not_sb [OF that] by (simp_all add: same_data_def meta_only_def)
  have f: "formatted s3" "formatted s4" using s3(2) s4(2) by (simp_all add: alloc_inv_def)
  have v: "valid s3 t" "valid s4 t" "valid s4 u" "data_addr t" "data_addr u"
    using pool data_addr_valid f by auto
  let ?b = "put_word (blk s t) 0 u"
  have "length (blk s4 t) = 512" using f(2) v(2) by simp
  then have len: "length ?b = 512" "length (put_word ?b 0 a) = 512" using same(2) v(4) by simp_all
  have ux: "u \<notin> set xs" using ai by (auto simp: alloc_inv_def)
  note w = data_write [OF s4(2) v(5) ux len(1)]
  let ?s5 = "s4\<lparr>dsk := (dsk s4)\<lparr>dblk := (blk s4)(u := ?b)\<rparr>\<rparr>"
  note w' = data_write [OF w(2) v(5) ux len(2)]
  let ?s6 = "?s5\<lparr>dsk := (dsk ?s5)\<lparr>dblk := (blk ?s5)(u := put_word ?b 0 a)\<rparr>\<rparr>"
  have f6: "formatted ?s5" "formatted ?s6" using w(2) w'(2) by (simp_all add: alloc_inv_def)
  have v6: "valid ?s5 u" "valid ?s6 t" "valid ?s6 (word_at (blk s t) 0)"
    using data_addr_valid f6 v(4,5) st(1) by blast+
  have "allocateDataBlockAddr inode (139 * 512) s = Some (a, ?i, ?s6)"
    using s1(1) s2(1) s3(1) s4(1) ne wf v w(1) w'(1) v6(1) same(1) [of t]
    by (simp add: allocateDataBlockAddr_def index_block_def next_table_def set_leaf_def wf_ic_def Let_def)
  moreover have "getDataBlockAddr ?i (139 * 512) ?s6 = Some (word_at (blk s (word_at (blk s t) 0)) 0)"
    using v6(2,3) tu v(4) st same wf by (simp add: getDataBlockAddr_def wf_ic_def)
  ultimately show ?thesis by blast
qed

definition three_left :: store where
  "three_left = fresh\<lparr>dsk := (dsk fresh)\<lparr>dblk := (blk fresh)(101 := put_word (replicate 512 0) 0 200)\<rparr>,
     fs := (fs fresh)\<lparr>fs_fdb := 1 # 100 # 101 # 102 # replicate 60 0, fs_fdbhead := 3\<rparr>\<rparr>"

lemma three_left_inv: "alloc_inv three_left [102, 101, 100]"
proof -
  let ?t = "1 # 100 # 101 # 102 # replicate 60 (0 :: u32)"
  have "free_chain d ?t 3 (table_stack ?t 3)" for d by (rule free_chain.chain_end) simp_all
  then have c: "free_chain d ?t 3 [102, 101, 100]" for d by (simp add: table_stack_def)
  have "formatted (fresh\<lparr>dsk := (dsk fresh)\<lparr>dblk := (blk fresh)(101 := put_word (replicate 512 0) 0 200)\<rparr>\<rparr>)"
    by (intro formatted_write) simp_all
  from formatted_table(1) [OF this, of ?t 3] have "formatted three_left" by (simp add: three_left_def)
  with c data_addr_of_nat [of 100] data_addr_of_nat [of 101] data_addr_of_nat [of 102] show ?thesis
    by (simp add: alloc_inv_def) (simp add: three_left_def)
qed

theorem double_indirect_lookup_witness:
  "\<exists>inode' s' a. allocateDataBlockAddr inode5 (139 * 512) three_left = Some (102, inode', s')
    \<and> getDataBlockAddr inode' (139 * 512) s' = Some a \<and> a = word_at (blk three_left 200) 0"
proof -
  have w: "word_at (blk three_left 101) 0 = 200" by (simp add: three_left_def word_at_put_word)
  show ?thesis
    using double_indirect_lookup [OF three_left_inv, of inode5] w data_addr_of_nat [of 200]
    by (simp add: wf_ic_def inode5_def inode_local_def)
qed

end
