(* ===== verification/Sched.thy ===== *)
theory Sched
  imports Layout "HOL-Library.Product_Lexorder"
begin

text \<open>
  Processes and scheduling: \<open>fork\<close>, \<open>kill\<close>, \<open>cmp_pcb\<close>, \<open>rq_rotate\<close>, \<open>rq_add\<close>,
  \<open>rq_rm\<close> and \<open>scheduler\<close> of \<open>src/kernel/kernel.c\<close>, over the process table and the
  ready queue. A \<open>pcb_t*\<close> is an index into the process table, \<open>None\<close> is \<open>NULL\<close>.

  The abstract view of the ready queue is the list of process numbers \<open>q\<close> with
  \<open>ready s q\<close>; \<open>sched_inv\<close> adds that no queued process is terminated and that the current
  process exists.
\<close>

abbreviation (input) PROCESS_LIMIT :: nat where "PROCESS_LIMIT \<equiv> 8"
abbreviation (input) FDT_LIMIT :: nat where "FDT_LIMIT \<equiv> 16"

record ctx_t =
  cpsr :: u32
  pc :: u32
  gpr :: "u32 list"
  sp :: u32
  lr :: u32

datatype pst_t = TERMINATED | CREATED | READY | EXECUTING | WAITING

record pcb_t =
  pid :: u32
  prt :: u32
  ctx :: ctx_t
  pst :: pst_t
  defp :: u32
  prio :: u32
  fd :: "nat option list"

record procs = store +
  pcb :: "pcb_t list"
  current :: "nat option"
  rq :: "nat option list"
  rq_size :: u32

abbreviation (input) SIGKILL :: u32 where "SIGKILL \<equiv> 0"
abbreviation (input) SIGWAIT :: u32 where "SIGWAIT \<equiv> 1"
abbreviation (input) SIGCONT :: u32 where "SIGCONT \<equiv> 2"
abbreviation (input) SIGPRI0 :: u32 where "SIGPRI0 \<equiv> 3"

text \<open>Assignment to a field of \<open>pcb[ p ]\<close>.\<close>

definition upd_pcb :: "nat \<Rightarrow> (pcb_t \<Rightarrow> pcb_t) \<Rightarrow> 'a procs_scheme \<Rightarrow> 'a procs_scheme option" where
  "upd_pcb p f s = do {
     x \<leftarrow> arr (pcb s) p;
     t \<leftarrow> arr_upd (pcb s) p (f x);
     Some (s\<lparr>pcb := t\<rparr>)
   }"

section \<open>The ready queue\<close>

definition rq_add :: "nat \<Rightarrow> 'a procs_scheme \<Rightarrow> 'a procs_scheme option" where
  "rq_add p s =
     (if rq_size s < 8 then do {
        r \<leftarrow> arr_upd (rq s) (unat (rq_size s)) (Some p);
        Some (s\<lparr>rq := r, rq_size := rq_size s + 1\<rparr>)
      }
      else Some s)"

text \<open>\<open>rq[ i ] = rq[ i+1 ]\<close>.\<close>

definition rq_move :: "nat \<Rightarrow> 'a procs_scheme \<Rightarrow> 'a procs_scheme option" where
  "rq_move i s = do {
     v \<leftarrow> arr (rq s) (i + 1);
     r \<leftarrow> arr_upd (rq s) i v;
     Some (s\<lparr>rq := r\<rparr>)
   }"

text \<open>One turn of the loop of \<open>rq_rm\<close>. The loop's bound \<open>rq_size\<close> is read again in every
  turn; it never grows there, so the indices below its first value are all the loop can
  visit. \<open>rq_size-1\<close> is unsigned.\<close>

definition rq_rm_turn :: "u32 \<Rightarrow> nat \<Rightarrow> 'a procs_scheme \<Rightarrow> 'a procs_scheme option" where
  "rq_rm_turn i p s =
     (if p < unat (rq_size s) then do {
        e \<leftarrow> arr (rq s) p;
        e \<leftarrow> e;
        x \<leftarrow> arr (pcb s) e;
        (if pid x = i then do {
           s \<leftarrow> for_each [p..<unat (rq_size s - 1)] rq_move s;
           r \<leftarrow> arr_upd (rq s) (unat (rq_size s - 1)) None;
           Some (s\<lparr>rq := r, rq_size := rq_size s - 1\<rparr>)
         }
         else Some s)
      }
      else Some s)"

definition rq_rm :: "u32 \<Rightarrow> 'a procs_scheme \<Rightarrow> 'a procs_scheme option" where
  "rq_rm i s = for_each [0..<unat (rq_size s)] (rq_rm_turn i) s"

text \<open>The head of the queue goes to its end; \<open>end\<close> is an \<open>int\<close>.\<close>

definition rq_shift :: "'a procs_scheme \<Rightarrow> 'a procs_scheme option" where
  "rq_shift s = do {
     head \<leftarrow> arr (rq s) 0;
     let e = sint (if head = None then rq_size s else rq_size s - 1);
     s \<leftarrow> for_each [0..<nat e] rq_move s;
     r \<leftarrow> (if 0 \<le> e then arr_upd (rq s) (nat e) head else None);
     Some (s\<lparr>rq := r\<rparr>)
   }"

text \<open>\<open>rq_rotate\<close> reads \<open>rq[ 0 ]->pst\<close> before it looks whether \<open>rq[ 0 ]\<close> is \<open>NULL\<close>,
  and calls itself until an executing process is at the front.\<close>

partial_function (option) rq_rotate :: "'a procs_scheme \<Rightarrow> 'a procs_scheme option" where
  "rq_rotate s = do {
     s \<leftarrow> rq_shift s;
     h \<leftarrow> arr (rq s) 0;
     p \<leftarrow> h;
     x \<leftarrow> arr (pcb s) p;
     (if pst x \<noteq> EXECUTING then rq_rotate s else Some s)
   }"

section \<open>Processes\<close>

text \<open>The child in slot \<open>p\<close>, and the search for the slot.\<close>

definition fork_at :: "nat \<Rightarrow> ctx_t \<Rightarrow> 'a procs_scheme \<Rightarrow> (u32 \<times> 'a procs_scheme) option" where
  "fork_at p c s = do {
     s \<leftarrow> upd_pcb p (\<lambda>x. x\<lparr>pid := of_nat p\<rparr>) s;
     cur \<leftarrow> current s;
     parent \<leftarrow> arr (pcb s) cur;
     g \<leftarrow> arr_upd (gpr c) 0 0;
     s \<leftarrow> upd_pcb p (\<lambda>x. x\<lparr>prt := pid parent, ctx := c\<lparr>gpr := g\<rparr>,
            pst := EXECUTING, defp := 0x7FFFFFFF, prio := 0x7FFFFFFF\<rparr>) s;
     s \<leftarrow> rq_add p s;
     Some (of_nat p, s)
   }"

fun fork_loop :: "nat list \<Rightarrow> ctx_t \<Rightarrow> 'a procs_scheme \<Rightarrow> (u32 \<times> 'a procs_scheme) option" where
  "fork_loop [] c s = Some (-1, s)"
| "fork_loop (p # ps) c s = do {
     x \<leftarrow> arr (pcb s) p;
     (if pst x = TERMINATED then fork_at p c s else fork_loop ps c s)
   }"

definition fork :: "ctx_t \<Rightarrow> 'a procs_scheme \<Rightarrow> (u32 \<times> 'a procs_scheme) option" where
  "fork c s = fork_loop [0..<PROCESS_LIMIT] c s"

definition kill :: "u32 \<Rightarrow> u32 \<Rightarrow> 'a procs_scheme \<Rightarrow> 'a procs_scheme option" where
  "kill i sig s =
     (if 0 \<le> sint i \<and> sint i \<le> int PROCESS_LIMIT then
        (if sig = SIGKILL then do {
           s \<leftarrow> upd_pcb (unat i) (\<lambda>x. x\<lparr>pst := TERMINATED\<rparr>) s;
           rq_rm i s
         }
         else if sig = SIGWAIT then upd_pcb (unat i) (\<lambda>x. x\<lparr>pst := WAITING\<rparr>) s
         else if sig = SIGCONT then
           upd_pcb (unat i) (\<lambda>x. if pst x = WAITING then x\<lparr>pst := EXECUTING\<rparr> else x) s
         else if sig = SIGPRI0 then upd_pcb (unat i) (\<lambda>x. x\<lparr>defp := 0, prio := 0\<rparr>) s
         else Some s)
      else if i = 9 \<and> sig = SIGKILL then
        for_each [1..<PROCESS_LIMIT] (\<lambda>p. upd_pcb p (\<lambda>x. x\<lparr>pst := TERMINATED\<rparr>)) s
      else Some s)"

section \<open>The scheduler\<close>

text \<open>When the process at the front has used up its priority, every queued process gets its
  default priority back.\<close>

definition renew_prios :: "nat \<Rightarrow> 'a procs_scheme \<Rightarrow> 'a procs_scheme option" where
  "renew_prios h s = do {
     x \<leftarrow> arr (pcb s) h;
     (if prio x = 0 then
        for_each [0..<unat (rq_size s)] (\<lambda>i s. do {
          e \<leftarrow> arr (rq s) i;
          e \<leftarrow> e;
          upd_pcb e (\<lambda>x. x\<lparr>prio := defp x\<rparr>) s
        }) s
      else Some s)
   }"

definition switch_to :: "ctx_t \<Rightarrow> nat \<Rightarrow> 'a procs_scheme \<Rightarrow> (ctx_t \<times> 'a procs_scheme) option" where
  "switch_to c h s =
     (if current s = Some h then do {
        s \<leftarrow> upd_pcb h (\<lambda>x. x\<lparr>prio := prio x - 1\<rparr>) s;
        Some (c, s)
      }
      else do {
        cur \<leftarrow> current s;
        x \<leftarrow> arr (pcb s) cur;
        s \<leftarrow> upd_pcb (unat (pid x)) (\<lambda>x. x\<lparr>ctx := c\<rparr>) s;
        y \<leftarrow> arr (pcb s) h;
        Some (ctx y, s\<lparr>current := Some h\<rparr>)
      })"

text \<open>\<open>scheduler\<close> works on the interrupted context, which the handlers pass in and resume
  from.\<close>

definition scheduler :: "ctx_t \<Rightarrow> 'a procs_scheme \<Rightarrow> (ctx_t \<times> 'a procs_scheme) option" where
  "scheduler c s = do {
     s \<leftarrow> rq_rotate s;
     h \<leftarrow> arr (rq s) 0;
     (case h of
        None \<Rightarrow> Some (c, s)
      | Some h \<Rightarrow> do {
          s \<leftarrow> renew_prios h s;
          switch_to c h s
        })
   }"

text \<open>The comparison function for \<open>qsort\<close>, on the pointers it is given.\<close>

definition cmp_pcb :: "pcb_t option \<Rightarrow> pcb_t option \<Rightarrow> int" where
  "cmp_pcb p1 p2 =
     (case (p1, p2) of
        (None, Some _) \<Rightarrow> 1
      | (Some _, None) \<Rightarrow> -1
      | (None, None) \<Rightarrow> 0
      | (Some x, Some y) \<Rightarrow>
          if pst x = TERMINATED \<and> pst y \<noteq> TERMINATED then 1
          else if pst x \<noteq> TERMINATED \<and> pst y = TERMINATED then -1
          else if pst x = WAITING \<and> pst y \<noteq> WAITING then 1
          else if pst x \<noteq> WAITING \<and> pst y = WAITING then -1
          else if prio x = 0 \<and> prio y > 0 then 1
          else if prio x > 0 \<and> prio y = 0 then -1
          else if defp x < defp y then 1
          else if defp x > defp y then -1
          else if sint (pid x) > sint (pid y) then 1
          else if sint (pid x) < sint (pid y) then -1
          else 0)"

section \<open>The queue as a list\<close>

definition rq_of :: "nat list \<Rightarrow> nat option list" where
  "rq_of q = map Some q @ replicate (PROCESS_LIMIT - length q) None"

definition ready :: "'a procs_scheme \<Rightarrow> nat list \<Rightarrow> bool" where
  "ready s q \<longleftrightarrow> length (pcb s) = PROCESS_LIMIT \<and> length q \<le> PROCESS_LIMIT
     \<and> rq s = rq_of q \<and> rq_size s = of_nat (length q) \<and> distinct q
     \<and> (\<forall>p \<in> set q. p < PROCESS_LIMIT \<and> pid (pcb s ! p) = of_nat p)"

lemma length_rq_of [simp]: "length q \<le> 8 \<Longrightarrow> length (rq_of q) = 8"
  by (simp add: rq_of_def)

lemma nth_rq_of: "i < 8 \<Longrightarrow> length q \<le> 8 \<Longrightarrow> rq_of q ! i = (if i < length q then Some (q ! i) else None)"
  by (simp add: rq_of_def nth_append)

lemma rq_of_eqI:
  assumes "length xs = 8" and "length q \<le> 8"
    and "\<And>i. i < 8 \<Longrightarrow> xs ! i = (if i < length q then Some (q ! i) else None)"
  shows "xs = rq_of q"
  using assms by (intro nth_equalityI) (simp_all add: nth_rq_of)

lemma ready_size: "ready s q \<Longrightarrow> unat (rq_size s) = length q"
  by (simp add: ready_def unat_of_nat_u32)

text \<open>The loops that close a gap in the queue.\<close>

lemma rq_moves:
  assumes "n < length (rq s)"
  shows "\<exists>r. for_each [p..<n] rq_move s = Some (s\<lparr>rq := r\<rparr>) \<and> length r = length (rq s)
    \<and> (\<forall>i<length (rq s). r ! i = rq s ! (if p \<le> i \<and> i < n then Suc i else i))"
  using assms
proof (induction n)
  case 0
  then show ?case by (auto intro!: exI [of _ "rq s"])
next
  case (Suc n)
  then obtain r where r: "for_each [p..<n] rq_move s = Some (s\<lparr>rq := r\<rparr>)" "length r = length (rq s)"
    "\<forall>i<length (rq s). r ! i = rq s ! (if p \<le> i \<and> i < n then Suc i else i)" by auto
  show ?case
  proof (cases "p \<le> n")
    case True
    with r Suc.prems have "for_each [p..<Suc n] rq_move s = Some (s\<lparr>rq := r[n := rq s ! Suc n]\<rparr>)"
      by (simp add: for_each_append rq_move_def)
    moreover have "\<forall>i<length (rq s). r[n := rq s ! Suc n] ! i = rq s ! (if p \<le> i \<and> i < Suc n then Suc i else i)"
      using r True by (auto simp: nth_list_update less_Suc_eq)
    ultimately show ?thesis using r(2) by (intro exI [of _ "r[n := rq s ! Suc n]"]) simp
  next
    case False
    then have "\<not> (p \<le> i \<and> i < Suc n)" for i by auto
    with False show ?thesis by (auto intro!: exI [of _ "rq s"])
  qed
qed

text \<open>Rotating by one: the first process of the queue becomes the last.\<close>

lemma sint_small: "n \<le> 8 \<Longrightarrow> sint (of_nat n :: u32) = int n"
  by (simp add: sint_of_unat unat_of_nat_u32)

lemma rq_shift_ready:
  assumes "ready s (a # q)"
  shows "rq_shift s = Some (s\<lparr>rq := rq_of (q @ [a])\<rparr>)" and "ready (s\<lparr>rq := rq_of (q @ [a])\<rparr>) (q @ [a])"
proof -
  have len: "length q < 8" "length (rq s) = 8" and rq: "rq s = rq_of (a # q)"
    using assms by (simp_all add: ready_def)
  have e: "rq_size s - 1 = of_nat (length q)" using assms by (simp add: ready_def)
  from rq_moves [of "length q" s 0] len obtain r where
    r: "for_each [0..<length q] rq_move s = Some (s\<lparr>rq := r\<rparr>)" "length r = 8"
      "\<forall>i<8. r ! i = rq s ! (if i < length q then Suc i else i)" by auto
  have "r[length q := Some a] = rq_of (q @ [a])"
    using r(2,3) len by (intro rq_of_eqI) (auto simp: rq nth_rq_of nth_append nth_list_update)
  moreover have "rq s ! 0 = Some a" using len by (simp add: rq nth_rq_of)
  ultimately show "rq_shift s = Some (s\<lparr>rq := rq_of (q @ [a])\<rparr>)"
    using r(1,2) len by (simp add: rq_shift_def e sint_small)
  show "ready (s\<lparr>rq := rq_of (q @ [a])\<rparr>) (q @ [a])" using assms by (auto simp: ready_def)
qed

text \<open>\<open>rq_rotate\<close> turns the queue until the first executing process after the head is at the
  front; it never returns when there is none.\<close>

definition executing :: "'a procs_scheme \<Rightarrow> nat \<Rightarrow> bool" where
  "executing s p \<longleftrightarrow> pst (pcb s ! p) = EXECUTING"

lemma ready_nth: "ready s (a # q) \<Longrightarrow> rq s ! 0 = Some a \<and> length (rq s) = 8 \<and> a < length (pcb s)"
  by (auto simp: ready_def nth_rq_of)

lemma executing_rq [simp]: "executing (s\<lparr>rq := r\<rparr>) p = executing s p"
  by (simp add: executing_def)

lemma rq_rotate_step:
  assumes "ready s (a # q)" and "q @ [a] = b # q'"
  shows "rq_rotate s = (let s' = s\<lparr>rq := rq_of (b # q')\<rparr> in if executing s b then Some s' else rq_rotate s')"
    and "ready (s\<lparr>rq := rq_of (b # q')\<rparr>) (b # q')"
proof -
  let ?s = "s\<lparr>rq := rq_of (b # q')\<rparr>"
  have s: "rq_shift s = Some ?s" "ready ?s (b # q')" using rq_shift_ready [OF assms(1)] assms(2) by simp_all
  then show "ready ?s (b # q')" by simp
  from s ready_nth [of ?s b q'] show "rq_rotate s = (let s' = ?s in if executing s b then Some s' else rq_rotate s')"
    by (subst rq_rotate.simps) (auto simp: executing_def Let_def)
qed

lemma rq_rotate_next:
  assumes "ready s (a # q)" and "q @ [a] = xs @ b # ys" and "\<forall>x \<in> set xs. \<not> executing s x"
    and "executing s b"
  shows "rq_rotate s = Some (s\<lparr>rq := rq_of (b # ys @ xs)\<rparr>)" and "ready (s\<lparr>rq := rq_of (b # ys @ xs)\<rparr>) (b # ys @ xs)"
proof -
  have "rq_rotate s = Some (s\<lparr>rq := rq_of (b # ys @ xs)\<rparr>) \<and> ready (s\<lparr>rq := rq_of (b # ys @ xs)\<rparr>) (b # ys @ xs)"
    using assms
  proof (induction xs arbitrary: s a q ys)
    case Nil
    with rq_rotate_step [of s a q b ys] show ?case by (simp add: Let_def)
  next
    case (Cons x xs)
    let ?s = "s\<lparr>rq := rq_of (x # xs @ b # ys)\<rparr>"
    from Cons.prems rq_rotate_step [of s a q x "xs @ b # ys"]
    have "rq_rotate s = rq_rotate ?s" "ready ?s (x # xs @ b # ys)" by (simp_all add: Let_def)
    with Cons.IH [of ?s x "xs @ b # ys" "ys @ [x]"] Cons.prems show ?case by simp
  qed
  then show "rq_rotate s = Some (s\<lparr>rq := rq_of (b # ys @ xs)\<rparr>)"
    and "ready (s\<lparr>rq := rq_of (b # ys @ xs)\<rparr>) (b # ys @ xs)" by simp_all
qed

lemma rq_rotate_none:
  assumes "ready s q" and "\<forall>p \<in> set q. \<not> executing s p"
  shows "rq_rotate s = None"
proof (rule ccontr)
  assume "rq_rotate s \<noteq> None"
  then obtain y where "rq_rotate s = Some y" by blast
  then have "\<forall>q. ready s q \<longrightarrow> (\<exists>p \<in> set q. executing s p)"
  proof (rule rq_rotate.raw_induct [where P = "\<lambda>s y. \<forall>q. ready s q \<longrightarrow> (\<exists>p \<in> set q. executing s p)", rotated])
    fix rot :: "'a procs_scheme \<Rightarrow> 'a procs_scheme option" and s y
    assume IH: "\<And>s y. rot s = Some y \<Longrightarrow> \<forall>q. ready s q \<longrightarrow> (\<exists>p \<in> set q. executing s p)"
      and step: "do { s \<leftarrow> rq_shift s; h \<leftarrow> arr (rq s) 0; p \<leftarrow> h; x \<leftarrow> arr (pcb s) p;
        (if pst x \<noteq> EXECUTING then rot s else Some s) } = Some y"
    show "\<forall>q. ready s q \<longrightarrow> (\<exists>p \<in> set q. executing s p)"
    proof (intro allI impI)
      fix q assume r: "ready s q"
      show "\<exists>p \<in> set q. executing s p"
      proof (cases q)
        case Nil
        then have "rq s ! 0 = None" "length (rq s) = 8" "rq_size s = 0" using r by (simp_all add: ready_def nth_rq_of)
        with step show ?thesis by (simp add: rq_shift_def)
      next
        case (Cons a p)
        obtain b q' where b: "p @ [a] = b # q'" by (cases p) auto
        let ?s = "s\<lparr>rq := rq_of (b # q')\<rparr>"
        have s: "rq_shift s = Some ?s" "ready ?s (b # q')"
          using rq_shift_ready [of s a p] r Cons b by simp_all
        have eq: "set (b # q') = set q" using Cons b by (metis set_rotate1 rotate1.simps(2))
        have "rot ?s = Some y" if "\<not> executing s b"
          using step s ready_nth [of ?s b q'] that by (simp add: executing_def)
        with IH [of ?s] s(2) eq show ?thesis by fastforce
      qed
    qed
  qed
  with assms show False by blast
qed

section \<open>Round robin\<close>

text \<open>The contract of a turn of the scheduler: the next live process after the head comes to
  the front, the processes passed over go to the back. Every live process is then at the
  front again after at most as many turns as the queue is long.\<close>

locale round_robin =
  fixes turn :: "'s \<Rightarrow> 's option"
    and holds :: "'s \<Rightarrow> 'p list \<Rightarrow> bool"
    and live :: "'s \<Rightarrow> 'p \<Rightarrow> bool"
    and chosen :: "'s \<Rightarrow> 'p \<Rightarrow> bool"
  assumes turn_next: "holds s (a # q) \<Longrightarrow> q @ [a] = xs @ b # ys \<Longrightarrow> \<forall>x \<in> set xs. \<not> live s x \<Longrightarrow> live s b \<Longrightarrow>
      \<exists>s'. turn s = Some s' \<and> holds s' (b # ys @ xs) \<and> live s' = live s \<and> chosen s' b"
begin

lemma reaches_front:
  assumes "holds s (a # q)" and "q @ [a] = us @ p # vs" and "live s p"
  shows "\<exists>k s' q'. 0 < k \<and> k \<le> Suc (length us) \<and> iter_opt k turn s = Some s' \<and> holds s' (p # q')
    \<and> chosen s' p \<and> set (p # q') = set (a # q)"
  using assms
proof (induction "length us" arbitrary: s a q us vs rule: less_induct)
  case less
  show ?case
  proof (cases "\<exists>x \<in> set us. live s x")
    case False
    with turn_next [OF less.prems(1,2)] less.prems(3) obtain s' where
      "turn s = Some s'" "holds s' (p # vs @ us)" "chosen s' p" by blast
    moreover have "set (p # vs @ us) = set (q @ [a])" unfolding less.prems(2) by auto
    ultimately show ?thesis by (intro exI [of _ 1] exI [of _ s'] exI [of _ "vs @ us"]) simp
  next
    case True
    then obtain xs b ws where us: "us = xs @ b # ws" "live s b" "\<forall>x \<in> set xs. \<not> live s x"
      by (metis split_list_first_propE)
    with turn_next [of s a q xs b "ws @ p # vs"] less.prems obtain s1 where
      s1: "turn s = Some s1" "holds s1 (b # ws @ p # vs @ xs)" "live s1 = live s" by auto
    have "\<exists>k s' q'. 0 < k \<and> k \<le> Suc (length ws) \<and> iter_opt k turn s1 = Some s' \<and> holds s' (p # q')
        \<and> chosen s' p \<and> set (p # q') = set (b # ws @ p # vs @ xs)"
      using us(1) s1 less.prems(3) by (intro less.hyps [of ws s1 b _ "vs @ xs @ [b]"]) auto
    then obtain k s' q' where k: "k \<le> Suc (length ws)" "iter_opt k turn s1 = Some s'" "holds s' (p # q')"
      "chosen s' p" "set (p # q') = set (b # ws @ p # vs @ xs)" by blast
    have "set (b # ws @ p # vs @ xs) = set (q @ [a])" unfolding less.prems(2) us(1) by auto
    with k s1(1) us(1) show ?thesis by (intro exI [of _ "Suc k"] exI [of _ s'] exI [of _ q']) auto
  qed
qed

lemma fair:
  assumes "holds s q" and "p \<in> set q" and "live s p"
  shows "\<exists>k s' q'. 0 < k \<and> k \<le> length q \<and> iter_opt k turn s = Some s' \<and> holds s' (p # q')
    \<and> chosen s' p \<and> set (p # q') = set q"
proof -
  obtain a q0 where q: "q = a # q0" using assms(2) by (cases q) auto
  with assms(2) have "p \<in> set (q0 @ [a])" by auto
  then obtain us vs where us: "q0 @ [a] = us @ p # vs" by (metis split_list)
  then have "length (q0 @ [a]) = length (us @ p # vs)" by simp
  then have "Suc (length us) \<le> length q" using q by simp
  with reaches_front [of s a q0 us p vs] assms q us show ?thesis by (meson order_trans)
qed

end

interpretation rot: round_robin rq_rotate ready executing "\<lambda>s p. rq s ! 0 = Some p"
proof
  fix s :: "'a procs_scheme" and a q xs b ys
  assume a: "ready s (a # q)" "q @ [a] = xs @ b # ys" "\<forall>x \<in> set xs. \<not> executing s x" "executing s b"
  have "executing (s\<lparr>rq := rq_of (b # ys @ xs)\<rparr>) = executing s" by (rule ext) simp
  with rq_rotate_next [OF a] ready_nth show "\<exists>s'. rq_rotate s = Some s' \<and> ready s' (b # ys @ xs)
      \<and> executing s' = executing s \<and> rq s' ! 0 = Some b"
    by blast
qed

section \<open>The scheduler's effect\<close>

text \<open>Process tables that differ in the minor priorities only.\<close>

definition but_prio :: "pcb_t list \<Rightarrow> pcb_t list" where
  "but_prio t = map (\<lambda>x. x\<lparr>prio := 0\<rparr>) t"

lemma but_prio_nth:
  assumes "but_prio t' = but_prio t" and "p < length t"
  shows "pid (t' ! p) = pid (t ! p)" "prt (t' ! p) = prt (t ! p)" "ctx (t' ! p) = ctx (t ! p)"
    "pst (t' ! p) = pst (t ! p)" "defp (t' ! p) = defp (t ! p)" "fd (t' ! p) = fd (t ! p)"
proof -
  have "length t' = length t" using assms(1) by (metis but_prio_def length_map)
  then have "(t' ! p)\<lparr>prio := 0\<rparr> = (t ! p)\<lparr>prio := 0\<rparr>"
    using assms by (metis but_prio_def nth_map)
  then show "pid (t' ! p) = pid (t ! p)" "prt (t' ! p) = prt (t ! p)" "ctx (t' ! p) = ctx (t ! p)"
    "pst (t' ! p) = pst (t ! p)" "defp (t' ! p) = defp (t ! p)" "fd (t' ! p) = fd (t ! p)"
    by (metis pcb_t.select_convs pcb_t.surjective pcb_t.update_convs(6))+
qed

lemma but_prio_length: "but_prio t' = but_prio t \<Longrightarrow> length t' = length t"
  by (metis but_prio_def length_map)

lemma but_prio_update: "p < length t \<Longrightarrow> but_prio (t[p := (t ! p)\<lparr>prio := v\<rparr>]) = but_prio t"
  by (simp add: but_prio_def map_update list_update_same_conv)

lemma upd_pcb_Some [simp]: "p < length (pcb s) \<Longrightarrow> upd_pcb p f s = Some (s\<lparr>pcb := (pcb s)[p := f (pcb s ! p)]\<rparr>)"
  by (simp add: upd_pcb_def)

text \<open>The loop that gives every queued process its default priority back.\<close>

lemma renew_prios_ready:
  assumes "ready s q" and "h < 8"
  shows "\<exists>t. renew_prios h s = Some (s\<lparr>pcb := t\<rparr>) \<and> but_prio t = but_prio (pcb s)"
proof (cases "prio (pcb s ! h) = 0")
  case True
  let ?body = "\<lambda>i s. do { e \<leftarrow> arr (rq s) i; e \<leftarrow> e; upd_pcb e (\<lambda>x. x\<lparr>prio := defp x\<rparr>) s }"
  let ?P = "\<lambda>i s'. \<exists>t. s' = s\<lparr>pcb := t\<rparr> \<and> but_prio t = but_prio (pcb s)"
  have "\<exists>s'. for_each [0..<length q] ?body s = Some s' \<and> ?P (length q) s'"
  proof (rule for_each_upt)
    show "?P 0 s" by (auto intro!: exI [of _ "pcb s"])
  next
    fix i s1 assume i: "i < length q" and "?P i s1"
    then obtain t where t: "s1 = s\<lparr>pcb := t\<rparr>" "but_prio t = but_prio (pcb s)" by blast
    have len: "length t = 8" using but_prio_length [OF t(2)] assms by (simp add: ready_def)
    have "q ! i \<in> set q" using i by simp
    then have q: "q ! i < 8" using assms by (simp add: ready_def)
    have "i < length (rq s)" "rq s ! i = Some (q ! i)" using assms i by (simp_all add: ready_def nth_rq_of)
    then have "?body i s1 = Some (s\<lparr>pcb := t[q ! i := (t ! (q ! i))\<lparr>prio := defp (t ! (q ! i))\<rparr>]\<rparr>)"
      using t(1) len q by simp
    moreover have "but_prio (t[q ! i := (t ! (q ! i))\<lparr>prio := defp (t ! (q ! i))\<rparr>]) = but_prio (pcb s)"
      using t(2) len q by (simp add: but_prio_update)
    ultimately show "\<exists>s'. ?body i s1 = Some s' \<and> ?P (Suc i) s'" by blast
  qed
  then show ?thesis using ready_size [OF assms(1)] True assms by (auto simp: renew_prios_def ready_def)
next
  case False
  then show ?thesis using assms by (auto simp: renew_prios_def ready_def intro!: exI [of _ "pcb s"])
qed

text \<open>Where the registers of process \<open>p\<close> are: in the interrupted context while it runs, in
  the process table otherwise.\<close>

definition proc_ctx :: "ctx_t \<Rightarrow> 'a procs_scheme \<Rightarrow> nat \<Rightarrow> ctx_t" where
  "proc_ctx c s p = (if current s = Some p then c else ctx (pcb s ! p))"

definition running :: "'a procs_scheme \<Rightarrow> bool" where
  "running s \<longleftrightarrow> (\<exists>p < PROCESS_LIMIT. current s = Some p \<and> pid (pcb s ! p) = of_nat p)"

lemma ready_but_prio:
  assumes "ready s q" and "but_prio t = but_prio (pcb s)"
  shows "ready (s\<lparr>pcb := t\<rparr>) q"
  using assms but_prio_length [OF assms(2)] but_prio_nth(1) [OF assms(2)] by (auto simp: ready_def)

lemma scheduler_next:
  assumes "ready s (a # q)" and "running s" and "q @ [a] = xs @ b # ys" and "\<forall>x \<in> set xs. \<not> executing s x"
    and "executing s b"
  shows "\<exists>c' s'. scheduler c s = Some (c', s') \<and> ready s' (b # ys @ xs) \<and> running s'
    \<and> current s' = Some b \<and> (\<forall>p<8. proc_ctx c' s' p = proc_ctx c s p)
    \<and> (\<forall>p<8. pst (pcb s' ! p) = pst (pcb s ! p) \<and> pid (pcb s' ! p) = pid (pcb s ! p)
          \<and> defp (pcb s' ! p) = defp (pcb s ! p) \<and> fd (pcb s' ! p) = fd (pcb s ! p))
    \<and> procs.more s' = procs.more s \<and> dsk s' = dsk s \<and> fs s' = fs s"
proof -
  let ?s = "s\<lparr>rq := rq_of (b # ys @ xs)\<rparr>"
  note rot = rq_rotate_next [OF assms(1,3,4,5)]
  have b: "rq ?s ! 0 = Some b" "length (rq ?s) = 8" "b < length (pcb s)" "length (pcb s) = 8"
    using ready_nth [OF rot(2)] rot(2) by (simp_all add: ready_def)
  have bpid: "pid (pcb s ! b) = of_nat b" using rot(2) by (simp add: ready_def)
  obtain k where k: "k < 8" "current s = Some k" "pid (pcb s ! k) = of_nat k"
    using assms(2) by (auto simp: running_def)
  from renew_prios_ready [OF rot(2), of b] b obtain t where
    t: "renew_prios b ?s = Some (?s\<lparr>pcb := t\<rparr>)" "but_prio t = but_prio (pcb s)" by auto
  have len: "length t = 8" using but_prio_length [OF t(2)] b(4) by simp
  note f = but_prio_nth [OF t(2), unfolded b(4)]
  have r: "ready (?s\<lparr>pcb := u\<rparr>) (b # ys @ xs)" if "but_prio u = but_prio (pcb s)" for u
    using ready_but_prio [OF rot(2), of u] that by simp
  have go: "scheduler c s = switch_to c b (?s\<lparr>pcb := t\<rparr>)"
    using rot(1) b t(1) by (simp add: scheduler_def)
  show ?thesis
  proof (cases "b = k")
    case True
    let ?t = "t[b := (t ! b)\<lparr>prio := prio (t ! b) - 1\<rparr>]"
    have bt: "but_prio ?t = but_prio (pcb s)" using t(2) len b by (simp add: but_prio_update)
    note f' = but_prio_nth [OF bt, unfolded b(4)]
    have "scheduler c s = Some (c, ?s\<lparr>pcb := ?t\<rparr>)"
      unfolding go using k True len by (simp add: switch_to_def)
    moreover have "running (?s\<lparr>pcb := ?t\<rparr>)" using k f'(1) by (auto simp: running_def)
    ultimately show ?thesis using r [OF bt] True k(2) f' f(3)
      by (intro exI [of _ c] exI [of _ "?s\<lparr>pcb := ?t\<rparr>"]) (simp add: proc_ctx_def)
  next
    case False
    let ?t = "t[k := (t ! k)\<lparr>ctx := c\<rparr>]"
    have k': "unat (of_nat k :: u32) = k" using k(1) by (simp add: unat_of_nat_u32)
    have "scheduler c s = Some (ctx (t ! b), ?s\<lparr>pcb := ?t, current := Some b\<rparr>)"
      unfolding go using k k' b f(1) [of k] False len by (simp add: switch_to_def)
    moreover have fld: "pid (?t ! p) = pid (pcb s ! p)" "pst (?t ! p) = pst (pcb s ! p)"
      "defp (?t ! p) = defp (pcb s ! p)" "fd (?t ! p) = fd (pcb s ! p)" if "p < 8" for p
      using that f len by (cases "p = k"; simp)+
    moreover have "ready (?s\<lparr>pcb := ?t, current := Some b\<rparr>) (b # ys @ xs)"
      using rot(2) fld(1) len by (simp add: ready_def)
    moreover have "running (?s\<lparr>pcb := ?t, current := Some b\<rparr>)"
      using bpid b fld(1) [of b] by (simp add: running_def)
    moreover have "proc_ctx (ctx (t ! b)) (?s\<lparr>pcb := ?t, current := Some b\<rparr>) p = proc_ctx c s p" if "p < 8" for p
      using that f(3) k len False by (auto simp: proc_ctx_def nth_list_update)
    ultimately show ?thesis
      by (intro exI [of _ "ctx (t ! b)"] exI [of _ "?s\<lparr>pcb := ?t, current := Some b\<rparr>"]) simp
  qed
qed

text \<open>So a turn of the scheduler keeps the round-robin contract too.\<close>

definition sched_ready :: "ctx_t \<times> 'a procs_scheme \<Rightarrow> nat list \<Rightarrow> bool" where
  "sched_ready cs q \<longleftrightarrow> ready (snd cs) q \<and> running (snd cs)"

definition sched_live :: "ctx_t \<times> 'a procs_scheme \<Rightarrow> nat \<Rightarrow> bool" where
  "sched_live cs p \<longleftrightarrow> p < PROCESS_LIMIT \<and> executing (snd cs) p"

interpretation sch: round_robin "\<lambda>(c, s). scheduler c s" sched_ready sched_live "\<lambda>cs p. current (snd cs) = Some p"
proof
  fix cs :: "ctx_t \<times> 'a procs_scheme" and a q xs b ys
  assume a: "sched_ready cs (a # q)" "q @ [a] = xs @ b # ys" "\<forall>x \<in> set xs. \<not> sched_live cs x" "sched_live cs b"
  obtain c s where cs: "cs = (c, s)" by (cases cs)
  have r: "ready s (a # q)" "running s" "executing s b" using a(1,4) cs by (simp_all add: sched_ready_def sched_live_def)
  have "set (xs @ b # ys) \<subseteq> {..<8}" unfolding a(2) [symmetric] using r(1) by (auto simp: ready_def)
  then have "\<forall>x \<in> set xs. \<not> executing s x" using a(3) cs by (auto simp: sched_live_def)
  from scheduler_next [OF r(1,2) a(2) this r(3), of c] obtain c' s' where
    s': "scheduler c s = Some (c', s')" "ready s' (b # ys @ xs)" "running s'" "\<forall>p<8. pst (pcb s' ! p) = pst (pcb s ! p)"
      "current s' = Some b" by blast
  have "sched_live (c', s') = sched_live cs"
    using s'(4) by (intro ext) (auto simp: sched_live_def cs executing_def)
  with s' cs show "\<exists>cs'. (case cs of (c, s) \<Rightarrow> scheduler c s) = Some cs' \<and> sched_ready cs' (b # ys @ xs)
      \<and> sched_live cs' = sched_live cs \<and> current (snd cs') = Some b"
    by (auto simp: sched_ready_def)
qed

section \<open>Queueing and removing\<close>

lemma of_nat_small_eq: "m < 8 \<Longrightarrow> n < 8 \<Longrightarrow> (of_nat m :: u32) = of_nat n \<longleftrightarrow> m = n"
  by (simp add: word_unat_eq_iff unat_of_nat_u32)

lemma rq_add_ready:
  assumes "ready s q" and "p \<notin> set q" and "p < 8" and "pid (pcb s ! p) = of_nat p"
  shows "rq_add p s = Some (s\<lparr>rq := rq_of (q @ [p]), rq_size := of_nat (length (q @ [p]))\<rparr>)"
    and "ready (s\<lparr>rq := rq_of (q @ [p]), rq_size := of_nat (length (q @ [p]))\<rparr>) (q @ [p])"
proof -
  have q: "length q \<le> 8" "rq s = rq_of q" "rq_size s = of_nat (length q)" "distinct q" "set q \<subseteq> {..<8}"
    using assms(1) by (auto simp: ready_def)
  have "card (set (p # q)) \<le> card {..<8 :: nat}" using q(5) assms(3) by (intro card_mono) auto
  then have len: "length q < 8" using q(4) assms(2) by (simp add: distinct_card)
  then have "rq_size s < 8" using q(3) by (simp add: word_less_nat_alt unat_of_nat_u32)
  moreover have "(rq_of q)[length q := Some p] = rq_of (q @ [p])"
    using len by (intro rq_of_eqI) (auto simp: nth_rq_of nth_append nth_list_update)
  ultimately show "rq_add p s = Some (s\<lparr>rq := rq_of (q @ [p]), rq_size := of_nat (length (q @ [p]))\<rparr>)"
    using q len by (simp add: rq_add_def unat_of_nat_u32)
  show "ready (s\<lparr>rq := rq_of (q @ [p]), rq_size := of_nat (length (q @ [p]))\<rparr>) (q @ [p])"
    using assms len by (auto simp: ready_def)
qed

lemma ready_remove:
  assumes "ready s q"
  shows "ready (s\<lparr>rq := rq_of (remove1 p q), rq_size := of_nat (length (remove1 p q))\<rparr>) (remove1 p q)"
  using assms by (auto simp: ready_def length_remove1 dest: notin_set_remove1)

lemma rq_rm_turn_ready:
  assumes "ready s q" and "p < 8" and "p \<notin> set (take k q)"
  shows "rq_rm_turn (of_nat p) k s = (if k < length q \<and> q ! k = p
    then Some (s\<lparr>rq := rq_of (remove1 p q), rq_size := of_nat (length (remove1 p q))\<rparr>) else Some s)"
proof (cases "k < length q")
  case k: True
  have q: "length q \<le> 8" "rq s = rq_of q" "length (pcb s) = 8" "rq_size s = of_nat (length q)"
    and pid: "q ! k < 8" "pid (pcb s ! (q ! k)) = of_nat (q ! k)"
    using assms(1) k by (simp_all add: ready_def)
  have ent: "rq s ! k = Some (q ! k)" "k < length (rq s)" using q k by (simp_all add: nth_rq_of)
  show ?thesis
  proof (cases "q ! k = p")
    case True
    have rm: "remove1 p q = take k q @ drop (Suc k) q"
      using k True assms(3) by (metis id_take_nth_drop remove1.simps(2) remove1_append)
    obtain m where m: "length q = Suc m" using k by (cases q) auto
    have mem: "p \<in> set q" using k True nth_mem by blast
    have "rq_size s - 1 = of_nat m" using q(4) m by simp
    then have e: "unat (rq_size s - 1) = length q - 1" "rq_size s - 1 = of_nat (length (remove1 p q))"
      using q(1) m mem by (simp_all add: unat_of_nat_u32 length_remove1)
    have "length q - 1 < 8" using q(1) m by simp
    with rq_moves [of "length q - 1" s k] q obtain r where
      r: "for_each [k..<length q - 1] rq_move s = Some (s\<lparr>rq := r\<rparr>)" "length r = 8"
        "\<forall>i<8. r ! i = rq_of q ! (if k \<le> i \<and> i < length q - 1 then Suc i else i)" by auto
    have "r[length q - 1 := None] = rq_of (remove1 p q)"
    proof (rule rq_of_eqI)
      fix i :: nat assume "i < 8"
      with r(2,3) k q(1) show "r[length q - 1 := None] ! i =
          (if i < length (remove1 p q) then Some (remove1 p q ! i) else None)"
        by (auto simp: rm nth_rq_of nth_append nth_list_update min_def)
    qed (use r q k in \<open>auto simp: length_remove1\<close>)
    with r(1,2) e ent pid q(3) k True q(1) m show ?thesis
      by (simp add: rq_rm_turn_def ready_size [OF assms(1)])
  next
    case False
    then have "(of_nat (q ! k) :: u32) \<noteq> of_nat p" using pid(1) assms(2) by (simp add: of_nat_small_eq)
    with False k ent pid q(3) show ?thesis by (simp add: rq_rm_turn_def ready_size [OF assms(1)])
  qed
next
  case False
  then show ?thesis by (simp add: rq_rm_turn_def ready_size [OF assms(1)])
qed

lemma rq_rm_ready:
  assumes "ready s q" and "p < 8"
  shows "rq_rm (of_nat p) s = Some (s\<lparr>rq := rq_of (remove1 p q), rq_size := of_nat (length (remove1 p q))\<rparr>)"
proof -
  let ?s = "s\<lparr>rq := rq_of (remove1 p q), rq_size := of_nat (length (remove1 p q))\<rparr>"
  let ?P = "\<lambda>k s'. s' = s \<and> p \<notin> set (take k q) \<or> s' = ?s \<and> p \<in> set (take k q)"
  have d: "distinct q" using assms(1) by (simp add: ready_def)
  then have gone: "p \<notin> set (remove1 p q)" by simp
  have "\<exists>s'. for_each [0..<length q] (rq_rm_turn (of_nat p)) s = Some s' \<and> ?P (length q) s'"
  proof (rule for_each_upt)
    fix k s' assume k: "k < length q" and "?P k s'"
    then consider "s' = s" "p \<notin> set (take k q)" | "s' = ?s" "p \<in> set (take k q)" by blast
    then show "\<exists>s''. rq_rm_turn (of_nat p) k s' = Some s'' \<and> ?P (Suc k) s''"
    proof cases
      case 1
      then show ?thesis using rq_rm_turn_ready [OF assms 1(2)] k by (simp add: take_Suc_conv_app_nth)
    next
      case 2
      have "p \<notin> set (take k (remove1 p q))" using gone by (meson in_set_takeD)
      then have "rq_rm_turn (of_nat p) k ?s = Some ?s"
        using rq_rm_turn_ready [OF ready_remove [OF assms(1)] assms(2), where k = k] gone nth_mem by fastforce
      with 2 k show ?thesis by (simp add: take_Suc_conv_app_nth)
    qed
  qed simp
  then obtain s' where s': "rq_rm (of_nat p) s = Some s'" "?P (length q) s'"
    using ready_size [OF assms(1)] by (auto simp: rq_rm_def)
  show ?thesis
  proof (cases "p \<in> set q")
    case False
    with s' assms(1) show ?thesis by (simp add: remove1_idem ready_def)
  qed (use s' in simp)
qed

section \<open>The invariant of the process table\<close>

definition sched_inv :: "'a procs_scheme \<Rightarrow> nat list \<Rightarrow> bool" where
  "sched_inv s q \<longleftrightarrow> ready s q \<and> running s \<and> (\<forall>p \<in> set q. pst (pcb s ! p) \<noteq> TERMINATED)"

lemma pid_upd: "pid x = pid (t ! p) \<Longrightarrow> pid (t[p := x] ! k) = pid (t ! k)"
  by (cases "p < length t") (auto simp: nth_list_update list_update_beyond)

lemma ready_upd_pcb: "ready s q \<Longrightarrow> pid x = pid (pcb s ! p) \<Longrightarrow> ready (s\<lparr>pcb := (pcb s)[p := x]\<rparr>) q"
  by (simp add: ready_def pid_upd)

lemma running_upd_pcb: "running s \<Longrightarrow> pid x = pid (pcb s ! p) \<Longrightarrow> running (s\<lparr>pcb := (pcb s)[p := x]\<rparr>)"
  by (simp add: running_def pid_upd)

text \<open>\<open>kill\<close> on a process number, branch by branch.\<close>

lemma kill_range:
  assumes "ready s q" and "p < 8"
  shows "kill (of_nat p) sig s =
    (if sig = SIGKILL then Some (s\<lparr>pcb := (pcb s)[p := (pcb s ! p)\<lparr>pst := TERMINATED\<rparr>],
        rq := rq_of (remove1 p q), rq_size := of_nat (length (remove1 p q))\<rparr>)
     else if sig = SIGWAIT then Some (s\<lparr>pcb := (pcb s)[p := (pcb s ! p)\<lparr>pst := WAITING\<rparr>]\<rparr>)
     else if sig = SIGCONT then Some (s\<lparr>pcb := (pcb s)[p := if pst (pcb s ! p) = WAITING
        then (pcb s ! p)\<lparr>pst := EXECUTING\<rparr> else pcb s ! p]\<rparr>)
     else if sig = SIGPRI0 then Some (s\<lparr>pcb := (pcb s)[p := (pcb s ! p)\<lparr>defp := 0, prio := 0\<rparr>]\<rparr>)
     else Some s)"
proof -
  have u: "unat (of_nat p :: u32) = p" using assms(2) by (simp add: unat_of_nat_u32)
  then have s: "sint (of_nat p :: u32) = int p" using assms(2) by (simp add: sint_of_unat)
  have "ready (s\<lparr>pcb := (pcb s)[p := (pcb s ! p)\<lparr>pst := TERMINATED\<rparr>]\<rparr>) q"
    by (intro ready_upd_pcb [OF assms(1)]) simp
  from rq_rm_ready [OF this assms(2)] show ?thesis
    using assms u s by (simp add: kill_def ready_def)
qed

lemma kill_cases:
  assumes "kill i sig s = Some s'" and "length (pcb s) = 8" and "\<not> (i = 9 \<and> sig = SIGKILL)"
  obtains p where "p < 8" "i = of_nat p" | "s' = s"
proof (cases "unat i < 8")
  case True
  then show ?thesis using that(1) [of "unat i"] by simp
next
  case False
  show ?thesis
  proof (cases "unat i < 9")
    case True
    with False have "unat i = 8" by simp
    moreover have "0 \<le> sint i \<and> sint i \<le> 8" using True sint_range_unat [of 9 i] by simp
    ultimately show ?thesis using assms that(2) by (simp add: kill_def upd_pcb_def arr_def split: if_splits)
  next
    case False
    then have "\<not> (0 \<le> sint i \<and> sint i \<le> 8)" using sint_range_unat [of 9 i] by auto
    with assms that(2) show ?thesis by (simp add: kill_def split: if_splits)
  qed
qed

lemma kill_inv:
  assumes "sched_inv s q" and "p < 8" and "kill (of_nat p) sig s = Some s'"
  shows "sched_inv s' (if sig = SIGKILL then remove1 p q else q)"
proof -
  let ?upd = "\<lambda>x. s\<lparr>pcb := (pcb s)[p := x]\<rparr>"
  from assms(1) have r: "ready s q" and run: "running s" and live: "\<forall>p \<in> set q. pst (pcb s ! p) \<noteq> TERMINATED"
    by (simp_all add: sched_inv_def)
  have len: "length (pcb s) = 8" "distinct q" using r by (simp_all add: ready_def)
  have keep: "sched_inv (?upd x) q" if "pid x = pid (pcb s ! p)" "pst x \<noteq> TERMINATED \<or> p \<notin> set q" for x
    using that ready_upd_pcb [OF r] running_upd_pcb [OF run] live len assms(2)
    by (auto simp: sched_inv_def nth_list_update)
  have "p \<in> set q \<Longrightarrow> pst (pcb s ! p) \<noteq> TERMINATED" using live by simp
  then have same: "sched_inv (?upd (if pst (pcb s ! p) = WAITING then (pcb s ! p)\<lparr>pst := EXECUTING\<rparr> else pcb s ! p)) q"
    "sched_inv (?upd ((pcb s ! p)\<lparr>pst := WAITING\<rparr>)) q" "sched_inv (?upd ((pcb s ! p)\<lparr>defp := 0, prio := 0\<rparr>)) q"
    by (intro keep; auto)+
  let ?x = "(pcb s ! p)\<lparr>pst := TERMINATED\<rparr>"
  have "ready ((?upd ?x)\<lparr>rq := rq_of (remove1 p q), rq_size := of_nat (length (remove1 p q))\<rparr>) (remove1 p q)"
    by (intro ready_remove ready_upd_pcb [OF r]) simp
  moreover have "running ((?upd ?x)\<lparr>rq := rq_of (remove1 p q), rq_size := of_nat (length (remove1 p q))\<rparr>)"
    using running_upd_pcb [OF run, of ?x p] by (simp add: running_def)
  moreover have "pst ((pcb s)[p := ?x] ! k) \<noteq> TERMINATED" if "k \<in> set (remove1 p q)" for k
    using that live len by (auto simp: nth_list_update)
  ultimately have "sched_inv ((?upd ?x)\<lparr>rq := rq_of (remove1 p q), rq_size := of_nat (length (remove1 p q))\<rparr>) (remove1 p q)"
    by (simp add: sched_inv_def)
  with same assms(1,3) show ?thesis by (auto simp: kill_range [OF r assms(2)] split: if_splits)
qed

text \<open>\<open>fork\<close> takes the first terminated slot.\<close>

lemma fork_find:
  assumes "length (pcb s) = 8"
  shows "fork c s = (case find (\<lambda>p. pst (pcb s ! p) = TERMINATED) [0..<8] of
    None \<Rightarrow> Some (-1, s) | Some p \<Rightarrow> fork_at p c s)"
proof -
  have "fork_loop ps c s = (case find (\<lambda>p. pst (pcb s ! p) = TERMINATED) ps of
      None \<Rightarrow> Some (-1, s) | Some p \<Rightarrow> fork_at p c s)" if "set ps \<subseteq> {..<8}" for ps
    using that assms by (induction ps) auto
  from this [of "[0..<8]"] show ?thesis unfolding fork_def by fastforce
qed

definition child_of :: "nat \<Rightarrow> nat \<Rightarrow> ctx_t \<Rightarrow> pcb_t \<Rightarrow> pcb_t" where
  "child_of parent p c x = x\<lparr>pid := of_nat p, prt := of_nat parent, ctx := c\<lparr>gpr := (gpr c)[0 := 0]\<rparr>,
     pst := EXECUTING, defp := 0x7FFFFFFF, prio := 0x7FFFFFFF\<rparr>"

lemma fork_at_inv:
  assumes "sched_inv s q" and "p < 8" and "pst (pcb s ! p) = TERMINATED" and "gpr c \<noteq> []"
    and cur: "current s = Some k"
  defines "s' \<equiv> s\<lparr>pcb := (pcb s)[p := child_of k p c (pcb s ! p)],
      rq := rq_of (q @ [p]), rq_size := of_nat (length (q @ [p]))\<rparr>"
  shows "fork_at p c s = Some (of_nat p, s')" and "sched_inv s' (q @ [p])"
proof -
  let ?t = "(pcb s)[p := child_of k p c (pcb s ! p)]"
  from assms(1) have r: "ready s q" and run: "running s" and live: "\<forall>p \<in> set q. pst (pcb s ! p) \<noteq> TERMINATED"
    by (simp_all add: sched_inv_def)
  have len: "length (pcb s) = 8" using r by (simp add: ready_def)
  have k: "k < 8" "pid (pcb s ! k) = of_nat k" using run cur by (auto simp: running_def)
  have p: "p \<notin> set q" using live assms(3) by auto
  have "pid (?t ! j) = pid (pcb s ! j)" if "j \<in> set q" for j
    using that p by (cases "j = p") simp_all
  then have "ready (s\<lparr>pcb := ?t\<rparr>) q" using r by (simp add: ready_def)
  from rq_add_ready [OF this p assms(2)] len assms(2)
  have add: "rq_add p (s\<lparr>pcb := ?t\<rparr>) = Some s'" "ready s' (q @ [p])"
    by (simp_all add: child_of_def s'_def)
  have g: "arr_upd (gpr c) 0 0 = Some ((gpr c)[0 := 0])" using assms(4) by simp
  have "pid ((pcb s)[p := (pcb s ! p)\<lparr>pid := of_nat p\<rparr>] ! k) = of_nat k"
    using k len assms(2) by (cases "k = p") simp_all
  then show "fork_at p c s = Some (of_nat p, s')"
    using add(1) g k len assms(2) cur by (simp add: fork_at_def child_of_def)
  have "pst (?t ! j) \<noteq> TERMINATED" if "j \<in> set (q @ [p])" for j
    using that live p len assms(2) by (cases "j = p") (auto simp: child_of_def)
  moreover have "running s'"
    using k cur len assms(2) by (cases "k = p") (auto simp: running_def child_of_def s'_def)
  ultimately show "sched_inv s' (q @ [p])" using add(2) by (simp add: sched_inv_def s'_def)
qed

section \<open>Steps\<close>

text \<open>Everything that changes the process table and the ready queue on its own: the two
  process calls, a turn of the scheduler, and the running program changing its registers.
  \<open>kill\<close> of process 9, which stands for all processes, is left out here.\<close>

inductive sched_step :: "ctx_t \<times> 'a procs_scheme \<Rightarrow> ctx_t \<times> 'a procs_scheme \<Rightarrow> bool" where
  step_fork: "fork c s = Some (r, s') \<Longrightarrow> sched_step (c, s) (c\<lparr>gpr := (gpr c)[0 := r]\<rparr>, s')"
| step_kill: "kill i sig s = Some s' \<Longrightarrow> \<not> (i = 9 \<and> sig = SIGKILL) \<Longrightarrow> sched_step (c, s) (c, s')"
| step_tick: "scheduler c s = Some (c', s') \<Longrightarrow> sched_step (c, s) (c', s')"
| step_user: "sched_step (c, s) (c', s)"

inductive_cases sched_stepE: "sched_step (c, s) (c', s')"

lemma fork_at_Some_gpr: "fork_at p c s = Some (r, s') \<Longrightarrow> gpr c \<noteq> []"
  by (auto simp: fork_at_def arr_upd_def split: Option.bind_splits if_splits)

lemma fork_inv:
  assumes "sched_inv s q" and "fork c s = Some (r, s')"
  shows "\<exists>q'. sched_inv s' q'"
proof -
  have len: "length (pcb s) = 8" using assms(1) by (simp add: sched_inv_def ready_def)
  obtain k where k: "current s = Some k" using assms(1) by (auto simp: sched_inv_def running_def)
  show ?thesis
  proof (cases "find (\<lambda>p. pst (pcb s ! p) = TERMINATED) [0..<8]")
    case None
    with assms fork_find [OF len, of c] show ?thesis by (auto simp del: upt_rec_numeral)
  next
    case (Some p)
    then have p: "p < 8" "pst (pcb s ! p) = TERMINATED" by (auto simp: find_Some_iff simp del: upt_rec_numeral)
    have "fork_at p c s = Some (r, s')" using assms(2) fork_find [OF len, of c] Some by simp
    with fork_at_Some_gpr [OF this] fork_at_inv [OF assms(1) p _ k, of c] show ?thesis by auto
  qed
qed

lemma first_executing:
  assumes "ready s q" and "\<exists>p \<in> set q. executing s p"
  defines "r \<equiv> tl q @ [hd q]"
  obtains a q0 b where "q = a # q0" and "r = takeWhile (\<lambda>p. \<not> executing s p) r @ b # tl (dropWhile (\<lambda>p. \<not> executing s p) r)"
    and "\<forall>x \<in> set (takeWhile (\<lambda>p. \<not> executing s p) r). \<not> executing s x" and "executing s b"
    and "find (executing s) r = Some b"
proof -
  let ?n = "\<lambda>p. \<not> executing s p"
  obtain a q0 where q: "q = a # q0" using assms(2) by (cases q) auto
  have "dropWhile ?n r \<noteq> []" using assms(2) q by (auto simp: dropWhile_eq_Nil_conv r_def)
  then obtain b ys where b: "dropWhile ?n r = b # ys" by (meson neq_Nil_conv)
  have e: "executing s b" using b by (metis hd_dropWhile list.distinct(1) list.sel(1))
  have f: "find (executing s) r = Some b" using b by (simp add: find_dropWhile comp_def)
  have r: "r = takeWhile ?n r @ b # tl (dropWhile ?n r)"
    using takeWhile_dropWhile_id [of ?n r] unfolding b by simp
  show ?thesis by (rule that [OF q r _ e f]) (blast dest: set_takeWhileD)
qed

lemma scheduler_first:
  assumes "sched_inv s q" and "\<exists>p \<in> set q. executing s p"
  defines "r \<equiv> tl q @ [hd q]"
  shows "\<exists>c' s' b. scheduler c s = Some (c', s') \<and> find (executing s) r = Some b \<and> current s' = Some b
    \<and> sched_inv s' (dropWhile (\<lambda>p. \<not> executing s p) r @ takeWhile (\<lambda>p. \<not> executing s p) r)
    \<and> (\<forall>p<8. proc_ctx c' s' p = proc_ctx c s p)
    \<and> (\<forall>p<8. pst (pcb s' ! p) = pst (pcb s ! p) \<and> pid (pcb s' ! p) = pid (pcb s ! p)
          \<and> defp (pcb s' ! p) = defp (pcb s ! p) \<and> fd (pcb s' ! p) = fd (pcb s ! p))"
proof -
  have i: "ready s q" "running s" "\<forall>p \<in> set q. pst (pcb s ! p) \<noteq> TERMINATED"
    using assms(1) by (simp_all add: sched_inv_def)
  let ?n = "\<lambda>p. \<not> executing s p"
  from first_executing [OF i(1) assms(2)] obtain a q0 b where f: "q = a # q0"
    "r = takeWhile ?n r @ b # tl (dropWhile ?n r)" "\<forall>x \<in> set (takeWhile ?n r). \<not> executing s x"
    "executing s b" "find (executing s) r = Some b" unfolding r_def by blast
  have d: "b # tl (dropWhile ?n r) = dropWhile ?n r"
    using f(2) by (metis append_same_eq same_append_eq takeWhile_dropWhile_id)
  have "q0 @ [a] = takeWhile ?n r @ b # tl (dropWhile ?n r)" using f(1,2) by (simp add: r_def)
  from scheduler_next [OF i(1) [unfolded f(1)] i(2) this f(3,4), of c] obtain c' s' where
    s: "scheduler c s = Some (c', s')" "ready s' (dropWhile ?n r @ takeWhile ?n r)" "running s'" "current s' = Some b"
      "\<forall>p<8. proc_ctx c' s' p = proc_ctx c s p"
      "\<forall>p<8. pst (pcb s' ! p) = pst (pcb s ! p) \<and> pid (pcb s' ! p) = pid (pcb s ! p)
        \<and> defp (pcb s' ! p) = defp (pcb s ! p) \<and> fd (pcb s' ! p) = fd (pcb s ! p)"
    by (auto simp flip: append_Cons simp: d)
  have "set (dropWhile ?n r @ takeWhile ?n r) = set r"
    by (metis Un_commute set_append takeWhile_dropWhile_id)
  also have "\<dots> = set q" by (auto simp: r_def f(1))
  finally have "set (dropWhile ?n r @ takeWhile ?n r) = set q" .
  then have "\<forall>p \<in> set (dropWhile ?n r @ takeWhile ?n r). p < 8 \<and> pst (pcb s ! p) \<noteq> TERMINATED"
    using i by (simp add: ready_def)
  then have "sched_inv s' (dropWhile ?n r @ takeWhile ?n r)" using s(2,3,6) by (simp add: sched_inv_def)
  with s f(5) show ?thesis by blast
qed

lemma scheduler_inv:
  assumes "sched_inv s q" and "scheduler c s = Some (c', s')"
  shows "\<exists>q'. sched_inv s' q'"
proof -
  have "\<not> (\<forall>p \<in> set q. \<not> executing s p)"
  proof
    assume "\<forall>p \<in> set q. \<not> executing s p"
    with assms(1) have "rq_rotate s = None" by (intro rq_rotate_none) (simp_all add: sched_inv_def)
    with assms(2) show False by (simp add: scheduler_def)
  qed
  then have "\<exists>p \<in> set q. executing s p" by simp
  from scheduler_first [OF assms(1) this, of c] assms(2) show ?thesis by auto
qed

lemma sched_step_inv:
  assumes "sched_step (c, s) (c', s')" and "sched_inv s q"
  shows "\<exists>q'. sched_inv s' q'"
  using assms(1)
proof cases
  case (step_kill i sig)
  have "length (pcb s) = 8" using assms(2) by (simp add: sched_inv_def ready_def)
  from kill_cases [OF step_kill(2) this step_kill(3)] kill_inv [OF assms(2)] step_kill(2) assms(2)
  show ?thesis by metis
qed (use assms(2) fork_inv scheduler_inv in blast)+

section \<open>Properties\<close>

text \<open>An example: after a boot and two forks, process 1 has been made to wait.\<close>

definition zero_ctx :: ctx_t where
  "zero_ctx = \<lparr>cpsr = 0, pc = 0, gpr = replicate 13 0, sp = 0, lr = 0\<rparr>"

definition zero_pcb :: pcb_t where
  "zero_pcb = \<lparr>pid = 0, prt = 0, ctx = zero_ctx, pst = TERMINATED, defp = 0, prio = 0, fd = replicate 16 None\<rparr>"

definition three_procs :: procs where
  "three_procs = \<lparr>dsk = \<lparr>dnum = 0, dblk = \<lambda>_. []\<rparr>, fs = bytes_fs [],
     pcb = [zero_pcb\<lparr>pst := EXECUTING\<rparr>, zero_pcb\<lparr>pid := 1, pst := WAITING\<rparr>, zero_pcb\<lparr>pid := 2, pst := EXECUTING\<rparr>]
       @ replicate 5 zero_pcb,
     current = Some 0, rq = rq_of [0, 1, 2], rq_size = 3\<rparr>"

lemma three_procs_inv: "sched_inv three_procs [0, 1, 2]"
  by (auto simp: sched_inv_def ready_def running_def three_procs_def zero_pcb_def intro!: exI [of _ 0])

lemma three_procs_simps [simp]:
  "executing three_procs 0" "\<not> executing three_procs (Suc 0)" "executing three_procs 2" "current three_procs = Some 0"
  by (simp_all add: executing_def three_procs_def zero_pcb_def)

text \<open>C20. The scheduler. Whenever some queued process is executing, \<open>scheduler\<close> returns, and
  the process it resumes is the next executing one in round-robin order after the head of the
  queue; the processes it passed over and the old head go to the back in order. No process
  loses its registers: the context of every process, wherever it is kept, is the same before
  and after, and the context the handler resumes is the new current process's own. Process
  states, numbers, default priorities and descriptor tables are unchanged.\<close>

theorem scheduler_spec:
  assumes "sched_inv s q" and "\<exists>p \<in> set q. executing s p"
  defines "r \<equiv> tl q @ [hd q]"
  shows "\<exists>c' s' b. scheduler c s = Some (c', s') \<and> find (executing s) r = Some b \<and> current s' = Some b
    \<and> sched_inv s' (dropWhile (\<lambda>p. \<not> executing s p) r @ takeWhile (\<lambda>p. \<not> executing s p) r)
    \<and> (\<forall>p<8. proc_ctx c' s' p = proc_ctx c s p)
    \<and> (\<forall>p<8. pst (pcb s' ! p) = pst (pcb s ! p) \<and> pid (pcb s' ! p) = pid (pcb s ! p)
          \<and> defp (pcb s' ! p) = defp (pcb s ! p) \<and> fd (pcb s' ! p) = fd (pcb s ! p))"
  using scheduler_first [OF assms(1,2)] unfolding r_def .

theorem scheduler_spec_witness:
  "\<exists>c' s'. scheduler zero_ctx three_procs = Some (c', s') \<and> current s' = Some 2 \<and> sched_inv s' [2, 0, 1]"
  using scheduler_spec [OF three_procs_inv, of zero_ctx] by auto

text \<open>Fairness. If process \<open>p\<close> is executing and queued, and only the scheduler runs, then
  \<open>p\<close> is the current process after at most as many turns as the queue is long.\<close>

lemma scheduler_fair:
  assumes "sched_inv s q" and "p \<in> set q" and "executing s p"
  shows "\<exists>k c' s'. 0 < k \<and> k \<le> length q \<and> iter_opt k (\<lambda>(c, s). scheduler c s) (c, s) = Some (c', s')
    \<and> current s' = Some p \<and> proc_ctx c' s' p = c'"
proof -
  have "sched_ready (c, s) q" "sched_live (c, s) p"
    using assms by (auto simp: sched_ready_def sched_live_def sched_inv_def ready_def)
  from sch.fair [OF this(1) assms(2) this(2)] show ?thesis by (auto simp: proc_ctx_def)
qed

text \<open>The process table stays consistent: along any sequence of \<open>fork\<close>, \<open>kill\<close> (of one
  process), scheduler turns and steps of the running program, the ready queue holds no
  process twice, only processes that are not terminated, its entries are packed at the front
  and counted by \<open>rq_size\<close>, and every queued process carries its own number.\<close>

lemma sched_inv_reachable:
  assumes "sched_inv s q" and "sched_step\<^sup>*\<^sup>* (c, s) (c', s')"
  shows "\<exists>q'. sched_inv s' q'"
  using assms(2)
proof (induction rule: rtranclp_induct2)
  case refl
  then show ?case using assms(1) by blast
next
  case (step c1 s1 c2 s2)
  then show ?case using sched_step_inv by blast
qed

text \<open>C21. The scheduler returns exactly when some queued process is executing. When every queued
  process waits, \<open>rq_rotate\<close> calls itself for ever.\<close>

theorem scheduler_returns_iff:
  assumes "sched_inv s q"
  shows "scheduler c s \<noteq> None \<longleftrightarrow> (\<exists>p \<in> set q. executing s p)"
proof
  assume "\<exists>p \<in> set q. executing s p"
  from scheduler_first [OF assms this, of c] show "scheduler c s \<noteq> None" by auto
next
  assume ret: "scheduler c s \<noteq> None"
  show "\<exists>p \<in> set q. executing s p"
  proof (rule ccontr)
    assume "\<not> (\<exists>p \<in> set q. executing s p)"
    with assms have "rq_rotate s = None" by (intro rq_rotate_none) (auto simp: sched_inv_def)
    with ret show False by (simp add: scheduler_def)
  qed
qed

theorem scheduler_returns_iff_witness:
  "sched_inv three_procs [0, 1, 2] \<and> scheduler zero_ctx three_procs \<noteq> None"
  using scheduler_returns_iff [OF three_procs_inv, of zero_ctx] three_procs_inv by simp

text \<open>C22. \<open>fork\<close>: the child takes the lowest terminated slot, gets a copy of the caller's
  registers with 0 in the first one, is executing and goes to the end of the ready queue; the
  call returns the child's number. It keeps the slot's old descriptor table. When no slot is
  terminated the call returns -1 and nothing changes.\<close>

theorem fork_spec:
  assumes "sched_inv s q" and "current s = Some k" and "gpr c \<noteq> []"
  shows "case find (\<lambda>p. pst (pcb s ! p) = TERMINATED) [0..<8] of
      None \<Rightarrow> fork c s = Some (-1, s)
    | Some p \<Rightarrow> \<exists>s'. fork c s = Some (of_nat p, s') \<and> sched_inv s' (q @ [p]) \<and> current s' = Some k
        \<and> pcb s' = (pcb s)[p := child_of k p c (pcb s ! p)] \<and> fd (pcb s' ! p) = fd (pcb s ! p)"
proof -
  have len: "length (pcb s) = 8" using assms(1) by (simp add: sched_inv_def ready_def)
  show ?thesis
  proof (cases "find (\<lambda>p. pst (pcb s ! p) = TERMINATED) [0..<8]")
    case None
    with fork_find [OF len, of c] show ?thesis by simp
  next
    case (Some p)
    then have p: "p < 8" "pst (pcb s ! p) = TERMINATED" by (auto simp: find_Some_iff simp del: upt_rec_numeral)
    from fork_at_inv [OF assms(1) p assms(3,2)] fork_find [OF len, of c] Some p len assms(2) show ?thesis
      by (simp add: child_of_def del: upt_rec_numeral)
  qed
qed

theorem fork_spec_witness:
  "\<exists>s'. fork zero_ctx three_procs = Some (3, s') \<and> sched_inv s' [0, 1, 2, 3]"
proof -
  have "find (\<lambda>p. pst (pcb three_procs ! p) = TERMINATED) [0..<8] = Some 3"
    by (simp add: three_procs_def zero_pcb_def upt_rec)
  then show ?thesis
    using fork_spec [OF three_procs_inv, of 0 zero_ctx] by (auto simp: zero_ctx_def simp del: upt_rec_numeral)
qed



lemma count_list_distinct: "distinct xs \<Longrightarrow> x \<in> set xs \<Longrightarrow> count_list xs x = 1"
  by (induction xs) auto

text \<open>\<open>kill\<close> of process 9 terminates processes 1 to 7 and does not touch the queue.\<close>

lemma kill_all:
  assumes "length (pcb s) = 8"
  shows "\<exists>t. kill 9 SIGKILL s = Some (s\<lparr>pcb := t\<rparr>) \<and> length t = 8 \<and> t ! 0 = pcb s ! 0
    \<and> (\<forall>i<8. 0 < i \<longrightarrow> t ! i = (pcb s ! i)\<lparr>pst := TERMINATED\<rparr>)"
proof -
  let ?f = "\<lambda>p. upd_pcb p (\<lambda>x. x\<lparr>pst := TERMINATED\<rparr>)"
  have loop: "\<exists>t. for_each [1..<n] ?f s = Some (s\<lparr>pcb := t\<rparr>) \<and> length t = 8
      \<and> (\<forall>i<8. t ! i = (if 0 < i \<and> i < n then (pcb s ! i)\<lparr>pst := TERMINATED\<rparr> else pcb s ! i))" if "n \<le> 8" for n
    using that
  proof (induction n)
    case 0
    then show ?case using assms by (auto intro!: exI [of _ "pcb s"])
  next
    case (Suc n)
    then obtain t where t: "for_each [1..<n] ?f s = Some (s\<lparr>pcb := t\<rparr>)" "length t = 8"
      "\<forall>i<8. t ! i = (if 0 < i \<and> i < n then (pcb s ! i)\<lparr>pst := TERMINATED\<rparr> else pcb s ! i)" by auto
    show ?case
    proof (cases "n = 0")
      case True
      then show ?thesis using assms by (auto intro!: exI [of _ "pcb s"])
    next
      case False
      then have u: "[1..<Suc n] = [1..<n] @ [n]" by simp
      have "for_each [1..<Suc n] ?f s = Some (s\<lparr>pcb := t[n := (t ! n)\<lparr>pst := TERMINATED\<rparr>]\<rparr>)"
        unfolding u for_each_append using t Suc.prems by simp
      moreover have "t[n := (t ! n)\<lparr>pst := TERMINATED\<rparr>] ! i = (if 0 < i \<and> i < Suc n then (pcb s ! i)\<lparr>pst := TERMINATED\<rparr> else pcb s ! i)"
        if "i < 8" for i using that t False Suc.prems by (cases "i = n") auto
      ultimately show ?thesis using t(2) by (intro exI [of _ "t[n := (t ! n)\<lparr>pst := TERMINATED\<rparr>]"]) simp
    qed
  qed
  have "sint (9 :: u32) = 9" using sint_of_unat [of 9] by simp
  then have "kill 9 SIGKILL s = for_each [1..<8] ?f s" by (simp add: kill_def)
  with loop [of 8] show ?thesis by auto
qed

text \<open>C24. \<open>kill\<close> of all processes leaves the terminated processes in the ready queue, so a
  later \<open>fork\<close> queues process 1 a second time.\<close>

theorem kill_all_queues_twice:
  assumes "sched_inv s q" and "1 \<in> set q" and "length q < 8" and "pst (pcb s ! 0) \<noteq> TERMINATED" and "gpr c \<noteq> []"
  shows "\<exists>s1 s2. kill 9 SIGKILL s = Some s1 \<and> fork c s1 = Some (1, s2) \<and> rq s2 = rq_of (q @ [1])
    \<and> count_list (q @ [1]) 1 = 2"
proof -
  have r: "ready s q" using assms(1) by (simp add: sched_inv_def)
  then have len: "length (pcb s) = 8" by (simp add: ready_def)
  from kill_all [OF len] obtain t where t: "kill 9 SIGKILL s = Some (s\<lparr>pcb := t\<rparr>)" "length t = 8"
    "t ! 0 = pcb s ! 0" "\<forall>i<8. 0 < i \<longrightarrow> t ! i = (pcb s ! i)\<lparr>pst := TERMINATED\<rparr>" by blast
  let ?s = "s\<lparr>pcb := t\<rparr>"
  have "[0..<8] = 0 # 1 # [2..<8 :: nat]" by (simp add: upt_rec)
  then have "find (\<lambda>p. pst (pcb ?s ! p) = TERMINATED) [0..<8] = Some 1"
    using t(3,4) assms(4) by (simp del: upt_rec_numeral)
  then have f: "fork c ?s = fork_at 1 c ?s" using fork_find [of ?s c] t(2) by (simp del: upt_rec_numeral)
  obtain k where k: "k < 8" "current s = Some k" using assms(1) by (auto simp: sched_inv_def running_def)
  have size: "rq_size s < 8" "unat (rq_size s) = length q" using r assms(3)
    by (simp_all add: ready_def word_less_nat_alt unat_of_nat_u32)
  have q: "rq s = rq_of q" "length (rq s) = 8" using r by (simp_all add: ready_def)
  have upd: "(rq_of q)[length q := Some 1] = rq_of (q @ [1])"
    using assms(3) by (intro rq_of_eqI) (auto simp: nth_rq_of nth_append nth_list_update)
  have "\<exists>s2. fork_at 1 c ?s = Some (1, s2) \<and> rq s2 = rq_of (q @ [1])"
    using t(2) k assms(3,5) size q upd by (simp add: fork_at_def rq_add_def)
  moreover have "count_list q 1 = 1"
    using r assms(2) by (simp add: ready_def count_list_distinct)
  ultimately show ?thesis using t(1) f by auto
qed

theorem kill_all_queues_twice_witness:
  "\<exists>s1 s2. kill 9 SIGKILL three_procs = Some s1 \<and> fork zero_ctx s1 = Some (1, s2) \<and> rq s2 = rq_of [0, 1, 2, 1]"
  using kill_all_queues_twice [OF three_procs_inv, of zero_ctx]
  by (auto simp: zero_ctx_def three_procs_def zero_pcb_def)

definition pcb_key :: "pcb_t option \<Rightarrow> nat \<times> nat \<times> nat \<times> nat \<times> int \<times> int" where
  "pcb_key p = (case p of None \<Rightarrow> (1, 0, 0, 0, 0, 0)
     | Some x \<Rightarrow> (0, if pst x = TERMINATED then 1 else 0, if pst x = WAITING then 1 else 0,
         if prio x = 0 then 1 else 0, - uint (defp x), sint (pid x)))"

lemma cmp_pcb_key: "cmp_pcb p q = (if pcb_key p < pcb_key q then -1 else if pcb_key q < pcb_key p then 1 else 0)"
proof (cases p)
  case None
  then show ?thesis by (cases q) (simp_all add: cmp_pcb_def pcb_key_def)
next
  case (Some x)
  show ?thesis
  proof (cases q)
    case None
    with Some show ?thesis by (simp add: cmp_pcb_def pcb_key_def)
  next
    case (Some y)
    have pos: "0 < uint (prio z) \<longleftrightarrow> prio z \<noteq> 0" for z :: pcb_t
      using word_neq_0_conv [of "prio z"] by (simp add: word_less_def)
    show ?thesis
      using Some \<open>p = Some x\<close>
      by (simp add: cmp_pcb_def pcb_key_def pos word_less_def)
  qed
qed

text \<open>\<open>cmp_pcb\<close> is a consistent comparison for \<open>qsort\<close>: swapping the arguments negates
  the result, and it orders transitively; it compares the entries by the key below, empty
  entries last, then terminated, waiting, exhausted, lower default priority, higher number.\<close>

lemma cmp_pcb_order:
  shows "cmp_pcb p q = - cmp_pcb q p
    \<and> (cmp_pcb p q \<le> 0 \<and> cmp_pcb q r \<le> 0 \<longrightarrow> cmp_pcb p r \<le> 0)
    \<and> (cmp_pcb p q \<le> 0 \<longleftrightarrow> pcb_key p \<le> pcb_key q)"
proof -
  have le: "cmp_pcb p q \<le> 0 \<longleftrightarrow> pcb_key p \<le> pcb_key q" for p q
    by (auto simp: cmp_pcb_key)
  have "cmp_pcb p q = - cmp_pcb q p" by (auto simp: cmp_pcb_key)
  with le show ?thesis by (meson order_trans)
qed

end
