(* ===== verification/Mqueue.thy ===== *)
theory Mqueue
  imports Sched
begin

text \<open>
  Message queues: \<open>mq_open\<close>, \<open>mq_unlink\<close>, \<open>mq_send\<close> and \<open>mq_receive\<close> of
  \<open>src/kernel/kernel.c\<close>. A queue holds one message of up to 64 bytes; a sender waits until
  its message is received, a receiver that finds no message waits until one is sent.

  User programs and the kernel share one flat memory, \<open>mem\<close>. The buffers a system call
  names are read and written there; the kernel's own variables are the other fields of the
  state, so the model covers calls whose buffers lie outside the kernel's data.
\<close>

abbreviation (input) MSGCHAN_LIMIT :: nat where "MSGCHAN_LIMIT \<equiv> 32"

record mqueue =
  msg_qname :: u32
  msg_qnum :: u32
  msg_qrec :: u32
  msg_lspid :: u32
  msg_lrpid :: u32
  msg_qbuf :: "byte list"

record chans = procs +
  mem :: "u32 \<Rightarrow> byte"
  mq :: "mqueue list"

section \<open>Memory\<close>

definition mem_read :: "'a chans_scheme \<Rightarrow> u32 \<Rightarrow> nat \<Rightarrow> byte list" where
  "mem_read s a n = map (\<lambda>i. mem s (a + of_nat i)) [0..<n]"

definition mem_write :: "u32 \<Rightarrow> byte list \<Rightarrow> 'a chans_scheme \<Rightarrow> 'a chans_scheme" where
  "mem_write a xs s = s\<lparr>mem := \<lambda>b. if unat (b - a) < length xs then xs ! unat (b - a) else mem s b\<rparr>"

lemma mem_read_write:
  assumes "length xs \<le> 2 ^ 32"
  shows "mem_read (mem_write a xs s) a (length xs) = xs"
proof (rule nth_equalityI)
  fix i assume "i < length (mem_read (mem_write a xs s) a (length xs))"
  then have i: "i < length xs" by (simp add: mem_read_def)
  then have "unat (of_nat i :: u32) = i" using assms by (intro unat_of_nat_u32) simp
  with i show "mem_read (mem_write a xs s) a (length xs) ! i = xs ! i"
    by (simp add: mem_read_def mem_write_def)
qed (simp add: mem_read_def)

section \<open>The operations\<close>

definition upd_mq :: "u32 \<Rightarrow> (mqueue \<Rightarrow> mqueue) \<Rightarrow> 'a chans_scheme \<Rightarrow> 'a chans_scheme option" where
  "upd_mq d f s = do {
     q \<leftarrow> arr (mq s) (unat d);
     t \<leftarrow> arr_upd (mq s) (unat d) (f q);
     Some (s\<lparr>mq := t\<rparr>)
   }"

text \<open>The search loops of \<open>mq_open\<close>: the first queue with a given name.\<close>

fun mq_find :: "u32 \<Rightarrow> nat list \<Rightarrow> 'a chans_scheme \<Rightarrow> nat option option" where
  "mq_find name [] s = Some None"
| "mq_find name (i # is) s = do {
     q \<leftarrow> arr (mq s) i;
     (if msg_qname q = name then Some (Some i) else mq_find name is s)
   }"

definition mq_open :: "u32 \<Rightarrow> 'a chans_scheme \<Rightarrow> (u32 \<times> 'a chans_scheme) option" where
  "mq_open name s = do {
     r \<leftarrow> mq_find name [0..<MSGCHAN_LIMIT] s;
     (case r of
        Some i \<Rightarrow> Some (of_nat i, s)
      | None \<Rightarrow> do {
          r \<leftarrow> mq_find 0 [0..<MSGCHAN_LIMIT] s;
          (case r of
             Some i \<Rightarrow> do {
               s \<leftarrow> upd_mq (of_nat i) (\<lambda>q. q\<lparr>msg_qname := name, msg_qnum := 0, msg_qrec := 0,
                      msg_lspid := 0, msg_lrpid := 0\<rparr>) s;
               Some (of_nat i, s)
             }
           | None \<Rightarrow> Some (-1, s))
        })
   }"

definition mq_unlink :: "u32 \<Rightarrow> 'a chans_scheme \<Rightarrow> (u32 \<times> 'a chans_scheme) option" where
  "mq_unlink m s =
     (if 0 \<le> sint m \<and> sint m \<le> int MSGCHAN_LIMIT then do {
        s \<leftarrow> upd_mq m (\<lambda>q. q\<lparr>msg_qname := 0\<rparr>) s;
        Some (0, s)
      }
      else Some (-1, s))"

text \<open>\<open>current->pid\<close>.\<close>

definition current_pid :: "'a procs_scheme \<Rightarrow> u32 option" where
  "current_pid s = do {
     cur \<leftarrow> current s;
     x \<leftarrow> arr (pcb s) cur;
     Some (pid x)
   }"

definition mq_send :: "u32 \<Rightarrow> u32 \<Rightarrow> u32 \<Rightarrow> 'a chans_scheme \<Rightarrow> (u32 \<times> 'a chans_scheme) option" where
  "mq_send mqd msg_ptr msg_len s = do {
     me \<leftarrow> current_pid s;
     s \<leftarrow> upd_mq mqd (\<lambda>q. q\<lparr>msg_lspid := me\<rparr>) s;
     s \<leftarrow> kill me SIGWAIT s;
     q \<leftarrow> arr (mq s) (unat mqd);
     (if msg_qnum q = 0 then
        if unat msg_len \<le> length (msg_qbuf q) then do {
          let msg = mem_read s msg_ptr (unat msg_len);
          s \<leftarrow> upd_mq mqd (\<lambda>q. q\<lparr>msg_qnum := msg_qnum q + 1,
                 msg_qbuf := msg @ drop (unat msg_len) (msg_qbuf q)\<rparr>) s;
          q \<leftarrow> arr (mq s) (unat mqd);
          s \<leftarrow> (if msg_qrec q = 1 then do {
                   s \<leftarrow> kill (msg_lrpid q) SIGCONT s;
                   upd_mq mqd (\<lambda>q. q\<lparr>msg_qrec := 0\<rparr>) s
                 }
               else Some s);
          Some (0, s)
        }
        else None
      else Some (-1, s))
   }"

definition mq_receive :: "u32 \<Rightarrow> u32 \<Rightarrow> u32 \<Rightarrow> 'a chans_scheme \<Rightarrow> (u32 \<times> 'a chans_scheme) option" where
  "mq_receive mqd msg_ptr msg_len s = do {
     me \<leftarrow> current_pid s;
     s \<leftarrow> upd_mq mqd (\<lambda>q. q\<lparr>msg_lrpid := me\<rparr>) s;
     q \<leftarrow> arr (mq s) (unat mqd);
     (if 0 < sint (msg_qnum q) \<and> msg_lspid q \<noteq> me then
        if unat msg_len \<le> length (msg_qbuf q) then do {
          s \<leftarrow> upd_mq mqd (\<lambda>q. q\<lparr>msg_qnum := msg_qnum q - 1\<rparr>) s;
          let s = mem_write msg_ptr (take (unat msg_len) (msg_qbuf q)) s;
          s \<leftarrow> kill (msg_lspid q) SIGCONT s;
          Some (msg_len, s)
        }
        else None
      else do {
        s \<leftarrow> upd_mq mqd (\<lambda>q. q\<lparr>msg_qrec := 1\<rparr>) s;
        s \<leftarrow> kill me SIGWAIT s;
        Some (-1, s)
      })
   }"

section \<open>Queues and processes\<close>

text \<open>The invariant of the queues: each holds at most one message, and the processes it
  remembers exist.\<close>

definition mq_inv :: "'a chans_scheme \<Rightarrow> bool" where
  "mq_inv s \<longleftrightarrow> length (mq s) = MSGCHAN_LIMIT
     \<and> (\<forall>q \<in> set (mq s). length (msg_qbuf q) = 64 \<and> msg_qnum q \<le> 1 \<and> msg_qrec q \<le> 1
           \<and> unat (msg_lspid q) < PROCESS_LIMIT \<and> unat (msg_lrpid q) < PROCESS_LIMIT)"

lemma upd_mq_Some [simp]:
  "unat d < length (mq s) \<Longrightarrow> upd_mq d f s = Some (s\<lparr>mq := (mq s)[unat d := f (mq s ! unat d)]\<rparr>)"
  by (simp add: upd_mq_def)

text \<open>Process operations do not see the queues, and the other way round.\<close>

lemma ready_mq [simp]: "ready (s\<lparr>mq := t\<rparr>) q = ready s q" "running (s\<lparr>mq := t\<rparr>) = running s"
  "ready (s\<lparr>mem := m\<rparr>) q = ready s q" "running (s\<lparr>mem := m\<rparr>) = running s"
  "sched_inv (s\<lparr>mq := t\<rparr>) q = sched_inv s q" "sched_inv (s\<lparr>mem := m\<rparr>) q = sched_inv s q"
  by (simp_all add: ready_def running_def sched_inv_def)

text \<open>The two effects of \<open>kill\<close> the queues use.\<close>

definition set_wait :: "nat \<Rightarrow> 'a procs_scheme \<Rightarrow> 'a procs_scheme" where
  "set_wait p s = s\<lparr>pcb := (pcb s)[p := (pcb s ! p)\<lparr>pst := WAITING\<rparr>]\<rparr>"

definition set_cont :: "nat \<Rightarrow> 'a procs_scheme \<Rightarrow> 'a procs_scheme" where
  "set_cont p s = s\<lparr>pcb := (pcb s)[p := if pst (pcb s ! p) = WAITING
     then (pcb s ! p)\<lparr>pst := EXECUTING\<rparr> else pcb s ! p]\<rparr>"

lemma kill_effects:
  assumes "sched_inv s ql" and "unat i < 8"
  shows "kill i SIGWAIT s = Some (set_wait (unat i) s)" and "sched_inv (set_wait (unat i) s) ql"
    and "kill i SIGCONT s = Some (set_cont (unat i) s)" and "sched_inv (set_cont (unat i) s) ql"
proof -
  have r: "ready s ql" using assms(1) by (simp add: sched_inv_def)
  have i: "of_nat (unat i) = i" by simp
  note k = kill_range [OF r assms(2), unfolded i] kill_inv [OF assms, unfolded i]
  show w: "kill i SIGWAIT s = Some (set_wait (unat i) s)" by (simp add: k(1) set_wait_def)
  show c: "kill i SIGCONT s = Some (set_cont (unat i) s)" by (simp add: k(1) set_cont_def)
  show "sched_inv (set_wait (unat i) s) ql" using k(2) [OF w] by simp
  show "sched_inv (set_cont (unat i) s) ql" using k(2) [OF c] by simp
qed

lemma set_effects [simp]:
  "mq (set_wait p s) = mq s" "mem (set_wait p s) = mem s" "current (set_wait p s) = current s"
  "mq (set_cont p s) = mq s" "mem (set_cont p s) = mem s" "current (set_cont p s) = current s"
  for s :: "'a chans_scheme"
  by (simp_all add: set_wait_def set_cont_def)

lemma pst_effects:
  assumes "length (pcb s) = 8" and "p < 8"
  shows "pst (pcb (set_wait i s) ! p) = (if p = i then WAITING else pst (pcb s ! p))"
    and "pst (pcb (set_cont i s) ! p) = (if p = i \<and> pst (pcb s ! p) = WAITING then EXECUTING else pst (pcb s ! p))"
  using assms by (auto simp: set_wait_def set_cont_def nth_list_update)

lemma current_pid_eq:
  assumes "sched_inv s ql" and "current s = Some i"
  shows "i < 8" and "current_pid s = Some (of_nat i)" and "unat (of_nat i :: u32) = i" and "length (pcb s) = 8"
proof -
  show i: "i < 8" using assms by (auto simp: sched_inv_def running_def)
  show len: "length (pcb s) = 8" using assms(1) by (simp add: sched_inv_def ready_def)
  show "current_pid s = Some (of_nat i)"
    using assms i len by (auto simp: current_pid_def sched_inv_def running_def)
  show "unat (of_nat i :: u32) = i" using i by (simp add: unat_of_nat_u32)
qed

lemma mq_inv_upd:
  assumes "mq_inv s" and "length (msg_qbuf q) = 64" and "msg_qnum q \<le> 1" and "msg_qrec q \<le> 1"
    and "unat (msg_lspid q) < 8" and "unat (msg_lrpid q) < 8"
  shows "mq_inv (s\<lparr>mq := (mq s)[d := q]\<rparr>)"
  using assms by (auto simp: mq_inv_def dest!: set_update_subset_insert [THEN subsetD])

lemma mq_inv_nth:
  assumes "mq_inv s" and "d < 32"
  shows "length (mq s) = 32" "length (msg_qbuf (mq s ! d)) = 64" "msg_qnum (mq s ! d) \<le> 1" "msg_qrec (mq s ! d) \<le> 1"
    "unat (msg_lspid (mq s ! d)) < 8" "unat (msg_lrpid (mq s ! d)) < 8"
  using assms nth_mem [of d "mq s"] by (auto simp: mq_inv_def)

lemma le_1: "(x :: u32) \<le> 1 \<longleftrightarrow> x = 0 \<or> x = 1"
  by (auto simp: word_le_nat_alt word_unat_eq_iff)

lemma set_effects_mq [simp]:
  "set_wait p (s\<lparr>mq := t\<rparr>) = (set_wait p s)\<lparr>mq := t\<rparr>" "set_cont p (s\<lparr>mq := t\<rparr>) = (set_cont p s)\<lparr>mq := t\<rparr>"
  "set_wait p (s\<lparr>mem := m\<rparr>) = (set_wait p s)\<lparr>mem := m\<rparr>" "set_cont p (s\<lparr>mem := m\<rparr>) = (set_cont p s)\<lparr>mem := m\<rparr>"
  by (simp_all add: set_wait_def set_cont_def)

lemma mem_read_frame [simp]:
  "mem_read (s\<lparr>mq := t\<rparr>) a n = mem_read s a n" "mem_read (set_wait p s) a n = mem_read s a n"
  "mem_read (set_cont p s) a n = mem_read s a n" "length (mem_read s a n) = n"
  by (simp_all add: mem_read_def)

section \<open>Sending\<close>

text \<open>The queue after a successful send.\<close>

definition sent :: "nat \<Rightarrow> byte list \<Rightarrow> mqueue \<Rightarrow> mqueue" where
  "sent i msg q = q\<lparr>msg_lspid := of_nat i, msg_qnum := 1,
     msg_qbuf := msg @ drop (length msg) (msg_qbuf q), msg_qrec := 0\<rparr>"

lemma mq_send_full:
  assumes "sched_inv s ql" and "current s = Some i" and "mq_inv s" and "unat d < 32"
    and "msg_qnum (mq s ! unat d) \<noteq> 0"
  shows "mq_send d ptr len s = Some (-1, (set_wait i s)\<lparr>mq := (mq s)[unat d := (mq s ! unat d)\<lparr>msg_lspid := of_nat i\<rparr>]\<rparr>)"
proof -
  note i = current_pid_eq [OF assms(1,2)] and q = mq_inv_nth [OF assms(3,4)]
  let ?s = "s\<lparr>mq := (mq s)[unat d := (mq s ! unat d)\<lparr>msg_lspid := of_nat i\<rparr>]\<rparr>"
  have "sched_inv ?s ql" using assms(1) by simp
  from kill_effects(1) [OF this, of "of_nat i"] i(1,3) have "kill (of_nat i) SIGWAIT ?s = Some (set_wait i ?s)" by simp
  then show ?thesis using i(2) q(1) assms(4,5) by (simp add: mq_send_def)
qed

lemma no_receiver:
  "msg_qrec q = 0 \<Longrightarrow> q\<lparr>msg_lspid := a, msg_qnum := b, msg_qbuf := c, msg_qrec := 0\<rparr> =
     q\<lparr>msg_lspid := a, msg_qnum := b, msg_qbuf := c\<rparr>"
  by (cases q) simp

lemma mq_send_empty:
  assumes "sched_inv s ql" and "current s = Some i" and "mq_inv s" and "unat d < 32"
    and "msg_qnum (mq s ! unat d) = 0" and "unat len \<le> 64"
  defines "q \<equiv> mq s ! unat d"
  shows "mq_send d ptr len s = Some (0,
    (if msg_qrec q = 1 then set_cont (unat (msg_lrpid q)) (set_wait i s) else set_wait i s)
      \<lparr>mq := (mq s)[unat d := sent i (mem_read s ptr (unat len)) q]\<rparr>)"
proof -
  note i = current_pid_eq [OF assms(1,2)] and qi = mq_inv_nth [OF assms(3,4)]
  let ?s1 = "s\<lparr>mq := (mq s)[unat d := q\<lparr>msg_lspid := of_nat i\<rparr>]\<rparr>"
  have inv1: "sched_inv ?s1 ql" using assms(1) by simp
  from kill_effects(1,2) [OF this, of "of_nat i"] i(1,3)
  have k1: "kill (of_nat i) SIGWAIT ?s1 = Some (set_wait i ?s1)" and inv2: "sched_inv (set_wait i ?s1) ql" by simp_all
  have inv3: "sched_inv ((set_wait i s)\<lparr>mq := t\<rparr>) ql" for t using inv2 by simp
  from kill_effects(3) [OF inv3, of "msg_lrpid q"] qi(6)
  have k2: "kill (msg_lrpid q) SIGCONT ((set_wait i s)\<lparr>mq := t\<rparr>) = Some ((set_cont (unat (msg_lrpid q)) (set_wait i s))\<lparr>mq := t\<rparr>)" for t
    by (simp add: q_def)
  have rec: "msg_qrec q \<noteq> 1 \<Longrightarrow> msg_qrec q = 0" using qi(4) by (auto simp: q_def le_1)
  show ?thesis
    using i(2) k1 qi(1,2) assms(4-6) rec
    by (auto simp: mq_send_def k2 sent_def q_def [symmetric] Let_def no_receiver)
qed

section \<open>Receiving\<close>

lemma mq_receive_message:
  assumes "sched_inv s ql" and "current s = Some j" and "mq_inv s" and "unat d < 32"
    and "msg_qnum (mq s ! unat d) = 1" and "msg_lspid (mq s ! unat d) \<noteq> of_nat j" and "unat len \<le> 64"
  defines "q \<equiv> mq s ! unat d"
  shows "mq_receive d ptr len s = Some (len, mem_write ptr (take (unat len) (msg_qbuf q))
    ((set_cont (unat (msg_lspid q)) s)\<lparr>mq := (mq s)[unat d := q\<lparr>msg_lrpid := of_nat j, msg_qnum := 0\<rparr>]\<rparr>))"
proof -
  note j = current_pid_eq [OF assms(1,2)] and qi = mq_inv_nth [OF assms(3,4)]
  have "kill (msg_lspid q) SIGCONT (s\<lparr>mq := t, mem := m\<rparr>) = Some ((set_cont (unat (msg_lspid q)) s)\<lparr>mq := t, mem := m\<rparr>)" for t m
    using kill_effects(3) [of "s\<lparr>mq := t, mem := m\<rparr>" ql "msg_lspid q"] assms(1) qi(5) by (simp add: q_def)
  then show ?thesis
    using j(2) qi(1,2) assms(4-7) by (simp add: mq_receive_def mem_write_def q_def [symmetric] Let_def cong: if_cong)
qed

lemma mq_receive_none:
  assumes "sched_inv s ql" and "current s = Some j" and "mq_inv s" and "unat d < 32"
    and "msg_qnum (mq s ! unat d) = 0 \<or> msg_lspid (mq s ! unat d) = of_nat j"
  shows "mq_receive d ptr len s = Some (-1, (set_wait j s)\<lparr>mq := (mq s)[unat d :=
      (mq s ! unat d)\<lparr>msg_lrpid := of_nat j, msg_qrec := 1\<rparr>]\<rparr>)"
proof -
  note j = current_pid_eq [OF assms(1,2)] and qi = mq_inv_nth [OF assms(3,4)]
  have "kill (of_nat j) SIGWAIT (s\<lparr>mq := t\<rparr>) = Some ((set_wait j s)\<lparr>mq := t\<rparr>)" for t
    using kill_effects(1) [of "s\<lparr>mq := t\<rparr>" ql "of_nat j"] assms(1) j(1,3) by simp
  then show ?thesis using j(2) qi(1) assms(4,5) by (auto simp: mq_receive_def)
qed

section \<open>Opening\<close>

lemma mq_find_find:
  assumes "\<forall>i \<in> set is. i < length (mq s)"
  shows "mq_find name is s = Some (find (\<lambda>i. msg_qname (mq s ! i) = name) is)"
  using assms by (induction "is") auto

lemma find_upt_None: "find P [0..<n] = None \<longleftrightarrow> (\<forall>i<n. \<not> P i)"
  by (auto simp: find_None_iff)

lemma find_upt_Some: "find P [0..<n] = Some i \<Longrightarrow> i < n \<and> P i \<and> (\<forall>j<i. \<not> P j)"
  by (auto simp: find_Some_iff)

lemma find_upt_SomeI: "i < n \<Longrightarrow> P i \<Longrightarrow> \<forall>j<i. \<not> P j \<Longrightarrow> find P [0..<n] = Some i"
  by (auto simp: find_Some_iff intro!: exI [of _ i])

definition opened :: "u32 \<Rightarrow> mqueue \<Rightarrow> mqueue" where
  "opened name q = q\<lparr>msg_qname := name, msg_qnum := 0, msg_qrec := 0, msg_lspid := 0, msg_lrpid := 0\<rparr>"

lemma mq_open_find:
  assumes "length (mq s) = 32"
  shows "mq_open name s = Some (case find (\<lambda>i. msg_qname (mq s ! i) = name) [0..<32] of
      Some i \<Rightarrow> (of_nat i, s)
    | None \<Rightarrow> (case find (\<lambda>i. msg_qname (mq s ! i) = 0) [0..<32] of
        Some i \<Rightarrow> (of_nat i, s\<lparr>mq := (mq s)[i := opened name (mq s ! i)]\<rparr>)
      | None \<Rightarrow> (-1, s)))"
proof -
  have f: "mq_find n [0..<32] s = Some (find (\<lambda>i. msg_qname (mq s ! i) = n) [0..<32])" for n
    using assms by (intro mq_find_find) auto
  show ?thesis
  proof (cases "find (\<lambda>i. msg_qname (mq s ! i) = 0) [0..<32]")
    case None
    then show ?thesis by (simp add: mq_open_def f del: upt_rec_numeral split: option.split)
  next
    case (Some i)
    then have "i < 32" "unat (of_nat i :: u32) = i"
      using find_upt_Some [OF Some] by (simp_all add: unat_of_nat_u32)
    with Some assms show ?thesis
      by (simp add: mq_open_def f opened_def del: upt_rec_numeral split: option.split)
  qed
qed

section \<open>Properties\<close>

text \<open>C25. Delivery. A message sent on an empty queue is the message the next receiver gets,
  byte for byte; the receive empties the queue and makes the waiting sender executable
  again. Between the two calls anything may happen that leaves the queues alone.\<close>

theorem mq_delivery:
  fixes s :: "'a chans_scheme"
  assumes "sched_inv s ql" and "current s = Some i" and "mq_inv s" and "unat d < 32"
    and "msg_qnum (mq s ! unat d) = 0" and "unat len \<le> 64" and "j < 8" and "i \<noteq> j"
  shows "\<exists>s1. mq_send d ptr len s = Some (0, s1) \<and> (\<forall>(s2 :: 'a chans_scheme) ql2 ptr'.
      sched_inv s2 ql2 \<and> current s2 = Some j \<and> mq s2 = mq s1 \<longrightarrow>
        (\<exists>s3. mq_receive d ptr' len s2 = Some (len, s3)
          \<and> mem_read s3 ptr' (unat len) = mem_read s ptr (unat len)
          \<and> msg_qnum (mq s3 ! unat d) = 0
          \<and> (pst (pcb s2 ! i) = WAITING \<longrightarrow> pst (pcb s3 ! i) = EXECUTING)))"
proof -
  let ?q = "mq s ! unat d" and ?msg = "mem_read s ptr (unat len)"
  note i = current_pid_eq [OF assms(1,2)] and qi = mq_inv_nth [OF assms(3,4)]
  let ?s1 = "(if msg_qrec ?q = 1 then set_cont (unat (msg_lrpid ?q)) (set_wait i s) else set_wait i s)
      \<lparr>mq := (mq s)[unat d := sent i ?msg ?q]\<rparr>"
  have s1: "mq_send d ptr len s = Some (0, ?s1)" by (rule mq_send_empty [OF assms(1-6)])
  have main: "\<exists>s3. mq_receive d ptr' len s2 = Some (len, s3) \<and> mem_read s3 ptr' (unat len) = ?msg
      \<and> msg_qnum (mq s3 ! unat d) = 0 \<and> (pst (pcb s2 ! i) = WAITING \<longrightarrow> pst (pcb s3 ! i) = EXECUTING)"
    if s2: "sched_inv s2 ql2" "current s2 = Some j" "mq s2 = mq ?s1" for s2 :: "'a chans_scheme" and ql2 ptr'
  proof -
    have q2: "mq s2 ! unat d = sent i ?msg ?q" using s2(3) qi(1) assms(4) by simp
    have m2: "mq_inv s2"
      using mq_inv_upd [OF assms(3), of "sent i ?msg ?q" "unat d"] s2(3) qi assms(6) i(1,3)
      by (simp add: sent_def mq_inv_def)
    have "of_nat i \<noteq> (of_nat j :: u32)" using of_nat_small_eq [OF i(1) assms(7)] assms(8) by simp
    with mq_receive_message [OF s2(1,2) m2 assms(4) _ _ assms(6), of ptr'] q2
    have r: "mq_receive d ptr' len s2 = Some (len, mem_write ptr' ?msg ((set_cont i s2)
        \<lparr>mq := (mq s2)[unat d := (sent i ?msg ?q)\<lparr>msg_lrpid := of_nat j, msg_qnum := 0\<rparr>]\<rparr>))"
      using i(3) by (simp add: sent_def)
    have "mem_read (mem_write ptr' ?msg x) ptr' (unat len) = ?msg" for x :: "'a chans_scheme"
      using mem_read_write [of ?msg ptr' x] assms(6) by simp
    moreover have "pst (pcb (set_cont i s2) ! i) = EXECUTING" if "pst (pcb s2 ! i) = WAITING"
      using that pst_effects(2) [of s2 i i] current_pid_eq(4) [OF s2(1,2)] i(1) by simp
    moreover have "length (mq s2) = 32" using m2 by (simp add: mq_inv_def)
    ultimately show ?thesis using r assms(4) by (simp add: mem_write_def)
  qed
  show ?thesis
  proof (rule exI [of _ ?s1], intro conjI allI impI)
    fix s2 :: "'a chans_scheme" and ql2 ptr'
    assume "sched_inv s2 ql2 \<and> current s2 = Some j \<and> mq s2 = mq ?s1"
    then show "\<exists>s3. mq_receive d ptr' len s2 = Some (len, s3) \<and> mem_read s3 ptr' (unat len) = ?msg
        \<and> msg_qnum (mq s3 ! unat d) = 0 \<and> (pst (pcb s2 ! i) = WAITING \<longrightarrow> pst (pcb s3 ! i) = EXECUTING)"
      using main by blast
  qed (rule s1)
qed

text \<open>An example: three processes, all queues closed.\<close>

definition zero_mq :: mqueue where
  "zero_mq = \<lparr>msg_qname = 0, msg_qnum = 0, msg_qrec = 0, msg_lspid = 0, msg_lrpid = 0, msg_qbuf = replicate 64 0\<rparr>"

definition three_chans :: chans where
  "three_chans = procs.extend (procs.truncate three_procs) \<lparr>mem = \<lambda>a. ucast a, mq = replicate 32 zero_mq\<rparr>"

lemma three_chans_inv: "sched_inv three_chans [0, 1, 2]" "mq_inv three_chans" "current three_chans = Some 0"
  using three_procs_inv
  by (auto simp: three_chans_def sched_inv_def ready_def running_def procs.defs three_procs_def mq_inv_def zero_mq_def)

theorem mq_delivery_witness:
  "\<exists>s1. mq_send 3 100 5 three_chans = Some (0, s1) \<and> (\<forall>(s2 :: chans) ql2.
     sched_inv s2 ql2 \<and> current s2 = Some 2 \<and> mq s2 = mq s1 \<longrightarrow>
     (\<exists>s3. mq_receive 3 200 5 s2 = Some (5, s3) \<and> mem_read s3 200 5 = mem_read three_chans 100 5))"
proof -
  have "msg_qnum (mq three_chans ! unat (3 :: u32)) = 0"
    by (simp add: three_chans_def procs.defs zero_mq_def)
  with mq_delivery [OF three_chans_inv(1,3,2), of 3 5 2 100] show ?thesis by fastforce
qed

text \<open>A receiver that comes first waits and is woken. On an empty queue \<open>mq_receive\<close>
  returns -1, the caller waits and memory is unchanged; the next successful send on that queue
  makes the waiting receiver executable and leaves the message for it.\<close>

lemma mq_receiver_woken:
  fixes s :: "'a chans_scheme"
  assumes "sched_inv s ql" and "current s = Some j" and "mq_inv s" and "unat d < 32"
    and "msg_qnum (mq s ! unat d) = 0" and "unat len \<le> 64" and "i < 8" and "i \<noteq> j"
  shows "\<exists>s1. mq_receive d ptr len s = Some (-1, s1) \<and> pst (pcb s1 ! j) = WAITING \<and> mem s1 = mem s
    \<and> (\<forall>(s2 :: 'a chans_scheme) ql2 ptr'.
      sched_inv s2 ql2 \<and> current s2 = Some i \<and> mq s2 = mq s1 \<and> pst (pcb s2 ! j) = WAITING \<longrightarrow>
        (\<exists>s3. mq_send d ptr' len s2 = Some (0, s3) \<and> pst (pcb s3 ! j) = EXECUTING \<and> pst (pcb s3 ! i) = WAITING
          \<and> take (unat len) (msg_qbuf (mq s3 ! unat d)) = mem_read s2 ptr' (unat len)))"
proof -
  note j = current_pid_eq [OF assms(1,2)] and qi = mq_inv_nth [OF assms(3,4)]
  let ?q = "(mq s ! unat d)\<lparr>msg_lrpid := of_nat j, msg_qrec := 1\<rparr>"
  let ?s1 = "(set_wait j s)\<lparr>mq := (mq s)[unat d := ?q]\<rparr>"
  have s1: "mq_receive d ptr len s = Some (-1, ?s1)" using assms by (intro mq_receive_none) simp_all
  have main: "\<exists>s3. mq_send d ptr' len s2 = Some (0, s3) \<and> pst (pcb s3 ! j) = EXECUTING \<and> pst (pcb s3 ! i) = WAITING
      \<and> take (unat len) (msg_qbuf (mq s3 ! unat d)) = mem_read s2 ptr' (unat len)"
    if s2: "sched_inv s2 ql2" "current s2 = Some i" "mq s2 = mq ?s1" "pst (pcb s2 ! j) = WAITING"
    for s2 :: "'a chans_scheme" and ql2 ptr'
  proof -
    have q2: "mq s2 ! unat d = ?q" using s2(3) qi(1) assms(4) by simp
    have m2: "mq_inv s2"
      using mq_inv_upd [OF assms(3), of ?q "unat d"] s2(3) qi j(1,3) by (simp add: mq_inv_def)
    have len: "length (pcb s2) = 8" by (rule current_pid_eq(4) [OF s2(1,2)])
    from mq_send_empty [OF s2(1,2) m2 assms(4) _ assms(6), of ptr'] q2 assms(5) j(3)
    have "mq_send d ptr' len s2 = Some (0, (set_cont j (set_wait i s2))
        \<lparr>mq := (mq s2)[unat d := sent i (mem_read s2 ptr' (unat len)) ?q]\<rparr>)" by simp
    moreover have "pst (pcb (set_cont j (set_wait i s2)) ! j) = EXECUTING"
      "pst (pcb (set_cont j (set_wait i s2)) ! i) = WAITING"
      using len j(1) assms(7,8) s2(4) by (simp_all add: set_wait_def set_cont_def)
    moreover have "length (mq s2) = 32" using m2 by (simp add: mq_inv_def)
    ultimately show ?thesis using assms(4) by (simp add: sent_def)
  qed
  show ?thesis
  proof (rule exI [of _ ?s1], intro conjI allI impI)
    show "pst (pcb ?s1 ! j) = WAITING" using j(1,4) by (simp add: pst_effects)
    fix s2 :: "'a chans_scheme" and ql2 ptr'
    assume "sched_inv s2 ql2 \<and> current s2 = Some i \<and> mq s2 = mq ?s1 \<and> pst (pcb s2 ! j) = WAITING"
    then show "\<exists>s3. mq_send d ptr' len s2 = Some (0, s3) \<and> pst (pcb s3 ! j) = EXECUTING \<and> pst (pcb s3 ! i) = WAITING
        \<and> take (unat len) (msg_qbuf (mq s3 ! unat d)) = mem_read s2 ptr' (unat len)"
      using main by blast
  qed (use s1 in simp_all)
qed

text \<open>C26. Two senders on one queue. The second sender finds the queue full and waits, but its
  number replaces that of the first one; when the message is then received the second sender
  is woken and the first, whose message it was, stays waiting, with no queue remembering it.\<close>

theorem mq_lost_wakeup:
  fixes s :: "'a chans_scheme"
  assumes "sched_inv s ql" and "current s = Some k" and "mq_inv s" and "unat d < 32"
    and "msg_qnum (mq s ! unat d) = 1" and "unat len \<le> 64" and "i \<noteq> k" and "i < 8" and "j < 8" and "j \<noteq> k"
  shows "\<exists>s1. mq_send d ptr len s = Some (-1, s1) \<and> (\<forall>(s2 :: 'a chans_scheme) ql2 ptr'.
      sched_inv s2 ql2 \<and> current s2 = Some j \<and> mq s2 = mq s1 \<and> pst (pcb s2 ! i) = WAITING \<longrightarrow>
        (\<exists>s3. mq_receive d ptr' len s2 = Some (len, s3) \<and> pst (pcb s3 ! i) = WAITING
          \<and> (pst (pcb s2 ! k) = WAITING \<longrightarrow> pst (pcb s3 ! k) = EXECUTING)
          \<and> msg_lspid (mq s3 ! unat d) = of_nat k \<and> msg_qnum (mq s3 ! unat d) = 0))"
proof -
  note k = current_pid_eq [OF assms(1,2)] and qi = mq_inv_nth [OF assms(3,4)]
  let ?q = "(mq s ! unat d)\<lparr>msg_lspid := of_nat k\<rparr>"
  let ?s1 = "(set_wait k s)\<lparr>mq := (mq s)[unat d := ?q]\<rparr>"
  have s1: "mq_send d ptr len s = Some (-1, ?s1)" using assms by (intro mq_send_full) simp_all
  have main: "\<exists>s3. mq_receive d ptr' len s2 = Some (len, s3) \<and> pst (pcb s3 ! i) = WAITING
      \<and> (pst (pcb s2 ! k) = WAITING \<longrightarrow> pst (pcb s3 ! k) = EXECUTING)
      \<and> msg_lspid (mq s3 ! unat d) = of_nat k \<and> msg_qnum (mq s3 ! unat d) = 0"
    if s2: "sched_inv s2 ql2" "current s2 = Some j" "mq s2 = mq ?s1" "pst (pcb s2 ! i) = WAITING"
    for s2 :: "'a chans_scheme" and ql2 ptr'
  proof -
    have q2: "mq s2 ! unat d = ?q" using s2(3) qi(1) assms(4) by simp
    have m2: "mq_inv s2"
      using mq_inv_upd [OF assms(3), of ?q "unat d"] s2(3) qi k(1,3) by (simp add: mq_inv_def)
    have len: "length (pcb s2) = 8" by (rule current_pid_eq(4) [OF s2(1,2)])
    have "of_nat k \<noteq> (of_nat j :: u32)" using of_nat_small_eq [OF k(1) assms(9)] assms(10) by simp
    with mq_receive_message [OF s2(1,2) m2 assms(4) _ _ assms(6), of ptr'] q2 assms(5) k(3)
    have "mq_receive d ptr' len s2 = Some (len, mem_write ptr' (take (unat len) (msg_qbuf ?q))
        ((set_cont k s2)\<lparr>mq := (mq s2)[unat d := ?q\<lparr>msg_lrpid := of_nat j, msg_qnum := 0\<rparr>]\<rparr>))" by simp
    moreover have "pst (pcb (set_cont k s2) ! i) = WAITING"
      "pst (pcb s2 ! k) = WAITING \<longrightarrow> pst (pcb (set_cont k s2) ! k) = EXECUTING"
      using len k(1) assms(7,8) s2(4) by (simp_all add: pst_effects)
    moreover have "length (mq s2) = 32" using m2 by (simp add: mq_inv_def)
    ultimately show ?thesis using assms(4) by (simp add: mem_write_def)
  qed
  show ?thesis
  proof (rule exI [of _ ?s1], intro conjI allI impI)
    fix s2 :: "'a chans_scheme" and ql2 ptr'
    assume "sched_inv s2 ql2 \<and> current s2 = Some j \<and> mq s2 = mq ?s1 \<and> pst (pcb s2 ! i) = WAITING"
    then show "\<exists>s3. mq_receive d ptr' len s2 = Some (len, s3) \<and> pst (pcb s3 ! i) = WAITING
        \<and> (pst (pcb s2 ! k) = WAITING \<longrightarrow> pst (pcb s3 ! k) = EXECUTING)
        \<and> msg_lspid (mq s3 ! unat d) = of_nat k \<and> msg_qnum (mq s3 ! unat d) = 0"
      using main by blast
  qed (rule s1)
qed

theorem mq_lost_wakeup_witness:
  "\<exists>s1. mq_send 3 100 5 (three_chans\<lparr>mq := (mq three_chans)[3 := zero_mq\<lparr>msg_qnum := 1, msg_lspid := 1\<rparr>]\<rparr>) = Some (-1, s1)"
proof -
  let ?s = "three_chans\<lparr>mq := (mq three_chans)[3 := zero_mq\<lparr>msg_qnum := 1, msg_lspid := 1\<rparr>]\<rparr>"
  have inv: "sched_inv ?s [0, 1, 2]" "current ?s = Some 0" "mq_inv ?s"
    using three_chans_inv mq_inv_upd [OF three_chans_inv(2), of "zero_mq\<lparr>msg_qnum := 1, msg_lspid := 1\<rparr>" 3]
    by (simp_all add: zero_mq_def)
  have "length (mq three_chans) = 32" using three_chans_inv(2) by (simp add: mq_inv_def)
  then have "msg_qnum (mq ?s ! unat (3 :: u32)) = 1" by simp
  from mq_lost_wakeup [OF inv _ this, of 5 1 2 100] show ?thesis by auto
qed

text \<open>The invariant, operation by operation.\<close>

lemma mq_inv_frame [simp]:
  "mq_inv ((set_wait p s)\<lparr>mq := t\<rparr>) = mq_inv (s\<lparr>mq := t\<rparr>)" "mq_inv ((set_cont p s)\<lparr>mq := t\<rparr>) = mq_inv (s\<lparr>mq := t\<rparr>)"
  "mq_inv (mem_write a bs s) = mq_inv s" "sched_inv (mem_write a bs s) ql = sched_inv s ql"
  by (simp_all add: mq_inv_def mem_write_def)

lemma upd_mq_bound: "upd_mq d f s \<noteq> None \<Longrightarrow> unat d < length (mq s)"
  by (auto simp: upd_mq_def arr_def split: if_splits)

lemma mq_open_inv:
  assumes "mq_inv s" and "sched_inv s ql" and "mq_open n s = Some (r, s')"
  shows "sched_inv s' ql \<and> mq_inv s'"
proof -
  have len: "length (mq s) = 32" using assms(1) by (simp add: mq_inv_def)
  have "mq_inv (s\<lparr>mq := (mq s)[k := opened n (mq s ! k)]\<rparr>)" if "k < 32" for k
    using mq_inv_nth [OF assms(1) that] by (intro mq_inv_upd [OF assms(1)]) (simp_all add: opened_def)
  with assms show ?thesis
    by (auto simp: mq_open_find [OF len] dest: find_upt_Some simp del: upt_rec_numeral split: option.splits)
qed

lemma mq_unlink_inv:
  assumes "mq_inv s" and "sched_inv s ql" and "mq_unlink n s = Some (r, s')"
  shows "sched_inv s' ql \<and> mq_inv s'"
proof (cases "0 \<le> sint n \<and> sint n \<le> 32")
  case True
  then have "upd_mq n (\<lambda>q. q\<lparr>msg_qname := 0\<rparr>) s \<noteq> None" using assms(3) by (intro notI) (simp add: mq_unlink_def)
  then have n: "unat n < 32" using upd_mq_bound assms(1) by (fastforce simp: mq_inv_def)
  have "mq_inv (s\<lparr>mq := (mq s)[unat n := (mq s ! unat n)\<lparr>msg_qname := 0\<rparr>]\<rparr>)"
    using mq_inv_nth [OF assms(1) n] by (intro mq_inv_upd [OF assms(1)]) simp_all
  with assms True n mq_inv_nth(1) [OF assms(1) n] show ?thesis by (auto simp: mq_unlink_def)
next
  case False
  with assms show ?thesis by (auto simp: mq_unlink_def)
qed

lemma mq_send_inv:
  assumes "mq_inv s" and "sched_inv s ql" and "mq_send d ptr len s = Some (r, s')"
  shows "sched_inv s' ql \<and> mq_inv s'"
proof -
  obtain i where cur: "current s = Some i" using assms(2) by (auto simp: sched_inv_def running_def)
  note i = current_pid_eq [OF assms(2) cur]
  have w: "sched_inv (set_wait i s) ql" using kill_effects(2) [OF assms(2), of "of_nat i"] i(1,3) by simp
  have "upd_mq d (\<lambda>q. q\<lparr>msg_lspid := of_nat i\<rparr>) s \<noteq> None" using assms(3) i(2) by (intro notI) (simp add: mq_send_def)
  then have d: "unat d < 32" using upd_mq_bound assms(1) by (fastforce simp: mq_inv_def)
  note q = mq_inv_nth [OF assms(1) d]
  let ?q = "mq s ! unat d"
  show ?thesis
  proof (cases "msg_qnum ?q = 0")
    case False
    have "mq_inv (s\<lparr>mq := (mq s)[unat d := ?q\<lparr>msg_lspid := of_nat i\<rparr>]\<rparr>)"
      using q i(1,3) by (intro mq_inv_upd [OF assms(1)]) simp_all
    with assms(3) mq_send_full [OF assms(2) cur assms(1) d False] w show ?thesis by auto
  next
    case True
    have len: "unat len \<le> 64"
    proof (rule ccontr)
      assume "\<not> unat len \<le> 64"
      moreover have "kill (of_nat i) SIGWAIT (s\<lparr>mq := t\<rparr>) = Some ((set_wait i s)\<lparr>mq := t\<rparr>)" for t
        using kill_effects(1) [of "s\<lparr>mq := t\<rparr>" ql "of_nat i"] assms(2) i(1,3) by simp
      ultimately show False using assms(3) i(2) q(1,2) d True by (simp add: mq_send_def)
    qed
    have "mq_inv (s\<lparr>mq := (mq s)[unat d := sent i (mem_read s ptr (unat len)) ?q]\<rparr>)"
      using q i(1,3) len by (intro mq_inv_upd [OF assms(1)]) (simp_all add: sent_def)
    with assms(3) mq_send_empty [OF assms(2) cur assms(1) d True len] w kill_effects(4) [OF w q(6)] show ?thesis
      by (auto split: if_splits)
  qed
qed

lemma mq_receive_inv:
  assumes "mq_inv s" and "sched_inv s ql" and "mq_receive d ptr len s = Some (r, s')"
  shows "sched_inv s' ql \<and> mq_inv s'"
proof -
  obtain j where cur: "current s = Some j" using assms(2) by (auto simp: sched_inv_def running_def)
  note j = current_pid_eq [OF assms(2) cur]
  have w: "sched_inv (set_wait j s) ql" using kill_effects(2) [OF assms(2), of "of_nat j"] j(1,3) by simp
  have "upd_mq d (\<lambda>q. q\<lparr>msg_lrpid := of_nat j\<rparr>) s \<noteq> None" using assms(3) j(2) by (intro notI) (simp add: mq_receive_def)
  then have d: "unat d < 32" using upd_mq_bound assms(1) by (fastforce simp: mq_inv_def)
  note q = mq_inv_nth [OF assms(1) d]
  let ?q = "mq s ! unat d"
  show ?thesis
  proof (cases "msg_qnum ?q = 1 \<and> msg_lspid ?q \<noteq> of_nat j")
    case False
    then have "msg_qnum ?q = 0 \<or> msg_lspid ?q = of_nat j" using q(3) by (auto simp: le_1)
    moreover have "mq_inv (s\<lparr>mq := (mq s)[unat d := ?q\<lparr>msg_lrpid := of_nat j, msg_qrec := 1\<rparr>]\<rparr>)"
      using q j(1,3) by (intro mq_inv_upd [OF assms(1)]) simp_all
    ultimately show ?thesis using assms(3) mq_receive_none [OF assms(2) cur assms(1) d] w by auto
  next
    case True
    then have len: "unat len \<le> 64"
      using assms(3) j(2) q(1,2) d by (auto simp: mq_receive_def split: if_splits)
    have "mq_inv (s\<lparr>mq := (mq s)[unat d := ?q\<lparr>msg_lrpid := of_nat j, msg_qnum := 0\<rparr>]\<rparr>)"
      using q j(1,3) by (intro mq_inv_upd [OF assms(1)]) simp_all
    with assms(3) mq_receive_message [OF assms(2) cur assms(1) d _ _ len, of ptr] True
      kill_effects(4) [OF assms(2) q(5)] show ?thesis by auto
  qed
qed

text \<open>Every queue operation that returns keeps the invariant: a queue never holds more than
  one message, its fields stay in range, and the process table stays consistent.\<close>

lemma mq_ops_inv:
  assumes "sched_inv s ql" and "mq_inv s"
    and "mq_open n s = Some (r, s') \<or> mq_unlink n s = Some (r, s')
      \<or> mq_send n ptr len s = Some (r, s') \<or> mq_receive n ptr len s = Some (r, s')"
  shows "sched_inv s' ql \<and> mq_inv s'"
  using assms(3) mq_open_inv [OF assms(2,1)] mq_unlink_inv [OF assms(2,1)] mq_send_inv [OF assms(2,1)]
    mq_receive_inv [OF assms(2,1)] by metis

text \<open>Names meet at one queue. Opening a name that is open returns the lowest queue that has
  it and changes nothing; opening a new, non-zero name takes the lowest free queue, clears its
  state, and opening the name again then returns that same queue; when no queue is free the
  result is -1.\<close>

lemma mq_open_spec:
  assumes "mq_inv s" and "name \<noteq> 0"
  shows "case find (\<lambda>i. msg_qname (mq s ! i) = name) [0..<32] of
      Some i \<Rightarrow> mq_open name s = Some (of_nat i, s)
    | None \<Rightarrow> (case find (\<lambda>i. msg_qname (mq s ! i) = 0) [0..<32] of
        None \<Rightarrow> mq_open name s = Some (-1, s)
      | Some i \<Rightarrow> \<exists>s'. mq_open name s = Some (of_nat i, s') \<and> mq_open name s' = Some (of_nat i, s')
          \<and> msg_qnum (mq s' ! i) = 0 \<and> (\<forall>k. k \<noteq> i \<longrightarrow> mq s' ! k = mq s ! k))"
proof -
  have len: "length (mq s) = 32" using assms(1) by (simp add: mq_inv_def)
  note o = mq_open_find [OF len, of name]
  show ?thesis
  proof (cases "find (\<lambda>i. msg_qname (mq s ! i) = name) [0..<32]")
    case (Some i)
    then show ?thesis by (simp add: o del: upt_rec_numeral)
  next
    case None
    then have no: "\<forall>i<32. msg_qname (mq s ! i) \<noteq> name" by (simp add: find_upt_None del: upt_rec_numeral)
    show ?thesis
    proof (cases "find (\<lambda>i. msg_qname (mq s ! i) = 0) [0..<32]")
      case None
      with \<open>find (\<lambda>i. msg_qname (mq s ! i) = name) [0..<32] = None\<close> show ?thesis
        by (simp add: o del: upt_rec_numeral)
    next
      case (Some i)
      let ?s = "s\<lparr>mq := (mq s)[i := opened name (mq s ! i)]\<rparr>"
      have i: "i < 32" using find_upt_Some [OF Some] by simp
      have "find (\<lambda>k. msg_qname (mq ?s ! k) = name) [0..<32] = Some i"
        using i no len by (intro find_upt_SomeI) (simp_all add: opened_def)
      then have "mq_open name ?s = Some (of_nat i, ?s)" using mq_open_find [of ?s name] len
        by (simp del: upt_rec_numeral)
      with None Some i len show ?thesis by (simp add: o opened_def del: upt_rec_numeral)
    qed
  qed
qed

end
