(* ===== verification/Directory.thy ===== *)
theory Directory
  imports Blocks Mqueue
begin

text \<open>
  Directories and paths: \<open>getLastDir\<close>, \<open>removable\<close>, \<open>remove\<close>, \<open>name_to_ino\<close>,
  \<open>path_to_ino\<close>, \<open>path_to_ino2\<close> and \<open>addInodeToDirectory\<close> of \<open>src/kernel/kernel.c\<close>.
  A directory is a file of 32-byte entries, 16 to a block. The record \<open>kernel\<close> adds the last
  globals: the open file table, the active inode table, the working directory and the
  console UART.

  A C string is the list of its characters without the terminator.
\<close>

record 'h kernel = chans +
  oft :: "ofile_t list"
  ai :: "inode_t list"
  cwd :: u32
  uart0 :: "'h uart"

section \<open>Names\<close>

text \<open>\<open>strncmp( a, b, n ) == 0\<close> on the bytes behind the two pointers.\<close>

fun strncmp0 :: "nat \<Rightarrow> byte list \<Rightarrow> byte list \<Rightarrow> bool option" where
  "strncmp0 0 a b = Some True"
| "strncmp0 (Suc n) (x # a) (y # b) =
     (if x \<noteq> y then Some False else if x = 0 then Some True else strncmp0 n a b)"
| "strncmp0 (Suc n) _ _ = None"

definition name_match :: "byte list \<Rightarrow> dir_t \<Rightarrow> bool option" where
  "name_match name d =
     strncmp0 (if length name \<le> unat (d_namlen d) then unat (d_namlen d) else length name) (name @ [0]) (d_name d)"

text \<open>The first entry of a block that passes a test, among the first ones.\<close>

fun find_entry :: "(dir_t \<Rightarrow> bool option) \<Rightarrow> byte list \<Rightarrow> nat list \<Rightarrow> nat option option" where
  "find_entry t block [] = Some None"
| "find_entry t block (j # js) = do {
     m \<leftarrow> t (dir_at block j);
     (if m then Some (Some j) else find_entry t block js)
   }"

text \<open>The blocks the searches visit, each with the number of entries looked at: all 16 in
  every block but the last, \<open>dirs % 16\<close> in the last one.\<close>

definition dir_visits :: "u32 \<Rightarrow> (nat \<times> nat) list" where
  "dir_visits sz =
     (let dirs = c_div (sint sz) 32
      in if 0 < dirs then
           let blks = nat ((dirs - 1) div 16 + 1)
           in map (\<lambda>i. (i, 16)) [0..<blks - 1] @ [(blks - 1, nat (dirs mod 16))]
         else [])"

fun dir_search :: "(dir_t \<Rightarrow> bool option) \<Rightarrow> inode_t \<Rightarrow> (nat \<times> nat) list \<Rightarrow> byte list option \<Rightarrow> 'a store_scheme \<Rightarrow>
    (u32 \<times> byte list \<times> nat) option option" where
  "dir_search t inode [] buf s = Some None"
| "dir_search t inode ((i, n) # is) buf s = do {
     (addr, block) \<leftarrow> getDataBlock buf inode (of_nat (BLOCK_SIZE * i)) s;
     f \<leftarrow> find_entry t block [0..<n];
     (case f of
        Some j \<Rightarrow> Some (Some (addr, block, j))
      | None \<Rightarrow> dir_search t inode is (Some block) s)
   }"

definition name_to_ino :: "byte list \<Rightarrow> inode_t \<Rightarrow> 'a store_scheme \<Rightarrow> u32 option" where
  "name_to_ino name inode s = do {
     r \<leftarrow> dir_search (name_match name) inode (dir_visits (ic_size (i_ic inode))) None s;
     (case r of
        Some (addr, block, j) \<Rightarrow> Some (d_ino (dir_at block j))
      | None \<Rightarrow> Some (-1))
   }"

section \<open>Removing an entry\<close>

definition getLastDir :: "inode_t \<Rightarrow> 'a store_scheme \<Rightarrow> dir_t option" where
  "getLastDir inode s = do {
     let r = (ic_size (i_ic inode) div 32 - 1) mod 16;
     (addr, block) \<leftarrow> getDataBlock None inode (ic_size (i_ic inode) - 32) s;
     Some (dir_at block (unat r))
   }"

definition removable :: "dir_t \<Rightarrow> ('h, 'a) kernel_scheme \<Rightarrow> u32 option" where
  "removable child s =
     (if d_ino child = cwd s then Some (-1)
      else if \<exists>x \<in> set (ai s). i_number x = d_ino child \<and> ic_mode (i_ic x) \<noteq> IFZERO then Some (-1)
      else do {
        inode \<leftarrow> readInode inode_local (d_ino child) s;
        (if ic_mode (i_ic inode) = IFDIR \<and> ic_size (i_ic inode) > 64 then Some (-1)
         else Some (d_ino child))
      })"

text \<open>The test of the loops of \<open>remove\<close>: the name matches and the entry may go.\<close>

definition remove_test :: "byte list \<Rightarrow> ('h, 'a) kernel_scheme \<Rightarrow> dir_t \<Rightarrow> bool option" where
  "remove_test name s d = do {
     m \<leftarrow> name_match name d;
     (if m then do {
        r \<leftarrow> removable d s;
        Some (r \<noteq> -1)
      }
      else Some False)
   }"

text \<open>The result: the return value, the removed entry (untouched caller's memory when
  nothing was removed), the parent's inode.\<close>

definition remove :: "inode_t \<Rightarrow> byte list \<Rightarrow> ('h, 'a) kernel_scheme \<Rightarrow>
    (u32 \<times> dir_t option \<times> inode_t \<times> ('h, 'a) kernel_scheme) option" where
  "remove parent name s = do {
     r \<leftarrow> dir_search (remove_test name s) parent (dir_visits (ic_size (i_ic parent))) None s;
     (case r of
        None \<Rightarrow> Some (-1, None, parent, s)
      | Some (addr, block, j) \<Rightarrow> do {
          let child = dir_at block j;
          last \<leftarrow> getLastDir parent s;
          s \<leftarrow> kwrite addr (put_dir block j last) s;
          let parent = parent\<lparr>i_ic := (i_ic parent)\<lparr>ic_size := ic_size (i_ic parent) - 32\<rparr>\<rparr>;
          s \<leftarrow> writeInode parent s;
          Some (d_ino child, Some child, parent, s)
        })
   }"

section \<open>Adding an entry\<close>

text \<open>\<open>strncpy\<close> of \<open>strlen( name )\<close> characters: no terminator is written, and the bytes
  behind the name keep their old contents. A name longer than the field is written past the
  entry.\<close>

definition set_entry :: "u32 \<Rightarrow> byte list \<Rightarrow> dir_t \<Rightarrow> dir_t option" where
  "set_entry ino name d =
     (if length name \<le> length (d_name d)
      then Some (d\<lparr>d_ino := ino, d_namlen := of_nat (length name),
        d_name := name @ drop (length name) (d_name d)\<rparr>)
      else None)"

text \<open>A directory whose blocks are full gets a new block; the result of the allocation is not
  looked at.\<close>

definition add_room :: "inode_t \<Rightarrow> 'a store_scheme \<Rightarrow> (inode_t \<times> 'a store_scheme) option" where
  "add_room par s =
     (if unat ((ic_size (i_ic par) div 32) mod 16) = 0 \<and> ic_size (i_ic par) > 0 then do {
        (a, par, s) \<leftarrow> allocateDataBlockAddr par (ic_size (i_ic par)) s;
        Some (par, s)
      }
      else Some (par, s))"

definition addInodeToDirectory :: "inode_t \<Rightarrow> u32 \<Rightarrow> byte list \<Rightarrow> 'a store_scheme \<Rightarrow> (inode_t \<times> 'a store_scheme) option"
where
  "addInodeToDirectory par ino name s = do {
     let sz = ic_size (i_ic par);
     let r = unat ((sz div 32) mod 16);
     (par, s) \<leftarrow> add_room par s;
     (addr, block) \<leftarrow> getDataBlock None par sz s;
     d \<leftarrow> set_entry ino name (dir_at block r);
     s \<leftarrow> kwrite addr (put_dir block r d) s;
     let par = par\<lparr>i_ic := (i_ic par)\<lparr>ic_size := sz + 32\<rparr>\<rparr>;
     s \<leftarrow> writeInode par s;
     Some (par, s)
   }"

section \<open>Paths\<close>

text \<open>The tokens \<open>strtok( path, "/" )\<close> returns, and what is left at \<open>path\<close> afterwards: the
  separator after the first token has become its terminator.\<close>

fun split_slash :: "byte list \<Rightarrow> byte list list" where
  "split_slash [] = [[]]"
| "split_slash (c # cs) = (if c = 47 then [] # split_slash cs
     else (case split_slash cs of t # ts \<Rightarrow> (c # t) # ts | [] \<Rightarrow> [[c]]))"

definition tokens :: "byte list \<Rightarrow> byte list list" where
  "tokens path = filter (\<lambda>t. t \<noteq> []) (split_slash path)"

definition after_strtok :: "byte list \<Rightarrow> byte list" where
  "after_strtok path = takeWhile (\<lambda>c. c = 47) path @ takeWhile (\<lambda>c. c \<noteq> 47) (dropWhile (\<lambda>c. c = 47) path)"

text \<open>The loop over the tokens: it stops when they run out or a name is not found. The result
  has the tokens not looked at, the last inode read, \<open>ino0\<close>, \<open>tok0\<close> and \<open>ino\<close>.\<close>

fun walk :: "byte list list \<Rightarrow> inode_t \<Rightarrow> u32 \<Rightarrow> byte list \<Rightarrow> u32 \<Rightarrow> 'a store_scheme \<Rightarrow>
    (byte list list \<times> inode_t \<times> u32 \<times> byte list \<times> u32) option" where
  "walk [] inode ino0 tok0 ino s = Some ([], inode, ino0, tok0, ino)"
| "walk (tok # toks) inode ino0 tok0 ino s =
     (if ino = -1 then Some (tok # toks, inode, ino0, tok0, ino)
      else do {
        inode \<leftarrow> readInode inode ino s;
        ino' \<leftarrow> name_to_ino tok inode s;
        walk toks inode ino tok ino' s
      })"

definition path_to_ino :: "byte list \<Rightarrow> u32 \<Rightarrow> 'a store_scheme \<Rightarrow> u32 option" where
  "path_to_ino path dir s = do {
     (toks, inode, ino0, tok0, ino) \<leftarrow> walk (tokens path) inode_local 0 [] dir s;
     Some ino
   }"

definition path_to_ino2 :: "byte list \<Rightarrow> u32 \<Rightarrow> 'a store_scheme \<Rightarrow> (u32 \<times> 'a store_scheme) option" where
  "path_to_ino2 path dir s = do {
     (toks, inode, ino0, tok0, ino) \<leftarrow> walk (tokens path) inode_local 0 [] dir s;
     (if toks \<noteq> [] \<and> ino = -1 then Some (-1, s)
      else if toks = [] \<and> ino = -1 then do {
        r \<leftarrow> getFreeInode inode s;
        (case r of
           None \<Rightarrow> Some (-2, s)
         | Some inode \<Rightarrow> do {
             (a, s) \<leftarrow> balloc s;
             db \<leftarrow> arr_upd (ic_db (i_ic inode)) 0 a;
             let inode = inode\<lparr>i_ic := (i_ic inode)\<lparr>ic_db := db\<rparr>\<rparr>;
             s \<leftarrow> writeInode inode s;
             parent \<leftarrow> readInode inode_local ino0 s;
             (parent, s) \<leftarrow> addInodeToDirectory parent (i_number inode) tok0 s;
             Some (i_number inode, s)
           })
      }
      else Some (ino, s))
   }"

section \<open>What a name matches\<close>

text \<open>For names the field can hold, the comparison is always defined: the entry must begin with
  the name and, if the entry is longer, have a terminator there. The length the entry records
  is not compared.\<close>

definition matches :: "byte list \<Rightarrow> dir_t \<Rightarrow> bool" where
  "matches name d \<longleftrightarrow> take (length name) (d_name d) = name
     \<and> (length name < unat (d_namlen d) \<longrightarrow> d_name d ! length name = 0)"

lemma strncmp0_name:
  assumes "0 \<notin> set name" and "length name < length b"
  shows "strncmp0 n (name @ [0]) b = Some (take (min n (length name)) b = take n name
    \<and> (length name < n \<longrightarrow> b ! length name = 0))"
  using assms
proof (induction name arbitrary: n b)
  case Nil
  then show ?case by (cases n; cases b) auto
next
  case (Cons x name)
  then obtain y b' where b: "b = y # b'" by (cases b) auto
  with Cons show ?case by (cases n) auto
qed

lemma name_match_eq:
  assumes "0 \<notin> set name" and "length name \<le> 25" and "length (d_name d) = 26"
  shows "name_match name d = Some (matches name d)"
  using assms by (auto simp: name_match_def matches_def strncmp0_name min_def not_le)

section \<open>A directory as a list of entries\<close>

definition dirent :: "'a store_scheme \<Rightarrow> icommon_t \<Rightarrow> nat \<Rightarrow> dir_t" where
  "dirent s ic k = dir_at (blk s (fblk s ic (k div 16))) (k mod 16)"

definition entries :: "'a store_scheme \<Rightarrow> icommon_t \<Rightarrow> nat \<Rightarrow> dir_t list" where
  "entries s ic n = map (dirent s ic) [0..<n]"

text \<open>A directory of \<open>n\<close> entries in \<open>dir_nblocks n\<close> blocks, of which the searches see
  \<open>visible n\<close>.\<close>

definition dir_nblocks :: "nat \<Rightarrow> nat" where
  "dir_nblocks n = (n - 1) div 16 + 1"

definition visible :: "nat \<Rightarrow> nat" where
  "visible n = (if n mod 16 = 0 then n - 16 else n)"

definition dir_inv :: "'a store_scheme \<Rightarrow> icommon_t \<Rightarrow> nat \<Rightarrow> u32 list \<Rightarrow> bool" where
  "dir_inv s ic n xs \<longleftrightarrow> ic_size ic = of_nat (32 * n) \<and> 0 < n \<and> n \<le> 16 * 139 \<and> file_inv s ic (dir_nblocks n) xs"

lemma visible_eq: "0 < n \<Longrightarrow> visible n = 16 * ((n - 1) div 16) + n mod 16"
proof -
  assume "0 < n"
  then obtain k where n: "n = Suc k" using gr0_conv_Suc by blast
  show ?thesis
  proof (cases "n mod 16 = 0")
    case True
    then obtain q where "n = 16 * Suc q" using \<open>0 < n\<close> by (metis dvd_def mod_eq_0_iff_dvd mult_0_right not0_implies_Suc less_irrefl)
    moreover from this have "(n - 1) div 16 = q" by simp
    ultimately show ?thesis by (simp add: visible_def)
  next
    case False
    then have "k div 16 = n div 16" using n by (metis mod_Suc div_Suc)
    with False n show ?thesis by (simp add: visible_def)
  qed
qed

lemma dir_visits_eq:
  assumes "0 < n" and "n \<le> 16 * 139"
  shows "dir_visits (of_nat (32 * n)) = map (\<lambda>i. (i, 16)) [0..<(n - 1) div 16] @ [((n - 1) div 16, n mod 16)]"
proof -
  have "unat (of_nat (32 * n) :: u32) = 32 * n" using assms by (intro unat_of_nat_u32) simp
  then have "sint (of_nat (32 * n) :: u32) = int (32 * n)" using assms by (simp add: sint_of_unat)
  then have d: "c_div (sint (of_nat (32 * n) :: u32)) 32 = int n" by (simp add: c_div_def)
  have m: "int n mod 16 = int (n mod 16)" by (simp add: zmod_int)
  have b: "(int n - 1) div 16 + 1 = int ((n - 1) div 16 + 1)" using assms(1) by (simp add: zdiv_int of_nat_diff)
  show ?thesis unfolding dir_visits_def d Let_def b m nat_int using assms(1) by simp
qed

lemma find_entry_find:
  assumes "\<And>j. j \<in> set js \<Longrightarrow> t (dir_at b j) = Some (P (dir_at b j))"
  shows "find_entry t b js = Some (find (\<lambda>j. P (dir_at b j)) js)"
  using assms by (induction js) auto

lemma getDataBlock_fblk:
  assumes "formatted s" and "file_inv s (i_ic inode) n xs" and "unat byt div 512 < n"
  shows "getDataBlock buf inode byt s = Some (fblk s (i_ic inode) (unat byt div 512), blk s (fblk s (i_ic inode) (unat byt div 512)))"
proof -
  have "valid s (fblk s (i_ic inode) (unat byt div 512))"
    using file_inv_fblk(1) [OF assms(2,3)] data_addr_valid [OF assms(1)] by blast
  then show ?thesis
    using getDataBlockAddr_fblk [OF assms] by (simp add: getDataBlock_def split: option.split)
qed

text \<open>The entries of one block.\<close>

lemma search_block:
  assumes "formatted s" and "file_inv s (i_ic inode) n xs" and "i < n" and "c \<le> 16"
    and "\<And>k. k < 16 * i + c \<Longrightarrow> t (dirent s (i_ic inode) k) = Some (P (dirent s (i_ic inode) k))"
  defines "a \<equiv> fblk s (i_ic inode) i"
  shows "getDataBlock buf inode (of_nat (512 * i)) s = Some (a, blk s a)"
    and "find_entry t (blk s a) [0..<c] = Some (map_option (\<lambda>k. k mod 16)
      (find (\<lambda>k. P (dirent s (i_ic inode) k)) [16 * i..<16 * i + c]))"
proof -
  have "n \<le> 139" using assms(2) by (simp add: file_inv_def)
  then have "unat (of_nat (i * 512) :: u32) = i * 512" using assms(3) by (intro of_nat_block) simp
  then have "unat (of_nat (512 * i) :: u32) div 512 = i" by (simp add: mult.commute)
  then show "getDataBlock buf inode (of_nat (512 * i)) s = Some (a, blk s a)"
    using getDataBlock_fblk [OF assms(1,2), of "of_nat (512 * i)" buf] assms(3) by (simp add: a_def)
  have ent: "dirent s (i_ic inode) (16 * i + j) = dir_at (blk s a) j" if "j < 16" for j
    using that by (simp add: dirent_def a_def)
  have "find_entry t (blk s a) [0..<c] = Some (find (\<lambda>j. P (dir_at (blk s a) j)) [0..<c])"
  proof (rule find_entry_find)
    fix j assume "j \<in> set [0..<c]"
    then show "t (dir_at (blk s a) j) = Some (P (dir_at (blk s a) j))"
      using assms(4) assms(5) [of "16 * i + j"] ent [of j] by simp
  qed
  also have "find (\<lambda>j. P (dir_at (blk s a) j)) [0..<c] = find (\<lambda>j. P (dirent s (i_ic inode) (16 * i + j))) [0..<c]"
    using ent assms(4) by (intro find_cong) auto
  also have "\<dots> = map_option (\<lambda>k. k mod 16) (map_option (\<lambda>j. 16 * i + j) (find (\<lambda>j. P (dirent s (i_ic inode) (16 * i + j))) [0..<c]))"
    using assms(4) by (cases "find (\<lambda>j. P (dirent s (i_ic inode) (16 * i + j))) [0..<c]") (auto dest!: find_upt_Some)
  also have "map_option (\<lambda>j. 16 * i + j) (find (\<lambda>j. P (dirent s (i_ic inode) (16 * i + j))) [0..<c])
      = find (\<lambda>k. P (dirent s (i_ic inode) k)) (map (\<lambda>j. 16 * i + j) [0..<c])" by (simp add: find_map)
  also have "map (\<lambda>j. 16 * i + j) [0..<c] = [16 * i..<16 * i + c]" by (rule nth_equalityI) auto
  finally show "find_entry t (blk s a) [0..<c] = Some (map_option (\<lambda>k. k mod 16)
      (find (\<lambda>k. P (dirent s (i_ic inode) k)) [16 * i..<16 * i + c]))" .
qed

lemma dir_search_find:
  assumes "formatted s" and "file_inv s (i_ic inode) n xs" and "b < n" and "c \<le> 16" and "a \<le> b"
    and "\<And>k. k < 16 * b + c \<Longrightarrow> t (dirent s (i_ic inode) k) = Some (P (dirent s (i_ic inode) k))"
  shows "dir_search t inode (map (\<lambda>i. (i, 16)) [a..<b] @ [(b, c)]) buf s =
    Some (map_option (\<lambda>k. (fblk s (i_ic inode) (k div 16), blk s (fblk s (i_ic inode) (k div 16)), k mod 16))
      (find (\<lambda>k. P (dirent s (i_ic inode) k)) [16 * a..<16 * b + c]))"
  using assms(5)
proof (induction "b - a" arbitrary: a buf)
  case 0
  then have ab: "a = b" by simp
  let ?f = "find (\<lambda>k. P (dirent s (i_ic inode) k)) [16 * b..<16 * b + c]"
  have "k div 16 = b" if "?f = Some k" for k
    using that assms(4) by (auto simp: find_Some_iff)
  with search_block [where t = t and P = P, OF assms(1-4,6)] ab show ?case by (cases ?f) auto
next
  case (Suc d)
  then have ab: "a < b" "d = b - Suc a" by auto
  let ?P = "\<lambda>k. P (dirent s (i_ic inode) k)"
  have t: "t (dirent s (i_ic inode) k) = Some (P (dirent s (i_ic inode) k))" if "k < 16 * a + 16" for k
    using that ab(1) by (intro assms(6)) linarith
  have IH: "dir_search t inode (map (\<lambda>i. (i, 16)) [Suc a..<b] @ [(b, c)]) buf' s =
      Some (map_option (\<lambda>k. (fblk s (i_ic inode) (k div 16), blk s (fblk s (i_ic inode) (k div 16)), k mod 16))
        (find ?P [16 * Suc a..<16 * b + c]))" for buf'
    using Suc.hyps(1) [OF ab(2)] ab(1) by simp
  have split: "[16 * a..<16 * b + c] = [16 * a..<16 * a + 16] @ [16 * Suc a..<16 * b + c]"
    using ab(1) upt_split [of "16 * a" "16 * a + 16" "16 * b + c"] by (simp add: add.commute)
  have "k div 16 = a" if "find ?P [16 * a..<16 * a + 16] = Some k" for k
    using that by (auto simp: find_Some_iff)
  moreover have "a < n" using ab(1) assms(3) by simp
  moreover note search_block [where t = t and P = P, OF assms(1,2) \<open>a < n\<close> order_refl t]
  ultimately show ?case
    using IH unfolding split find_append
    by (cases "find ?P [16 * a..<16 * a + 16]") (auto simp: upt_conv_Cons [OF ab(1)])
qed

lemma dirent_wf:
  assumes "formatted s" and "file_inv s ic m xs" and "k div 16 < m"
  shows "wf_dir (dirent s ic k)"
proof -
  have "valid s (fblk s ic (k div 16))"
    using file_inv_fblk(1) [OF assms(2,3)] data_addr_valid [OF assms(1)] by blast
  then show ?thesis using assms(1) by (simp add: dirent_def)
qed

lemma visible_le: "visible n \<le> n"
  by (simp add: visible_def)

lemma dir_block_bound: "k < n \<Longrightarrow> k div 16 < dir_nblocks n"
  by (simp add: dir_nblocks_def less_Suc_eq_le div_le_mono)

text \<open>A search of a whole directory: the first visible entry that passes the test.\<close>

lemma search_visible:
  assumes "formatted s" and "dir_inv s (i_ic inode) n xs"
    and "\<And>k. k < visible n \<Longrightarrow> t (dirent s (i_ic inode) k) = Some (P (dirent s (i_ic inode) k))"
  shows "dir_search t inode (dir_visits (ic_size (i_ic inode))) None s =
    Some (map_option (\<lambda>k. (fblk s (i_ic inode) (k div 16), blk s (fblk s (i_ic inode) (k div 16)), k mod 16))
      (find (\<lambda>k. P (dirent s (i_ic inode) k)) [0..<visible n]))"
proof -
  let ?b = "(n - 1) div 16"
  have n: "0 < n" "n \<le> 16 * 139" "ic_size (i_ic inode) = of_nat (32 * n)"
    and fi: "file_inv s (i_ic inode) (dir_nblocks n) xs" using assms(2) by (simp_all add: dir_inv_def)
  have v: "16 * ?b + n mod 16 = visible n" using visible_eq [OF n(1)] by simp
  have b: "?b < dir_nblocks n" by (simp add: dir_nblocks_def)
  have "dir_search t inode (map (\<lambda>i. (i, 16)) [0..<?b] @ [(?b, n mod 16)]) None s =
      Some (map_option (\<lambda>k. (fblk s (i_ic inode) (k div 16), blk s (fblk s (i_ic inode) (k div 16)), k mod 16))
        (find (\<lambda>k. P (dirent s (i_ic inode) k)) [16 * 0..<16 * ?b + n mod 16]))"
    by (rule dir_search_find [OF assms(1) fi b]) (simp, simp, simp only: v assms(3))
  then show ?thesis unfolding n(3) dir_visits_eq [OF n(1,2)] v by simp
qed

lemma name_to_ino_find:
  assumes "formatted s" and "dir_inv s (i_ic inode) n xs" and "0 \<notin> set name" and "length name \<le> 25"
  shows "name_to_ino name inode s = Some (case find (matches name) (take (visible n) (entries s (i_ic inode) n)) of
    Some d \<Rightarrow> d_ino d | None \<Rightarrow> -1)"
proof -
  let ?ic = "i_ic inode"
  have fi: "file_inv s ?ic (dir_nblocks n) xs" using assms(2) by (simp add: dir_inv_def)
  have m: "name_match name (dirent s ?ic k) = Some (matches name (dirent s ?ic k))" if "k < visible n" for k
    using that visible_le [of n] dirent_wf [OF assms(1) fi dir_block_bound, of k] assms(3,4)
    by (intro name_match_eq) (simp_all add: wf_dir_def)
  have srch: "dir_search (name_match name) inode (dir_visits (ic_size ?ic)) None s =
      Some (map_option (\<lambda>k. (fblk s ?ic (k div 16), blk s (fblk s ?ic (k div 16)), k mod 16))
        (find (\<lambda>k. matches name (dirent s ?ic k)) [0..<visible n]))"
    using m by (rule search_visible [OF assms(1,2)])
  have "take (visible n) (entries s ?ic n) = map (dirent s ?ic) [0..<visible n]"
    using visible_le [of n] by (simp add: entries_def take_map)
  then have "find (matches name) (take (visible n) (entries s ?ic n)) =
      map_option (dirent s ?ic) (find (\<lambda>k. matches name (dirent s ?ic k)) [0..<visible n])" by (simp add: find_map)
  then show ?thesis unfolding name_to_ino_def srch
    by (cases "find (\<lambda>k. matches name (dirent s ?ic k)) [0..<visible n]") (simp_all add: dirent_def)
qed

section \<open>Adding an entry\<close>

text \<open>The free blocks an addition to a directory of \<open>n\<close> entries takes.\<close>

definition add_cost :: "nat \<Rightarrow> nat" where
  "add_cost n = (if n mod 16 = 0 then grow_need (n div 16) else 0)"

lemma dir_nblocks_Suc: "dir_nblocks (Suc n) = Suc (n div 16)"
  by (simp add: dir_nblocks_def)

lemma dir_nblocks_full: "0 < n \<Longrightarrow> dir_nblocks n = (if n mod 16 = 0 then n div 16 else Suc (n div 16))"
proof -
  assume "0 < n"
  then obtain k where n: "n = Suc k" using gr0_conv_Suc by blast
  then show ?thesis by (simp add: dir_nblocks_def div_Suc)
qed

lemma entries_cong:
  assumes "\<And>i. i < dir_nblocks n \<Longrightarrow> fblk s' ic' i = fblk s ic i"
    and "\<And>i. i < dir_nblocks n \<Longrightarrow> blk s' (fblk s ic i) = blk s (fblk s ic i)"
  shows "entries s' ic' n = entries s ic n"
proof -
  have "dirent s' ic' k = dirent s ic k" if "k < n" for k
  proof -
    have "k div 16 < dir_nblocks n" using that by (simp add: dir_nblocks_def less_Suc_eq_le div_le_mono)
    then show ?thesis using assms by (simp add: dirent_def)
  qed
  then show ?thesis by (simp add: entries_def)
qed

text \<open>First part: the block of the new entry is there, taken from the pool when the last one
  is full.\<close>

lemma add_block:
  assumes ai: "alloc_inv s xs" and di: "dir_inv s (i_ic par) n xs" and num: "unat (i_number par) < 512"
    and n: "n < 16 * 139" and cost: "add_cost n \<le> length xs"
  shows "\<exists>par1 s1. add_room par s = Some (par1, s1)
    \<and> alloc_inv s1 (drop (add_cost n) xs) \<and> file_inv s1 (i_ic par1) (Suc (n div 16)) (drop (add_cost n) xs)
    \<and> entries s1 (i_ic par1) n = entries s (i_ic par) n \<and> grown xs (dir_nblocks n) (Suc (n div 16)) par s par1 s1
    \<and> (if n mod 16 = 0 then fblk s1 (i_ic par1) (n div 16) \<in> set xs else par1 = par \<and> s1 = s)"
proof -
  define sz where "sz = ic_size (i_ic par)"
  have n0: "0 < n" and sz: "sz = of_nat (32 * n)" and fi: "file_inv s (i_ic par) (dir_nblocks n) xs"
    using di by (simp_all add: dir_inv_def sz_def)
  have u: "unat sz = 32 * n" unfolding sz using n by (intro unat_of_nat_u32) simp
  have r: "unat ((sz div 32) mod 16) = n mod 16" using u by (simp add: unat_mod unat_div)
  have pos: "sz > 0" using u n0 by (simp add: word_less_nat_alt)
  show ?thesis
  proof (cases "n mod 16 = 0")
    case True
    then have m: "dir_nblocks n = n div 16" "add_cost n = grow_need (n div 16)"
      using dir_nblocks_full [OF n0] by (simp_all add: add_cost_def)
    have "unat sz div 512 = n div 16" using u by simp
    moreover have "n div 16 < 139" using n by simp
    ultimately obtain par1 s1 where st: "allocateDataBlockAddr par sz s = Some (hd xs, par1, s1)"
      "alloc_inv s1 (drop (add_cost n) xs)" "file_inv s1 (i_ic par1) (Suc (n div 16)) (drop (add_cost n) xs)"
      "grown xs (n div 16) (Suc (n div 16)) par s par1 s1" "fblk s1 (i_ic par1) (n div 16) = hd xs"
      using allocate_step [OF ai fi [unfolded m(1)] num] cost m(2) by metis
    have "entries s1 (i_ic par1) n = entries s (i_ic par) n"
    proof (rule entries_cong)
      fix i assume "i < dir_nblocks n"
      then have i: "i < n div 16" using m(1) by simp
      then show "fblk s1 (i_ic par1) i = fblk s (i_ic par) i" using st(4) by (simp add: grown_def)
      have "n div 16 \<le> 11 \<or> fblk s (i_ic par) i \<noteq> ic_ib (i_ic par) ! 0"
        using file_inv_fblk(4) [OF fi, of i] i m(1) by linarith
      then show "blk s1 (fblk s (i_ic par) i) = blk s (fblk s (i_ic par) i)"
        using st(4) file_inv_fblk(1,2) [OF fi, of i] i m(1) by (simp add: grown_def)
    qed
    moreover have "hd xs \<in> set xs" using cost m(2) by (cases xs) (auto simp: grow_need_def split: if_splits)
    ultimately show ?thesis using st r pos True m(1) by (auto simp: add_room_def sz_def)
  next
    case False
    then have "dir_nblocks n = Suc (n div 16)" "add_cost n = 0"
      using dir_nblocks_full [OF n0] by (simp_all add: add_cost_def)
    with ai fi r False show ?thesis by (simp add: grown_refl add_room_def sz_def)
  qed
qed

lemma set_entry_ok:
  "length name \<le> 26 \<Longrightarrow> wf_dir d \<Longrightarrow> \<exists>d'. set_entry ino name d = Some d' \<and> wf_dir d' \<and> d_ino d' = ino
     \<and> unat (d_namlen d') = length name \<and> take (length name) (d_name d') = name"
  by (simp add: set_entry_def wf_dir_def unat_of_nat)

text \<open>Writing one entry and then the inode with a new size, as additions and removals do.\<close>

lemma entry_write:
  assumes ai: "alloc_inv s xs" and fi: "file_inv s (i_ic par) m xs" and num: "unat (i_number par) < 512"
    and k: "k div 16 < m" and d: "wf_dir d"
  defines "a \<equiv> fblk s (i_ic par) (k div 16)"
  fixes z :: u32
  defines "par' \<equiv> par\<lparr>i_ic := (i_ic par)\<lparr>ic_size := z\<rparr>\<rparr>"
  shows "\<exists>s'. do { s \<leftarrow> kwrite a (put_dir (blk s a) (k mod 16) d) s; writeInode par' s } = Some s'
    \<and> alloc_inv s' xs \<and> file_inv s' (i_ic par') m xs
    \<and> (\<forall>i. i div 16 < m \<longrightarrow> dirent s' (i_ic par') i = (if i = k then d else dirent s (i_ic par) i))
    \<and> itab s' (unat (i_number par)) = i_ic par' \<and> (\<forall>m<512. m \<noteq> unat (i_number par) \<longrightarrow> itab s' m = itab s m)
    \<and> (\<forall>c. data_addr c \<and> c \<noteq> a \<longrightarrow> blk s' c = blk s c) \<and> store.more s' = store.more s"
proof -
  let ?ic = "i_ic par" and ?x = "put_dir (blk s a) (k mod 16) d"
  have a: "data_addr a" "a \<notin> set xs" using file_inv_fblk(1,2) [OF fi k] by (simp_all add: a_def)
  have f: "formatted s" using ai by (simp add: alloc_inv_def)
  have lena: "length (blk s a) = 512" using f data_addr_valid [OF f a(1)] by simp
  then have len: "length ?x = 512" using d by simp
  let ?s1 = "s\<lparr>dsk := (dsk s)\<lparr>dblk := (blk s)(a := ?x)\<rparr>\<rparr>"
  note w = data_write [OF ai a len]
  have fi1: "file_inv ?s1 ?ic m xs" and fb1: "\<And>i. i < m \<Longrightarrow> fblk ?s1 ?ic i = fblk s ?ic i"
    using file_inv_write [OF fi k, where x = ?x] by (simp_all add: a_def)
  have wf: "wf_ic (i_ic par')" using fi by (simp add: file_inv_def par'_def wf_ic_def)
  from writeInode_meta [OF w(2), of par'] num wf obtain s' where
    s': "writeInode par' ?s1 = Some s'" "alloc_inv s' xs" "meta_only (unat (i_number par)) ?s1 s'"
      "itab s' (unat (i_number par)) = i_ic par'" by (auto simp: par'_def)
  have b: "blk s' c = blk ?s1 c" if "data_addr c" for c using s'(3) that by (simp add: meta_only_def)
  have idx: "11 < m \<Longrightarrow> blk s' (ic_ib ?ic ! 0) = blk ?s1 (ic_ib ?ic ! 0)"
    using b file_inv_index(1) [OF fi1] by blast
  note same = file_inv_same [OF fi1 idx]
  have "dirent s' (i_ic par') i = (if i = k then d else dirent s ?ic i)" if i: "i div 16 < m" for i
  proof -
    have da: "data_addr (fblk s ?ic (i div 16))" by (rule file_inv_fblk(1) [OF fi i])
    have "fblk s ?ic (i div 16) = a \<longleftrightarrow> i div 16 = k div 16"
      using file_inv_fblk(3) [OF fi i k] by (simp add: a_def)
    moreover have "dirent s' (i_ic par') i = dir_at (blk ?s1 (fblk s ?ic (i div 16))) (i mod 16)"
      using b [OF da] same(2) [of "i div 16"] i fb1 [OF i] by (simp add: dirent_def par'_def)
    moreover have "i = k \<longleftrightarrow> i div 16 = k div 16 \<and> i mod 16 = k mod 16" by (metis div_mult_mod_eq)
    ultimately show ?thesis using d lena by (auto simp: dirent_def dir_at_put_dir)
  qed
  moreover have "blk s' c = blk s c" if "data_addr c" "c \<noteq> a" for c using b [OF that(1)] that(2) by simp
  moreover have "\<forall>m<512. m \<noteq> unat (i_number par) \<longrightarrow> itab s' m = itab s m"
    using s'(3) w(3) by (simp add: meta_only_def)
  ultimately show ?thesis using w(1) s' same(1) by (simp add: meta_only_def par'_def)
qed

lemma add_write:
  assumes "alloc_inv s xs" and fi: "file_inv s (i_ic par) (Suc (n div 16)) xs" and "unat (i_number par) < 512"
    and n: "0 < n" "n < 16 * 139" and "wf_dir d"
  defines "a \<equiv> fblk s (i_ic par) (n div 16)"
    and "par' \<equiv> par\<lparr>i_ic := (i_ic par)\<lparr>ic_size := of_nat (32 * n) + 32\<rparr>\<rparr>"
  shows "\<exists>s'. do { s \<leftarrow> kwrite a (put_dir (blk s a) (n mod 16) d) s; writeInode par' s } = Some s'
    \<and> alloc_inv s' xs \<and> dir_inv s' (i_ic par') (Suc n) xs \<and> entries s' (i_ic par') (Suc n) = entries s (i_ic par) n @ [d]
    \<and> itab s' (unat (i_number par)) = i_ic par' \<and> (\<forall>m<512. m \<noteq> unat (i_number par) \<longrightarrow> itab s' m = itab s m)
    \<and> (\<forall>c. data_addr c \<and> c \<noteq> a \<longrightarrow> blk s' c = blk s c) \<and> store.more s' = store.more s"
proof -
  from entry_write [OF assms(1,2,3) _ assms(6), of n "of_nat (32 * n) + 32"] obtain s' where
    s': "do { s \<leftarrow> kwrite a (put_dir (blk s a) (n mod 16) d) s; writeInode par' s } = Some s'"
      "alloc_inv s' xs" "file_inv s' (i_ic par') (Suc (n div 16)) xs"
      "\<forall>i. i div 16 < Suc (n div 16) \<longrightarrow> dirent s' (i_ic par') i = (if i = n then d else dirent s (i_ic par) i)"
      "itab s' (unat (i_number par)) = i_ic par'" "\<forall>m<512. m \<noteq> unat (i_number par) \<longrightarrow> itab s' m = itab s m"
      "\<forall>c. data_addr c \<and> c \<noteq> a \<longrightarrow> blk s' c = blk s c" "store.more s' = store.more s"
    unfolding a_def par'_def by blast
  have "dir_inv s' (i_ic par') (Suc n) xs"
    using s'(3) n by (simp add: dir_inv_def dir_nblocks_Suc par'_def algebra_simps)
  moreover have "entries s' (i_ic par') (Suc n) = entries s (i_ic par) n @ [d]"
    using s'(4) by (auto simp: entries_def less_Suc_eq_le div_le_mono)
  ultimately show ?thesis using s' by blast
qed

lemma addInodeToDirectory_ok:
  assumes ai: "alloc_inv s xs" and di: "dir_inv s (i_ic par) n xs" and num: "unat (i_number par) < 512"
    and n: "n < 16 * 139" and cost: "add_cost n \<le> length xs" and name: "length name \<le> 26"
  shows "\<exists>par' s' d. addInodeToDirectory par ino name s = Some (par', s')
    \<and> alloc_inv s' (drop (add_cost n) xs) \<and> dir_inv s' (i_ic par') (Suc n) (drop (add_cost n) xs)
    \<and> entries s' (i_ic par') (Suc n) = entries s (i_ic par) n @ [d] \<and> wf_dir d \<and> d_ino d = ino
    \<and> unat (d_namlen d) = length name \<and> take (length name) (d_name d) = name
    \<and> i_number par' = i_number par \<and> ic_mode (i_ic par') = ic_mode (i_ic par) \<and> itab s' (unat (i_number par)) = i_ic par'
    \<and> (\<forall>m<512. m \<noteq> unat (i_number par) \<longrightarrow> itab s' m = itab s m)
    \<and> (\<forall>c. data_addr c \<and> c \<notin> set xs \<and> c \<notin> set (file_blocks s (i_ic par) (dir_nblocks n)) \<longrightarrow> blk s' c = blk s c)
    \<and> (n mod 16 \<noteq> 0 \<longrightarrow> i_ic par' = (i_ic par)\<lparr>ic_size := of_nat (32 * n) + 32\<rparr>) \<and> store.more s' = store.more s"
proof -
  let ?xs = "drop (add_cost n) xs"
  have n0: "0 < n" and sz: "ic_size (i_ic par) = of_nat (32 * n)" and fi0: "file_inv s (i_ic par) (dir_nblocks n) xs"
    using di by (simp_all add: dir_inv_def)
  have u: "unat (ic_size (i_ic par)) = 32 * n" unfolding sz using n by (intro unat_of_nat_u32) simp
  have r: "unat ((ic_size (i_ic par) div 32) mod 16) = n mod 16" using u by (simp add: unat_mod unat_div)
  from add_block [OF ai di num n cost] obtain par1 s1 where
    st: "add_room par s = Some (par1, s1)"
      "alloc_inv s1 ?xs" "file_inv s1 (i_ic par1) (Suc (n div 16)) ?xs" "entries s1 (i_ic par1) n = entries s (i_ic par) n"
      "grown xs (dir_nblocks n) (Suc (n div 16)) par s par1 s1"
      "if n mod 16 = 0 then fblk s1 (i_ic par1) (n div 16) \<in> set xs else par1 = par \<and> s1 = s" by auto
  let ?a = "fblk s1 (i_ic par1) (n div 16)"
  have f1: "formatted s1" using st(2) by (simp add: alloc_inv_def)
  have get: "getDataBlock None par1 (ic_size (i_ic par)) s1 = Some (?a, blk s1 ?a)"
    using getDataBlock_fblk [OF f1 st(3), of "ic_size (i_ic par)" None] u by simp
  have "wf_dir (dir_at (blk s1 ?a) (n mod 16))"
    using dirent_wf [OF f1 st(3), of n] by (simp add: dirent_def)
  from set_entry_ok [OF name this] obtain d where d: "set_entry ino name (dir_at (blk s1 ?a) (n mod 16)) = Some d"
    "wf_dir d" "d_ino d = ino" "unat (d_namlen d) = length name" "take (length name) (d_name d) = name" by blast
  have g: "i_number par1 = i_number par" "ic_size (i_ic par1) = of_nat (32 * n)" "store.more s1 = store.more s"
    using st(5) sz by (simp_all add: grown_def)
  let ?par' = "par1\<lparr>i_ic := (i_ic par1)\<lparr>ic_size := of_nat (32 * n) + 32\<rparr>\<rparr>"
  from add_write [OF st(2,3) _ n0 n d(2)] num g(1) obtain s' where
    w: "do { s \<leftarrow> kwrite ?a (put_dir (blk s1 ?a) (n mod 16) d) s1; writeInode ?par' s } = Some s'"
      "alloc_inv s' ?xs" "dir_inv s' (i_ic ?par') (Suc n) ?xs" "entries s' (i_ic ?par') (Suc n) = entries s1 (i_ic par1) n @ [d]"
      "itab s' (unat (i_number par)) = i_ic ?par'" "\<forall>m<512. m \<noteq> unat (i_number par) \<longrightarrow> itab s' m = itab s1 m"
      "\<forall>c. data_addr c \<and> c \<noteq> ?a \<longrightarrow> blk s' c = blk s1 c" "store.more s' = store.more s1" by auto
  have run: "addInodeToDirectory par ino name s = Some (?par', s')"
    using w(1) get d(1) sz r
    by (cases "kwrite ?a (put_dir (blk s1 ?a) (n mod 16) d) s1") (simp_all add: addInodeToDirectory_def Let_def st(1))
  have frame: "blk s' c = blk s c"
    if c: "data_addr c" "c \<notin> set xs" "c \<notin> set (file_blocks s (i_ic par) (dir_nblocks n))" for c
  proof -
    have "c \<noteq> ?a"
    proof (cases "n mod 16 = 0")
      case True
      then show ?thesis using c(2) st(6) by auto
    next
      case False
      then have k: "n div 16 < dir_nblocks n" using dir_nblocks_full [OF n0] by simp
      then have "?a = fblk s (i_ic par) (n div 16)" using st(5) by (simp add: grown_def)
      then show ?thesis using c(3) k by (auto simp: set_file_blocks)
    qed
    moreover have "blk s1 c = blk s c" using c st(5) by (auto simp: grown_def set_file_blocks split: if_splits)
    ultimately show ?thesis using w(7) c(1) by simp
  qed
  have "n mod 16 \<noteq> 0 \<longrightarrow> i_ic ?par' = (i_ic par)\<lparr>ic_size := of_nat (32 * n) + 32\<rparr>" using st(6) by simp
  then show ?thesis
    using run w st(4) d g frame st(5) by (intro exI [of _ ?par'] exI [of _ s'] exI [of _ d]) (auto simp: grown_def)
qed

section \<open>Creating a file\<close>

lemma file_inv_drop: "file_inv s ic n xs \<Longrightarrow> file_inv s ic n (drop k xs)"
proof -
  assume a: "file_inv s ic n xs"
  have "set (drop k xs) \<subseteq> set xs" by (rule set_drop_subset)
  with a show ?thesis by (auto simp: file_inv_def)
qed

lemma file_inv_meta:
  assumes "file_inv s ic n xs" and "meta_only ino s s'"
  shows "file_inv s' ic n xs" and "i < n \<Longrightarrow> fblk s' ic i = fblk s ic i"
proof -
  have "11 < n \<Longrightarrow> blk s' (ic_ib ic ! 0) = blk s (ic_ib ic ! 0)"
    using assms(2) file_inv_index(1) [OF assms(1)] by (simp add: meta_only_def)
  from file_inv_same(1,2) [OF assms(1) this] show "file_inv s' ic n xs" "i < n \<Longrightarrow> fblk s' ic i = fblk s ic i"
    by auto
qed

lemma entries_meta:
  assumes "dir_inv s ic n xs" and "meta_only ino s s'"
  shows "dir_inv s' ic n xs" and "entries s' ic n = entries s ic n"
proof -
  have fi: "file_inv s ic (dir_nblocks n) xs" using assms(1) by (simp add: dir_inv_def)
  show "dir_inv s' ic n xs" using assms(1) file_inv_meta(1) [OF fi assms(2)] by (simp add: dir_inv_def)
  show "entries s' ic n = entries s ic n"
  proof (rule entries_cong)
    fix i assume i: "i < dir_nblocks n"
    show "fblk s' ic i = fblk s ic i" by (rule file_inv_meta(2) [OF fi assms(2) i])
    show "blk s' (fblk s ic i) = blk s (fblk s ic i)"
      using assms(2) file_inv_fblk(1) [OF fi i] by (simp add: meta_only_def)
  qed
qed

lemma matches_new:
  "unat (d_namlen d) = length name \<Longrightarrow> take (length name) (d_name d) = name \<Longrightarrow> matches name d"
  by (simp add: matches_def)

lemma lookup_new:
  assumes f: "formatted s" and di: "dir_inv s (i_ic inode) (Suc n) xs"
    and ent: "entries s (i_ic inode) (Suc n) = old @ [d]" and len: "length old = n"
    and new: "\<forall>e \<in> set old. \<not> matches name e" and m: "matches name d"
    and name: "0 \<notin> set name" "length name \<le> 25"
  shows "name_to_ino name inode s = Some (if Suc n mod 16 = 0 then -1 else d_ino d)"
proof -
  have "find (matches name) old = None" using new by (simp add: find_None_iff)
  then have a: "find (matches name) (old @ [d]) = Some d" using m by (simp add: find_append)
  have "\<forall>e \<in> set (take k old). \<not> matches name e" for k using new by (meson in_set_takeD)
  then have b: "find (matches name) (take k old) = None" for k by (simp add: find_None_iff)
  have "visible (Suc n) = (if Suc n mod 16 = 0 then Suc n - 16 else Suc n)" by (simp add: visible_def)
  then show ?thesis
    using name_to_ino_find [OF f di name] ent len a b [of "Suc n - 16"] by simp
qed

lemma tokens_single: "47 \<notin> set name \<Longrightarrow> name \<noteq> [] \<Longrightarrow> tokens name = [name]"
proof -
  have "split_slash name = [name]" if "47 \<notin> set name" for name using that by (induction name) auto
  then show "47 \<notin> set name \<Longrightarrow> name \<noteq> [] \<Longrightarrow> tokens name = [name]" by (simp add: tokens_def)
qed

text \<open>A new file in the root directory: the steps of \<open>path_to_ino2\<close> up to the new inode.\<close>

lemma create_inode:
  assumes ai: "alloc_inv s (x # xs)" and free: "ic_mode (itab s k) = IFZERO" "k < 512" and wf: "wf_ic (i_ic inode)"
  defines "new \<equiv> inode\<lparr>i_number := of_nat k, i_ic := (i_ic inode)\<lparr>ic_mode := IFREG, ic_size := 0, ic_db := (ic_db (i_ic inode))[0 := x]\<rparr>\<rparr>"
  shows "\<exists>s1 s2. balloc s = Some (x, s1) \<and> writeInode new s1 = Some s2 \<and> alloc_inv s2 xs \<and> meta_only k s s2
    \<and> itab s2 k = i_ic new \<and> file_inv s2 (i_ic new) 1 xs"
proof -
  from balloc_Cons [OF ai] obtain s1 where s1: "balloc s = Some (x, s1)" "alloc_inv s1 xs" "same_data s s1" by blast
  have k: "unat (i_number new) = k" using free(2) by (simp add: new_def unat_of_nat_u32)
  have wn: "wf_ic (i_ic new)" using wf by (simp add: new_def wf_ic_def)
  from writeInode_meta [OF s1(2) _ wn] k free(2) obtain s2 where
    s2: "writeInode new s1 = Some s2" "alloc_inv s2 xs" "meta_only k s1 s2" "itab s2 k = i_ic new" by auto
  have "data_addr x" "x \<notin> set xs" using bp.pool_owned [OF ai, of x] ai by (auto simp: alloc_inv_def)
  then have "file_inv s2 (i_ic new) 1 xs"
    using wn ai by (simp add: file_inv_def file_blocks_def fblk_def alloc_inv_def) (simp add: new_def wf_ic_def)
  moreover have "meta_only k s s2" using s2(3) balloc_meta(1) [OF s1(3)] meta_only_trans by blast
  ultimately show ?thesis using s1(1) s2 by blast
qed

definition root_inv :: "'a store_scheme \<Rightarrow> nat \<Rightarrow> u32 list \<Rightarrow> bool" where
  "root_inv s n xs \<longleftrightarrow> alloc_inv s xs \<and> dir_inv s (itab s 0) n xs \<and> ic_mode (itab s 0) = IFDIR"

text \<open>Names that fit an entry and a path.\<close>

definition good_name :: "byte list \<Rightarrow> bool" where
  "good_name name \<longleftrightarrow> name \<noteq> [] \<and> length name \<le> MAXNAMLEN \<and> 0 \<notin> set name \<and> 47 \<notin> set name"

lemma lookup_root:
  assumes "formatted s" and "good_name name"
  shows "path_to_ino name 0 s = name_to_ino name (inode_local\<lparr>i_number := 0, i_ic := itab s 0\<rparr>) s"
  using assms tokens_single [of name] readInode_itab [OF assms(1), of 0 inode_local]
  by (simp add: path_to_ino_def good_name_def split: Option.bind_split)

lemma path_create:
  assumes ri: "root_inv s n (x # xs)" and gn: "good_name name"
    and new: "\<forall>e \<in> set (entries s (itab s 0) n). \<not> matches name e"
    and free: "find (\<lambda>k. ic_mode (itab s k) = IFZERO) [0..<512] = Some k"
    and n: "n < 16 * 139" and cost: "add_cost n \<le> length xs"
  shows "\<exists>s'. path_to_ino2 name 0 s = Some (of_nat k, s') \<and> root_inv s' (Suc n) (drop (add_cost n) xs)
    \<and> ic_mode (itab s' k) = IFREG \<and> ic_size (itab s' k) = 0 \<and> file_inv s' (itab s' k) 1 (drop (add_cost n) xs)
    \<and> path_to_ino name 0 s' = Some (if Suc n mod 16 = 0 then -1 else of_nat k)
    \<and> (\<forall>m<512. m \<noteq> 0 \<and> m \<noteq> k \<longrightarrow> itab s' m = itab s m) \<and> store.more s' = store.more s
    \<and> (\<exists>d. entries s' (itab s' 0) (Suc n) = entries s (itab s 0) n @ [d] \<and> d_ino d = of_nat k
          \<and> unat (d_namlen d) = length name \<and> take (length name) (d_name d) = name)
    \<and> ic_db (itab s' k) ! 0 = x \<and> (n mod 16 \<noteq> 0 \<longrightarrow> itab s' 0 = (itab s 0)\<lparr>ic_size := of_nat (32 * n) + 32\<rparr>)
    \<and> (\<forall>c. data_addr c \<and> c \<notin> set xs \<and> c \<notin> set (file_blocks s (itab s 0) (dir_nblocks n)) \<longrightarrow> blk s' c = blk s c)"
proof -
  have ai: "alloc_inv s (x # xs)" and di: "dir_inv s (itab s 0) n (x # xs)" and dirm: "ic_mode (itab s 0) = IFDIR"
    using ri by (simp_all add: root_inv_def)
  have f: "formatted s" using ai by (simp add: alloc_inv_def)
  have k: "k < 512" "ic_mode (itab s k) = IFZERO" using free by (auto simp: find_Some_iff simp del: upt_rec_numeral)
  have k0: "k \<noteq> 0" using k(2) dirm by (intro notI) simp
  let ?root = "inode_local\<lparr>i_number := 0, i_ic := itab s 0\<rparr>" and ?xs = "drop (add_cost n) xs"
  have name: "0 \<notin> set name" "length name \<le> 25" "tokens name = [name]"
    using gn tokens_single by (auto simp: good_name_def)
  have "\<forall>e \<in> set (take (visible n) (entries s (itab s 0) n)). \<not> matches name e"
    using new by (meson in_set_takeD)
  then have "find (matches name) (take (visible n) (entries s (itab s 0) n)) = None" by (simp add: find_None_iff)
  then have "name_to_ino name ?root s = Some (-1)"
    using name_to_ino_find [OF f, of ?root n "x # xs" name] di name by simp
  then have walk: "walk (tokens name) inode_local 0 [] 0 s = Some ([], ?root, 0, name, -1)"
    using readInode_itab [OF f, of 0 inode_local] name(3) by simp
  let ?ic = "(itab s 0)\<lparr>ic_mode := IFREG, ic_size := 0, ic_db := (ic_db (itab s 0))[0 := x]\<rparr>"
  let ?new = "?root\<lparr>i_number := of_nat k, i_ic := ?ic\<rparr>"
  from create_inode [OF ai k(2,1), of ?root] obtain s1 s2 where
    s2: "balloc s = Some (x, s1)" "writeInode ?new s1 = Some s2" "alloc_inv s2 xs" "meta_only k s s2"
      "itab s2 k = ?ic" "file_inv s2 ?ic 1 xs" by auto
  have f2: "formatted s2" using s2(3) by (simp add: alloc_inv_def)
  have i0: "itab s2 0 = itab s 0" using s2(4) k0 by (simp add: meta_only_def)
  let ?par = "inode_local\<lparr>i_number := 0, i_ic := itab s 0\<rparr>"
  have rd: "readInode inode_local 0 s2 = Some ?par" using readInode_itab [OF f2, of 0] i0 by simp
  have "dir_inv s2 (itab s 0) n (x # xs)" using entries_meta(1) [OF di s2(4)] .
  then have di2: "dir_inv s2 (itab s 0) n xs" using file_inv_drop [of s2 _ _ "x # xs" 1] by (simp add: dir_inv_def)
  from addInodeToDirectory_ok [OF s2(3), of ?par n name "of_nat k"] di2 n cost name(2) obtain par' s' d where
    a: "addInodeToDirectory ?par (of_nat k) name s2 = Some (par', s')" "alloc_inv s' ?xs"
      "dir_inv s' (i_ic par') (Suc n) ?xs" "entries s' (i_ic par') (Suc n) = entries s2 (itab s 0) n @ [d]" "d_ino d = of_nat k"
      "unat (d_namlen d) = length name" "take (length name) (d_name d) = name" "itab s' 0 = i_ic par'"
      "\<forall>m<512. m \<noteq> 0 \<longrightarrow> itab s' m = itab s2 m" "store.more s' = store.more s2" "ic_mode (i_ic par') = IFDIR"
      "\<forall>c. data_addr c \<and> c \<notin> set xs \<and> c \<notin> set (file_blocks s2 (itab s 0) (dir_nblocks n)) \<longrightarrow> blk s' c = blk s2 c"
      "n mod 16 \<noteq> 0 \<longrightarrow> i_ic par' = (itab s 0)\<lparr>ic_size := of_nat (32 * n) + 32\<rparr>"
    using dirm by auto
  have run: "path_to_ino2 name 0 s = Some (of_nat k, s')"
    using walk getFreeInode_find [OF f, of ?root] free s2(1,2) rd a(1)
    by (simp add: path_to_ino2_def Let_def wf_ic_def [of "itab s 0", simplified] del: upt_rec_numeral)
  have f': "formatted s'" using a(2) by (simp add: alloc_inv_def)
  have ent: "entries s' (itab s' 0) (Suc n) = entries s (itab s 0) n @ [d]"
    using a(4,8) entries_meta(2) [OF di s2(4)] by simp
  have "name_to_ino name (inode_local\<lparr>i_number := 0, i_ic := itab s' 0\<rparr>) s' = Some (if Suc n mod 16 = 0 then -1 else d_ino d)"
    using a(3,6,7,8) ent new name f' by (intro lookup_new [where xs = ?xs]) (auto simp: entries_def matches_new)
  then have look: "path_to_ino name 0 s' = Some (if Suc n mod 16 = 0 then -1 else of_nat k)"
    using lookup_root [OF f' gn] a(5) by simp
  have ik: "itab s' k = ?ic" using a(9) k(1) k0 s2(5) by simp
  have "file_inv s' ?ic 1 ?xs"
    using file_inv_drop [OF s2(6), of "add_cost n"] by (simp add: file_inv_def file_blocks_def fblk_def)
  moreover have "\<forall>m<512. m \<noteq> 0 \<and> m \<noteq> k \<longrightarrow> itab s' m = itab s m" using a(9) s2(4) by (simp add: meta_only_def)
  moreover have "root_inv s' (Suc n) ?xs" using a(2,3,8,11) by (simp add: root_inv_def)
  moreover have "store.more s' = store.more s" using a(10) s2(4) by (simp add: meta_only_def)
  moreover have "length (ic_db (itab s 0)) = 11" using di by (simp add: dir_inv_def file_inv_def wf_ic_def)
  then have "ic_db (itab s' k) ! 0 = x" using ik by simp
  moreover have "file_blocks s2 (itab s 0) (dir_nblocks n) = file_blocks s (itab s 0) (dir_nblocks n)"
    using file_inv_meta(2) [OF _ s2(4)] di unfolding dir_inv_def file_blocks_def
    by (metis (no_types, lifting) atLeastLessThan_iff map_cong set_upt)
  then have "\<forall>c. data_addr c \<and> c \<notin> set xs \<and> c \<notin> set (file_blocks s (itab s 0) (dir_nblocks n)) \<longrightarrow> blk s' c = blk s c"
    using a(12) s2(4) by (simp add: meta_only_def)
  ultimately show ?thesis using run look ik ent a(5-8,13) by simp
qed

section \<open>Removing an entry\<close>

definition may_go :: "('h, 'a) kernel_scheme \<Rightarrow> dir_t \<Rightarrow> bool" where
  "may_go s d \<longleftrightarrow> d_ino d \<noteq> cwd s
     \<and> \<not> (\<exists>x \<in> set (ai s). i_number x = d_ino d \<and> ic_mode (i_ic x) \<noteq> IFZERO)
     \<and> \<not> (ic_mode (itab s (unat (d_ino d))) = IFDIR \<and> ic_size (itab s (unat (d_ino d))) > 64)"

lemma remove_test_eq:
  assumes "formatted s" and "0 \<notin> set name" and "length name \<le> 25" and "wf_dir d" and "unat (d_ino d) < 512"
  shows "remove_test name s d = Some (matches name d \<and> may_go s d)"
proof -
  have "unat (-1 :: u32) = 2 ^ 32 - 1" by (simp add: unsigned_minus_1_eq_mask mask_eq_exp_minus_1)
  then have "d_ino d \<noteq> -1" using assms(5) by (intro notI) simp
  then show ?thesis
    using assms readInode_itab [OF assms(1,5), of inode_local] name_match_eq [OF assms(2,3), of d]
    by (simp add: remove_test_def removable_def may_go_def wf_dir_def)
qed

lemma file_inv_le: "file_inv s ic m xs \<Longrightarrow> n \<le> m \<Longrightarrow> file_inv s ic n xs"
proof -
  assume fi: "file_inv s ic m xs" and nm: "n \<le> m"
  have s: "set (file_blocks s ic n) \<subseteq> set (file_blocks s ic m)" using nm by (auto simp: set_file_blocks)
  have "inj_on (fblk s ic) {0..<n}" using nm file_inv_fblk(3) [OF fi] by (simp add: inj_on_def)
  moreover have "fblk s ic i \<noteq> ic_ib ic ! 0" if "11 < n" "i < n" for i
    using that nm file_inv_fblk(4) [OF fi, of i] by simp
  ultimately have "distinct (file_blocks s ic n)" by (fastforce simp: file_blocks_def distinct_map)
  with fi s nm show ?thesis by (auto simp: file_inv_def)
qed

lemma dir_nblocks_mono: "m \<le> n \<Longrightarrow> dir_nblocks m \<le> dir_nblocks n"
  by (simp add: dir_nblocks_def div_le_mono)

lemma getLastDir_ok:
  assumes "formatted s" and "dir_inv s (i_ic inode) n xs"
  shows "getLastDir inode s = Some (dirent s (i_ic inode) (n - 1))"
proof -
  have n: "0 < n" "n \<le> 16 * 139" "ic_size (i_ic inode) = of_nat (32 * n)" and fi: "file_inv s (i_ic inode) (dir_nblocks n) xs"
    using assms(2) by (simp_all add: dir_inv_def)
  obtain k where k: "n = Suc k" using n(1) gr0_conv_Suc by blast
  have sz: "ic_size (i_ic inode) - 32 = of_nat (32 * k)" unfolding n(3) k by simp
  have u: "unat (of_nat (32 * k) :: u32) = 32 * k" "unat (of_nat (32 * n) :: u32) = 32 * n"
    using n(2) k by (intro unat_of_nat_u32; simp)+
  have "ic_size (i_ic inode) div 32 = of_nat n" unfolding n(3) using u(2) by (simp add: div_of_nat_u32)
  then have "ic_size (i_ic inode) div 32 - 1 = of_nat k" by (simp add: k)
  moreover have "unat (of_nat k :: u32) = k" using n(2) k by (simp add: unat_of_nat_u32)
  ultimately have r: "unat ((ic_size (i_ic inode) div 32 - 1) mod 16) = k mod 16" by (simp add: unat_mod)
  have "unat (of_nat (32 * k) :: u32) div 512 < dir_nblocks n" unfolding u(1) by (simp add: k dir_nblocks_Suc)
  from getDataBlock_fblk [OF assms(1) fi this, of None] r sz u(1) show ?thesis
    by (simp add: getLastDir_def dirent_def k Let_def)
qed

lemma remove_ok:
  assumes ai: "alloc_inv s xs" and di: "dir_inv s (i_ic par) n xs" and num: "unat (i_number par) < 512"
    and name: "0 \<notin> set name" "length name \<le> 25"
    and ents: "\<forall>e \<in> set (entries s (i_ic par) n). unat (d_ino e) < 512" and n2: "2 \<le> n"
  defines "hit \<equiv> find (\<lambda>k. matches name (dirent s (i_ic par) k) \<and> may_go s (dirent s (i_ic par) k)) [0..<visible n]"
  shows "case hit of
      None \<Rightarrow> remove par name s = Some (-1, None, par, s)
    | Some k \<Rightarrow> \<exists>par' s'. remove par name s = Some (d_ino (entries s (i_ic par) n ! k), Some (entries s (i_ic par) n ! k), par', s')
        \<and> alloc_inv s' xs \<and> dir_inv s' (i_ic par') (n - 1) xs
        \<and> entries s' (i_ic par') (n - 1) = butlast ((entries s (i_ic par) n)[k := last (entries s (i_ic par) n)])
        \<and> itab s' (unat (i_number par)) = i_ic par' \<and> (\<forall>m<512. m \<noteq> unat (i_number par) \<longrightarrow> itab s' m = itab s m)
        \<and> store.more s' = store.more s"
proof -
  let ?ic = "i_ic par"
  have f: "formatted s" using ai by (simp add: alloc_inv_def)
  have n: "0 < n" "n \<le> 16 * 139" "ic_size ?ic = of_nat (32 * n)" and fi: "file_inv s ?ic (dir_nblocks n) xs"
    using di by (simp_all add: dir_inv_def)
  have m: "remove_test name s (dirent s ?ic k) = Some (matches name (dirent s ?ic k) \<and> may_go s (dirent s ?ic k))"
    if "k < visible n" for k
    using that visible_le [of n] remove_test_eq [OF f name dirent_wf [OF f fi dir_block_bound]] ents
    by (simp add: entries_def)
  have srch: "dir_search (remove_test name s) par (dir_visits (ic_size ?ic)) None s =
      Some (map_option (\<lambda>k. (fblk s ?ic (k div 16), blk s (fblk s ?ic (k div 16)), k mod 16)) hit)"
    unfolding hit_def using m by (rule search_visible [OF f di])
  show ?thesis
  proof (cases hit)
    case None
    with srch show ?thesis by (simp add: remove_def)
  next
    case (Some k)
    then have k: "k < n" using find_upt_Some [OF Some [unfolded hit_def]] visible_le [of n] by linarith
    let ?par' = "par\<lparr>i_ic := ?ic\<lparr>ic_size := ic_size ?ic - 32\<rparr>\<rparr>"
    let ?a = "fblk s ?ic (k div 16)" and ?l = "dirent s ?ic (n - 1)"
    have "wf_dir ?l" using dirent_wf [OF f fi dir_block_bound, of "n - 1"] n(1) by simp
    from entry_write [OF ai fi num dir_block_bound [OF k] this, of "ic_size ?ic - 32"] obtain s' where
      s': "do { s \<leftarrow> kwrite ?a (put_dir (blk s ?a) (k mod 16) ?l) s; writeInode ?par' s } = Some s'"
        "alloc_inv s' xs" "file_inv s' (i_ic ?par') (dir_nblocks n) xs"
        "\<forall>i. i div 16 < dir_nblocks n \<longrightarrow> dirent s' (i_ic ?par') i = (if i = k then ?l else dirent s ?ic i)"
        "itab s' (unat (i_number par)) = i_ic ?par'" "\<forall>m<512. m \<noteq> unat (i_number par) \<longrightarrow> itab s' m = itab s m"
        "store.more s' = store.more s" by blast
    have run: "remove par name s = Some (d_ino (dirent s ?ic k), Some (dirent s ?ic k), ?par', s')"
      using s'(1) srch Some getLastDir_ok [OF f di]
      by (cases "kwrite ?a (put_dir (blk s ?a) (k mod 16) ?l) s") (simp_all add: remove_def Let_def dirent_def)
    have "ic_size ?ic - 32 = of_nat (32 * (n - 1))" using n(1,3) by (simp add: of_nat_diff algebra_simps)
    moreover have "file_inv s' (i_ic ?par') (dir_nblocks (n - 1)) xs"
      using s'(3) by (rule file_inv_le) (simp add: dir_nblocks_mono)
    ultimately have di': "dir_inv s' (i_ic ?par') (n - 1) xs" using n2 n(2) by (simp add: dir_inv_def)
    have "entries s' (i_ic ?par') (n - 1) = butlast ((entries s ?ic n)[k := last (entries s ?ic n)])"
    proof (rule nth_equalityI)
      fix i assume "i < length (entries s' (i_ic ?par') (n - 1))"
      then have i: "i < n - 1" by (simp add: entries_def)
      then have "dirent s' (i_ic ?par') i = (if i = k then ?l else dirent s ?ic i)" using s'(4) dir_block_bound [of i n] by simp
      with i k show "entries s' (i_ic ?par') (n - 1) ! i = butlast ((entries s ?ic n)[k := last (entries s ?ic n)]) ! i"
        by (auto simp: entries_def nth_butlast last_conv_nth)
    qed (simp add: entries_def)
    with run s' di' k Some show ?thesis by (auto simp: entries_def)
  qed
qed

text \<open>The views of the disk depend on nothing but the disk.\<close>

lemma same_disk_views:
  assumes "dsk s' = dsk s"
  shows "fblk s' ic i = fblk s ic i" and "file_blocks s' ic n = file_blocks s ic n"
    and "file_inv s' ic n xs = file_inv s ic n xs" and "dirent s' ic i = dirent s ic i"
    and "entries s' ic n = entries s ic n" and "dir_inv s' ic n xs = dir_inv s ic n xs" and "itab s' k = itab s k"
proof -
  show f: "fblk s' ic i = fblk s ic i" for ic i using assms by (simp add: fblk_def)
  then show fb: "file_blocks s' ic n = file_blocks s ic n" for n by (simp add: file_blocks_def)
  then show fi: "file_inv s' ic n xs = file_inv s ic n xs" for n by (simp add: file_inv_def)
  then show "dir_inv s' ic n xs = dir_inv s ic n xs" by (simp add: dir_inv_def)
  show de: "dirent s' ic i = dirent s ic i" for i using f assms by (simp add: dirent_def)
  then show "entries s' ic n = entries s ic n" by (simp add: entries_def)
  show "itab s' k = itab s k" using assms by (simp add: itab_def)
qed

lemma same_disk_alloc:
  assumes "dsk s' = dsk s" and "fs s' = fs s"
  shows "alloc_inv s' xs = alloc_inv s xs" and "formatted s' = formatted s"
  using assms by (simp_all add: alloc_inv_def formatted_def wf_store_def)

section \<open>Properties\<close>

text \<open>C27. Create, then find. A new name created in the root directory with \<open>path_to_ino2\<close> gets
  the lowest unused inode as an empty regular file with one data block of its own, takes its
  blocks from the pool, changes no other inode, and adds one entry to the directory.
  \<open>path_to_ino\<close> then finds it under that inode number, unless the directory now has a
  multiple of 16 entries: then the search does not look at the last block and reports -1.\<close>

theorem create_then_find:
  assumes "root_inv s n (x # xs)" and "good_name name"
    and "\<forall>e \<in> set (entries s (itab s 0) n). \<not> matches name e"
    and "find (\<lambda>k. ic_mode (itab s k) = IFZERO) [0..<512] = Some k"
    and "n < 16 * 139" and "add_cost n \<le> length xs"
  shows "\<exists>s'. path_to_ino2 name 0 s = Some (of_nat k, s') \<and> root_inv s' (Suc n) (drop (add_cost n) xs)
    \<and> ic_mode (itab s' k) = IFREG \<and> ic_size (itab s' k) = 0 \<and> file_inv s' (itab s' k) 1 (drop (add_cost n) xs)
    \<and> path_to_ino name 0 s' = Some (if Suc n mod 16 = 0 then -1 else of_nat k)
    \<and> (\<forall>m<512. m \<noteq> 0 \<and> m \<noteq> k \<longrightarrow> itab s' m = itab s m)"
  using path_create [OF assms] by blast

text \<open>An example: a disk whose root directory is in block 1986 and has an empty entry and one
  for the regular file \<open>P0\<close>, inode 1, with block 2047.\<close>

definition root_ic :: icommon_t where
  "root_ic = \<lparr>ic_mode = IFDIR, ic_size = 64, ic_db = 1986 # replicate 10 0, ic_ib = replicate 3 0\<rparr>"

definition P0_ic :: icommon_t where
  "P0_ic = \<lparr>ic_mode = IFREG, ic_size = 0, ic_db = 2047 # replicate 10 0, ic_ib = replicate 3 0\<rparr>"

definition P0_dir :: dir_t where
  "P0_dir = \<lparr>d_ino = 1, d_namlen = 2, d_name = [80, 48] @ replicate 24 0\<rparr>"

definition took :: store where
  "took = snd (the (balloc fresh))"

definition rooted :: store where
  "rooted = took\<lparr>dsk := (dsk took)\<lparr>dblk := (blk took)(2 := put_ic (put_ic (replicate 512 0) 0 root_ic) 1 P0_ic,
     1986 := put_dir (replicate 512 0) 1 P0_dir, 2047 := replicate 512 0)\<rparr>\<rparr>"

lemma example_wf: "wf_ic root_ic" "wf_ic P0_ic" "wf_dir P0_dir"
  by (simp_all add: root_ic_def P0_ic_def P0_dir_def wf_ic_def wf_dir_def)

lemma rooted_itab:
  "itab rooted 0 = root_ic" "itab rooted 1 = P0_ic" "1 < k \<Longrightarrow> k < 8 \<Longrightarrow> ic_mode (itab rooted k) = IFZERO"
proof -
  have z: "ic_mode (ic_at (replicate 512 0) k) = 0" if "k < 8" for k
    using that by (simp add: ic_at_def word_at_def bytes_u32_def)
  have "blk rooted 2 = put_ic (put_ic (replicate 512 0) 0 root_ic) 1 P0_ic" by (simp add: rooted_def)
  then have at: "itab rooted k = (if k = 1 then P0_ic else if k = 0 then root_ic else ic_at (replicate 512 0) k)" if "k < 8" for k
    using that example_wf by (simp add: itab_def iblock_def ic_at_put_ic)
  then show "itab rooted 0 = root_ic" "itab rooted 1 = P0_ic" by simp_all
  show "ic_mode (itab rooted k) = IFZERO" if "1 < k" "k < 8" using that at z by simp
qed

lemma took_inv: "alloc_inv took (tl wipe_order)" "2047 \<notin> set (tl wipe_order)"
proof -
  have "alloc_inv fresh (2047 # tl wipe_order)" using fresh_inv(2) wipe_order_hd by (metis list.sel(3))
  from balloc_Cons [OF this] show "alloc_inv took (tl wipe_order)" by (auto simp: took_def)
  show "2047 \<notin> set (tl wipe_order)" using distinct_wipe_order wipe_order_hd by (metis distinct.simps(2) list.sel(3))
qed

lemma rooted_file:
  "alloc_inv rooted (tl wipe_order)" "file_inv rooted root_ic 1 (tl wipe_order)" "file_inv rooted P0_ic 1 (tl wipe_order)"
proof -
  have f: "formatted rooted" unfolding rooted_def using took_inv(1) example_wf
    by (simp add: alloc_inv_def formatted_def wf_store_def wf_disk_def)
  have free: "a \<noteq> 1986" "66 \<le> a" if "a \<in> set (tl wipe_order)" for a
  proof -
    have "a \<in> set wipe_order" using that by (metis list.set_sel(2) list.sel(2))
    then show "a \<noteq> 1986" "66 \<le> a" using block_1986_not_free wipe_order_data by (auto simp: data_addr_def)
  qed
  show "alloc_inv rooted (tl wipe_order)"
  proof (rule alloc_inv_frame [OF took_inv(1) f])
    fix a assume a: "a \<in> set (tl wipe_order)"
    then have "a \<noteq> 2047" using took_inv(2) by blast
    with free [OF a] show "blk rooted a = blk took a" by (auto simp: rooted_def)
  qed (simp_all add: rooted_def)
  show "file_inv rooted root_ic 1 (tl wipe_order)" "file_inv rooted P0_ic 1 (tl wipe_order)"
    using free took_inv distinct_wipe_order data_addr_of_nat [of 1986] data_addr_of_nat [of 2047] example_wf
    by (auto simp: file_inv_def file_blocks_def fblk_def root_ic_def P0_ic_def distinct_tl)
qed

lemma rooted_root: "root_inv rooted 2 (tl wipe_order)"
proof -
  have "dir_inv rooted root_ic 2 (tl wipe_order)" using rooted_file(2) by (simp add: dir_inv_def dir_nblocks_def root_ic_def)
  then show ?thesis using rooted_file(1) rooted_itab(1) by (simp add: root_inv_def root_ic_def)
qed

lemma rooted_entries: "entries rooted root_ic 2 = [bytes_dir (replicate 32 0), P0_dir]"
proof -
  have "blk rooted 1986 = put_dir (replicate 512 0) 1 P0_dir" by (simp add: rooted_def)
  then have "dirent rooted root_ic k = (if k = 1 then P0_dir else dir_at (replicate 512 0) k)" if "k < 2" for k
    using that example_wf(3) by (simp add: dirent_def fblk_def root_ic_def dir_at_put_dir)
  then show ?thesis by (simp add: entries_def upt_rec numeral_2_eq_2 dir_at_def)
qed

theorem create_then_find_witness:
  "\<exists>s'. path_to_ino2 [80, 49] 0 rooted = Some (2, s') \<and> root_inv s' 3 (tl (tl wipe_order))
     \<and> path_to_ino [80, 49] 0 s' = Some 2"
proof -
  have "tl wipe_order = 2046 # tl (tl wipe_order)" using wipe_order_hd by (metis list.sel(3))
  then have "root_inv rooted 2 (2046 # tl (tl wipe_order))" using rooted_root by metis
  moreover have "good_name [80, 49]" by (simp add: good_name_def)
  moreover have "\<forall>e \<in> set (entries rooted (itab rooted 0) 2). \<not> matches [80, 49] e"
    by (simp add: rooted_itab rooted_entries matches_def P0_dir_def bytes_dir_def)
  moreover have "find (\<lambda>k. ic_mode (itab rooted k) = IFZERO) [0..<512] = Some 2"
  proof (rule find_upt_SomeI)
    show "\<forall>j<2. \<not> ic_mode (itab rooted j) = IFZERO"
      using rooted_itab by (auto simp: less_2_cases_iff root_ic_def P0_ic_def)
  qed (use rooted_itab(3) [of 2] in simp_all)
  ultimately show ?thesis
    using create_then_find [of rooted 2 2046 "tl (tl wipe_order)" "[80, 49]" 2] by (auto simp: add_cost_def)
qed

text \<open>C28. Removing an entry. \<open>remove\<close> takes the first visible entry of the directory that the
  name matches and that may go: not the working directory, not in the active inode table, not
  a directory with more than two entries. It moves the last entry into its place and makes
  the directory one entry shorter, returns the entry, and changes no other inode and no
  other directory. When there is no such entry it returns -1 and changes nothing.\<close>

theorem remove_spec:
  assumes "alloc_inv s xs" and "dir_inv s (i_ic par) n xs" and "unat (i_number par) < 512"
    and "0 \<notin> set name" and "length name \<le> 25"
    and "\<forall>e \<in> set (entries s (i_ic par) n). unat (d_ino e) < 512" and "2 \<le> n"
  defines "hit \<equiv> find (\<lambda>k. matches name (dirent s (i_ic par) k) \<and> may_go s (dirent s (i_ic par) k)) [0..<visible n]"
  shows "case hit of
      None \<Rightarrow> remove par name s = Some (-1, None, par, s)
    | Some k \<Rightarrow> \<exists>par' s'. remove par name s = Some (d_ino (entries s (i_ic par) n ! k), Some (entries s (i_ic par) n ! k), par', s')
        \<and> alloc_inv s' xs \<and> dir_inv s' (i_ic par') (n - 1) xs
        \<and> entries s' (i_ic par') (n - 1) = butlast ((entries s (i_ic par) n)[k := last (entries s (i_ic par) n)])
        \<and> itab s' (unat (i_number par)) = i_ic par' \<and> (\<forall>m<512. m \<noteq> unat (i_number par) \<longrightarrow> itab s' m = itab s m)
        \<and> store.more s' = store.more s"
  unfolding hit_def using remove_ok [OF assms(1-7)] .

text \<open>The same disk in a kernel whose one process has no open file.\<close>

definition desk :: "unit kernel" where
  "desk = \<lparr>dsk = dsk rooted, fs = fs rooted, pcb = zero_pcb\<lparr>pst := EXECUTING\<rparr> # replicate 7 zero_pcb,
     current = Some 0, rq = rq_of [0], rq_size = 1, mem = (\<lambda>a. ucast a), mq = replicate 32 zero_mq,
     oft = replicate 128 \<lparr>o_inptr = None, o_head = 0\<rparr>, ai = replicate 128 inode_local, cwd = 0,
     uart0 = \<lparr>tx = [], rx = [], host = ()\<rparr>\<rparr>"

lemma desk_store [simp]: "dsk desk = dsk rooted" "fs desk = fs rooted" "blk desk = blk rooted"
  by (simp_all add: desk_def)

lemmas desk_as_rooted = same_disk_views [of desk rooted, OF desk_store(1)] same_disk_alloc [of desk rooted, OF desk_store(1,2)]

theorem remove_spec_witness:
  "\<exists>par s'. remove \<lparr>i_number = 0, i_links = 0, i_ic = root_ic\<rparr> [80, 48] desk = Some (1, Some P0_dir, par, s')
     \<and> dir_inv s' (i_ic par) 1 (tl wipe_order)"
proof -
  let ?par = "\<lparr>i_number = 0, i_links = 0, i_ic = root_ic\<rparr>"
  let ?P = "\<lambda>k. matches [80, 48] (dirent desk root_ic k) \<and> may_go desk (dirent desk root_ic k)"
  have ent: "entries desk root_ic 2 = [bytes_dir (replicate 32 0), P0_dir]"
    by (simp add: desk_as_rooted rooted_entries)
  then have e: "dirent desk root_ic 0 = bytes_dir (replicate 32 0)" "dirent desk root_ic 1 = P0_dir"
    by (simp_all add: entries_def upt_rec numeral_2_eq_2)
  have "itab desk (unat (d_ino P0_dir)) = P0_ic" using rooted_itab(2) by (simp add: desk_as_rooted P0_dir_def)
  then have "may_go desk P0_dir"
    unfolding may_go_def by (simp add: P0_dir_def P0_ic_def) (simp add: desk_def inode_local_def)
  then have "find ?P [0..<visible 2] = Some 1"
    using e by (intro find_upt_SomeI) (simp_all add: visible_def matches_def P0_dir_def bytes_dir_def)
  with remove_spec [of desk "tl wipe_order" ?par 2 "[80, 48]"] ent rooted_root show ?thesis
    by (auto simp: desk_as_rooted rooted_itab root_inv_def P0_dir_def bytes_dir_def bytes_u32_def)
qed

text \<open>Stale names. \<open>addInodeToDirectory\<close> copies the characters of a name without a
  terminator, so an entry written over one that held a longer name still matches the longer
  name: both names then find the new inode.\<close>

lemma stale_name_matches:
  assumes "wf_dir d" and "take (length long) (d_name d) = long" and "length long \<le> 25" and "0 \<notin> set long"
  shows "\<exists>d'. set_entry ino (take n long) d = Some d' \<and> d_ino d' = ino
    \<and> name_match (take n long) d' = Some True \<and> name_match long d' = Some True"
proof -
  let ?n = "min n (length long)"
  have len: "length (d_name d) = 26" "length (take n long) = ?n" using assms(1) by (simp_all add: wf_dir_def min.commute)
  let ?d = "d\<lparr>d_ino := ino, d_namlen := of_nat ?n, d_name := take n long @ drop ?n (d_name d)\<rparr>"
  have set: "set_entry ino (take n long) d = Some ?d" using len assms(3) by (simp add: set_entry_def)
  have pre: "take ?n (d_name d) = take n long" using assms(2) by (metis min.commute take_take)
  then have nm: "d_name ?d = d_name d" using append_take_drop_id [of ?n "d_name d"] by simp
  have "matches long ?d" "matches (take n long) ?d"
    using assms(2,3) nm len pre by (auto simp: matches_def unat_of_nat min_def)
  moreover have "0 \<notin> set (take n long)" using assms(4) by (meson in_set_takeD)
  ultimately show ?thesis
    using set nm len assms(3,4) name_match_eq [of long ?d] name_match_eq [of "take n long" ?d] by (intro exI [of _ ?d]) auto
qed

end
