(* ===== verification/Files.thy ===== *)
theory Files
  imports Directory
begin

text \<open>
  Open files: \<open>getFD\<close>, \<open>getOFT\<close>, \<open>getAIT\<close>, \<open>open\<close>, \<open>close\<close>, \<open>fwrite\<close>, \<open>fread\<close>,
  \<open>lseek\<close>, \<open>tell\<close>, \<open>unlink\<close> and \<open>copyInode\<close> of \<open>src/kernel/kernel.c\<close>.

  A descriptor is an index into the table \<open>fd\<close> of the current process, whose entries point
  into the open file table \<open>oft\<close>, whose entries point into the active inode table \<open>ai\<close>.
  Pointers are indices and \<open>None\<close> is \<open>NULL\<close>. \<open>open\<close> is called \<open>open_file\<close> here.
\<close>

abbreviation (input) OFT_LIMIT :: nat where "OFT_LIMIT \<equiv> FDT_LIMIT * PROCESS_LIMIT"
abbreviation (input) AIT_LIMIT :: nat where "AIT_LIMIT \<equiv> OFT_LIMIT"

abbreviation (input) SEEK_SET :: u32 where "SEEK_SET \<equiv> 0"
abbreviation (input) SEEK_CUR :: u32 where "SEEK_CUR \<equiv> 1"
abbreviation (input) SEEK_END :: u32 where "SEEK_END \<equiv> 2"
abbreviation (input) O_CREAT :: u32 where "O_CREAT \<equiv> 0"
abbreviation (input) O_EXIST :: u32 where "O_EXIST \<equiv> 1"

section \<open>Tables\<close>

text \<open>A search loop: the first index that passes a test.\<close>

fun first_at :: "(nat \<Rightarrow> bool option) \<Rightarrow> nat list \<Rightarrow> nat option option" where
  "first_at t [] = Some None"
| "first_at t (i # is) = do {
     b \<leftarrow> t i;
     (if b then Some (Some i) else first_at t is)
   }"

definition getFD :: "'a procs_scheme \<Rightarrow> u32 option" where
  "getFD s = do {
     cur \<leftarrow> current s;
     x \<leftarrow> arr (pcb s) cur;
     r \<leftarrow> first_at (\<lambda>i. do { p \<leftarrow> arr (fd x) i; Some (p = None) }) [0..<FDT_LIMIT];
     (case r of Some i \<Rightarrow> Some (of_nat i) | None \<Rightarrow> Some (-1))
   }"

definition getOFT :: "('h, 'a) kernel_scheme \<Rightarrow> nat option option" where
  "getOFT s = first_at (\<lambda>i. do { x \<leftarrow> arr (oft s) i; Some (o_inptr x = None) }) [0..<OFT_LIMIT]"

definition getAIT :: "u32 \<Rightarrow> ('h, 'a) kernel_scheme \<Rightarrow> (nat option \<times> ('h, 'a) kernel_scheme) option" where
  "getAIT ino s = do {
     r \<leftarrow> first_at (\<lambda>i. do { x \<leftarrow> arr (ai s) i; Some (i_number x = ino \<and> ic_mode (i_ic x) \<noteq> IFZERO) }) [0..<AIT_LIMIT];
     (case r of
        Some i \<Rightarrow> Some (Some i, s)
      | None \<Rightarrow> do {
          r \<leftarrow> first_at (\<lambda>i. do { x \<leftarrow> arr (ai s) i; Some (ic_mode (i_ic x) = IFZERO) }) [0..<AIT_LIMIT];
          (case r of
             Some i \<Rightarrow> do {
               x \<leftarrow> arr (ai s) i;
               x \<leftarrow> readInode x ino s;
               t \<leftarrow> arr_upd (ai s) i x;
               Some (Some i, s\<lparr>ai := t\<rparr>)
             }
           | None \<Rightarrow> Some (None, s))
        })
   }"

text \<open>Assignments through the pointers.\<close>

definition upd_ai :: "nat \<Rightarrow> (inode_t \<Rightarrow> inode_t) \<Rightarrow> ('h, 'a) kernel_scheme \<Rightarrow> ('h, 'a) kernel_scheme option" where
  "upd_ai k f s = do {
     x \<leftarrow> arr (ai s) k;
     t \<leftarrow> arr_upd (ai s) k (f x);
     Some (s\<lparr>ai := t\<rparr>)
   }"

definition upd_oft :: "nat \<Rightarrow> (ofile_t \<Rightarrow> ofile_t) \<Rightarrow> ('h, 'a) kernel_scheme \<Rightarrow> ('h, 'a) kernel_scheme option" where
  "upd_oft j f s = do {
     x \<leftarrow> arr (oft s) j;
     t \<leftarrow> arr_upd (oft s) j (f x);
     Some (s\<lparr>oft := t\<rparr>)
   }"

definition set_fd :: "u32 \<Rightarrow> nat option \<Rightarrow> 'a procs_scheme \<Rightarrow> 'a procs_scheme option" where
  "set_fd f p s = do {
     cur \<leftarrow> current s;
     x \<leftarrow> arr (pcb s) cur;
     t \<leftarrow> arr_upd (fd x) (unat f) p;
     upd_pcb cur (\<lambda>x. x\<lparr>fd := t\<rparr>) s
   }"

text \<open>The validation at the start of the operations: \<open>None\<close> inside is the return of -1 for a
  descriptor outside the table or not open.\<close>

definition valid_fd :: "u32 \<Rightarrow> 'a procs_scheme \<Rightarrow> nat option option" where
  "valid_fd f s =
     (if sint f < 0 \<or> sint f \<ge> int FDT_LIMIT then Some None
      else do {
        cur \<leftarrow> current s;
        x \<leftarrow> arr (pcb s) cur;
        arr (fd x) (unat f)
      })"

section \<open>Opening and closing\<close>

text \<open>The part of \<open>open\<close> after the inode number is known.\<close>

definition open_ino :: "u32 \<Rightarrow> u32 \<Rightarrow> ('h, 'a) kernel_scheme \<Rightarrow> (u32 \<times> ('h, 'a) kernel_scheme) option" where
  "open_ino f ino s = do {
     (k, s) \<leftarrow> getAIT ino s;
     (case k of
        None \<Rightarrow> Some (-1, s)
      | Some k \<Rightarrow> do {
          j \<leftarrow> getOFT s;
          (case j of
             None \<Rightarrow> Some (-1, s)
           | Some j \<Rightarrow> do {
               s \<leftarrow> upd_ai k (\<lambda>x. x\<lparr>i_links := i_links x + 1\<rparr>) s;
               s \<leftarrow> set_fd f (Some j) s;
               s \<leftarrow> upd_oft j (\<lambda>x. x\<lparr>o_inptr := Some k\<rparr>) s;
               Some (f, s)
             })
        })
   }"

definition open_file :: "byte list \<Rightarrow> u32 \<Rightarrow> ('h, 'a) kernel_scheme \<Rightarrow> (u32 \<times> ('h, 'a) kernel_scheme) option" where
  "open_file path oflag s = do {
     f \<leftarrow> getFD s;
     (if f = -1 then Some (-1, s)
      else do {
        (ino, s) \<leftarrow> (if oflag = O_CREAT then path_to_ino2 path ROOT_DIR s
                     else map_option (\<lambda>ino. (ino, s)) (path_to_ino path ROOT_DIR s));
        (if sint ino < 0 then Some (-1, s) else open_ino f ino s)
      })
   }"

definition close :: "u32 \<Rightarrow> ('h, 'a) kernel_scheme \<Rightarrow> (u32 \<times> ('h, 'a) kernel_scheme) option" where
  "close f s = do {
     p \<leftarrow> valid_fd f s;
     (case p of
        None \<Rightarrow> Some (-1, s)
      | Some j \<Rightarrow> do {
          x \<leftarrow> arr (oft s) j;
          k \<leftarrow> o_inptr x;
          s \<leftarrow> upd_ai k (\<lambda>x. x\<lparr>i_links := i_links x - 1\<rparr>) s;
          inode \<leftarrow> arr (ai s) k;
          s \<leftarrow> (if i_links inode = 0 then do {
                  s \<leftarrow> writeInode inode s;
                  upd_ai k (\<lambda>x. x\<lparr>i_ic := (i_ic x)\<lparr>ic_mode := IFZERO\<rparr>\<rparr>) s
                }
                else Some s);
          s \<leftarrow> upd_oft j (\<lambda>x. x\<lparr>o_inptr := None, o_head := 0\<rparr>) s;
          s \<leftarrow> set_fd f None s;
          Some (0, s)
        })
   }"

section \<open>Reading and writing\<close>

text \<open>The loop of \<open>fwrite\<close>. \<open>data\<close> are the bytes behind the caller's pointer; the block
  buffer goes to disk when the next byte is in another block.\<close>

fun fwrite_loop :: "inode_t \<Rightarrow> u32 \<Rightarrow> byte list \<Rightarrow> u32 \<Rightarrow> nat list \<Rightarrow> u32 \<times> byte list \<Rightarrow> 'a store_scheme \<Rightarrow>
    ((u32 \<times> byte list) \<times> 'a store_scheme) option" where
  "fwrite_loop inode head data n [] b s = Some (b, s)"
| "fwrite_loop inode head data n (i # is) (addr, buf) s = do {
     x \<leftarrow> arr data i;
     buf \<leftarrow> arr_upd buf (unat ((head + of_nat i) mod 512)) x;
     (if of_nat i \<noteq> n - 1 \<and> (head + of_nat i + 1) mod 512 = 0 then do {
        s \<leftarrow> kwrite addr buf s;
        b \<leftarrow> getDataBlock (Some buf) inode (head + of_nat i + 1) s;
        fwrite_loop inode head data n is b s
      }
      else fwrite_loop inode head data n is (addr, buf) s)
   }"

text \<open>First part: room for the bytes; the result of the allocation is not looked at.\<close>

definition fwrite_room :: "nat \<Rightarrow> inode_t \<Rightarrow> u32 \<Rightarrow> u32 \<Rightarrow> ('h, 'a) kernel_scheme \<Rightarrow>
    (inode_t \<times> ('h, 'a) kernel_scheme) option" where
  "fwrite_room k inode head n s =
     (if head + n > ic_size (i_ic inode) then do {
        (r, inode, s) \<leftarrow> allocateDataBlocks inode (head + n - ic_size (i_ic inode)) s;
        s \<leftarrow> upd_ai k (\<lambda>_. inode) s;
        Some (inode, s)
      }
      else Some (inode, s))"

text \<open>Second part: the bytes, block by block.\<close>

definition fwrite_bytes :: "inode_t \<Rightarrow> u32 \<Rightarrow> byte list \<Rightarrow> u32 \<Rightarrow> 'a store_scheme \<Rightarrow> 'a store_scheme option" where
  "fwrite_bytes inode head data n s = do {
     b \<leftarrow> getDataBlock None inode head s;
     ((addr, buf), s) \<leftarrow> fwrite_loop inode head data n [0..<nat (sint n)] b s;
     kwrite addr buf s
   }"

definition fwrite :: "u32 \<Rightarrow> byte list \<Rightarrow> u32 \<Rightarrow> ('h, 'a) kernel_scheme \<Rightarrow> (u32 \<times> ('h, 'a) kernel_scheme) option" where
  "fwrite f data n s = do {
     p \<leftarrow> valid_fd f s;
     (case p of
        None \<Rightarrow> Some (-1, s)
      | Some j \<Rightarrow> do {
          x \<leftarrow> arr (oft s) j;
          k \<leftarrow> o_inptr x;
          inode \<leftarrow> arr (ai s) k;
          (inode, s) \<leftarrow> fwrite_room k inode (o_head x) n s;
          s \<leftarrow> fwrite_bytes inode (o_head x) data n s;
          s \<leftarrow> upd_oft j (\<lambda>x. x\<lparr>o_head := o_head x + n\<rparr>) s;
          Some (0, s)
        })
   }"

text \<open>The loop of \<open>fread\<close> and the bytes it stores at the caller's pointer.\<close>

fun fread_loop :: "inode_t \<Rightarrow> u32 \<Rightarrow> u32 \<Rightarrow> nat list \<Rightarrow> byte list \<Rightarrow> 'a store_scheme \<Rightarrow> byte list option" where
  "fread_loop inode head n [] buf s = Some []"
| "fread_loop inode head n (i # is) buf s = do {
     x \<leftarrow> arr buf (unat ((head + of_nat i) mod 512));
     buf \<leftarrow> (if of_nat i \<noteq> n - 1 \<and> (head + of_nat i + 1) mod 512 = 0
             then map_option snd (getDataBlock (Some buf) inode (head + of_nat i + 1) s)
             else Some buf);
     xs \<leftarrow> fread_loop inode head n is buf s;
     Some (x # xs)
   }"

definition fread_bytes :: "inode_t \<Rightarrow> u32 \<Rightarrow> u32 \<Rightarrow> 'a store_scheme \<Rightarrow> byte list option" where
  "fread_bytes inode head n s = do {
     (addr, buf) \<leftarrow> getDataBlock None inode head s;
     fread_loop inode head n [0..<nat (sint n)] buf s
   }"

text \<open>The result: the return value, the bytes stored and the state.\<close>

definition fread :: "u32 \<Rightarrow> u32 \<Rightarrow> ('h, 'a) kernel_scheme \<Rightarrow> (u32 \<times> byte list \<times> ('h, 'a) kernel_scheme) option" where
  "fread f n s = do {
     p \<leftarrow> valid_fd f s;
     (case p of
        None \<Rightarrow> Some (-1, [], s)
      | Some j \<Rightarrow> do {
          x \<leftarrow> arr (oft s) j;
          k \<leftarrow> o_inptr x;
          inode \<leftarrow> arr (ai s) k;
          (if o_head x + n > ic_size (i_ic inode) then Some (-1, [], s)
           else do {
             data \<leftarrow> fread_bytes inode (o_head x) n s;
             s \<leftarrow> upd_oft j (\<lambda>x. x\<lparr>o_head := o_head x + n\<rparr>) s;
             Some (0, data, s)
           })
        })
   }"

section \<open>Positions\<close>

definition lseek :: "u32 \<Rightarrow> u32 \<Rightarrow> u32 \<Rightarrow> ('h, 'a) kernel_scheme \<Rightarrow> (u32 \<times> ('h, 'a) kernel_scheme) option" where
  "lseek f offset whence s = do {
     p \<leftarrow> valid_fd f s;
     (case p of
        None \<Rightarrow> Some (-1, s)
      | Some j \<Rightarrow> do {
          x \<leftarrow> arr (oft s) j;
          (if whence = SEEK_SET then do {
             s \<leftarrow> upd_oft j (\<lambda>x. x\<lparr>o_head := offset\<rparr>) s;
             Some (offset, s)
           }
           else if whence = SEEK_CUR then do {
             s \<leftarrow> upd_oft j (\<lambda>x. x\<lparr>o_head := o_head x + offset\<rparr>) s;
             Some (o_head x + offset, s)
           }
           else if whence = SEEK_END then do {
             k \<leftarrow> o_inptr x;
             inode \<leftarrow> arr (ai s) k;
             s \<leftarrow> upd_oft j (\<lambda>x. x\<lparr>o_head := ic_size (i_ic inode) + offset\<rparr>) s;
             Some (ic_size (i_ic inode) + offset, s)
           }
           else Some (-1, s))
        })
   }"

definition tell :: "u32 \<Rightarrow> ('h, 'a) kernel_scheme \<Rightarrow> u32 option" where
  "tell f s = do {
     p \<leftarrow> valid_fd f s;
     (case p of
        None \<Rightarrow> Some (-1)
      | Some j \<Rightarrow> do {
          x \<leftarrow> arr (oft s) j;
          Some (o_head x)
        })
   }"

section \<open>Removing and copying files\<close>

definition unlink :: "byte list \<Rightarrow> ('h, 'a) kernel_scheme \<Rightarrow> (u32 \<times> ('h, 'a) kernel_scheme) option" where
  "unlink name s =
     (if hd (name @ [0]) = 46 then Some (-1, s)
      else do {
        inode \<leftarrow> readInode inode_local (cwd s) s;
        (r, d, inode, s) \<leftarrow> remove inode name s;
        (if r \<noteq> -1 then do {
           d \<leftarrow> d;
           inode \<leftarrow> readInode inode (d_ino d) s;
           s \<leftarrow> freeDataBlocks inode s;
           let inode = inode\<lparr>i_ic := (i_ic inode)\<lparr>ic_mode := IFZERO, ic_size := 0\<rparr>\<rparr>;
           s \<leftarrow> writeInode inode s;
           Some (0, s)
         }
         else Some (-1, s))
      })"

text \<open>The loop of \<open>copyInode\<close> over the blocks that hold bytes of the file; \<open>copy\<close> is the
  caller's inode, whose block addresses are indeterminate before the call.\<close>

fun copy_loop :: "inode_t \<Rightarrow> inode_t \<Rightarrow> nat list \<Rightarrow> byte list option \<Rightarrow> 'a store_scheme \<Rightarrow> 'a store_scheme option" where
  "copy_loop copy inode [] buf s = Some s"
| "copy_loop copy inode (b # bs) buf s = do {
     let i = of_nat (b * BLOCK_SIZE);
     (_, block) \<leftarrow> getDataBlock buf inode i s;
     let n = (if ic_size (i_ic inode) - i > 512 then 512 else ic_size (i_ic inode) - i);
     a \<leftarrow> getDataBlockAddr copy i s;
     s \<leftarrow> kwrite a (take (unat n) block) s;
     copy_loop copy inode bs (Some block) s
   }"

text \<open>The result: the copy (\<open>None\<close> is the returned \<open>NULL\<close>).\<close>

definition copyInode :: "inode_t \<Rightarrow> inode_t \<Rightarrow> 'a store_scheme \<Rightarrow> (inode_t option \<times> 'a store_scheme) option" where
  "copyInode copy inode s = do {
     r \<leftarrow> getFreeInode copy s;
     (case r of
        None \<Rightarrow> Some (None, s)
      | Some copy \<Rightarrow> do {
          (r, copy, s) \<leftarrow> allocateDataBlocks copy (ic_size (i_ic inode) div 512 + 1) s;
          s \<leftarrow> copy_loop copy inode [0..<(unat (ic_size (i_ic inode)) + (BLOCK_SIZE - 1)) div BLOCK_SIZE] None s;
          Some (Some copy, s)
        })
   }"

section \<open>A file as an array of bytes\<close>

text \<open>The contract of a byte store: a position can be read and written, and a write changes
  nothing but its position. Writing a stretch of bytes then writes exactly these.\<close>

locale byte_store =
  fixes inv :: "'s \<Rightarrow> bool" and inside :: "nat \<Rightarrow> bool"
    and get :: "'s \<Rightarrow> nat \<Rightarrow> byte" and put :: "nat \<Rightarrow> byte \<Rightarrow> 's \<Rightarrow> 's"
  assumes put_inv: "inv s \<Longrightarrow> inside p \<Longrightarrow> inv (put p b s)"
    and get_put: "inv s \<Longrightarrow> inside p \<Longrightarrow> inside q \<Longrightarrow> get (put p b s) q = (if q = p then b else get s q)"
begin

lemma puts_inv:
  "inv s \<Longrightarrow> \<forall>i<length bs. inside (h + i) \<Longrightarrow> inv (fold (\<lambda>(i, b). put (h + i) b) (enumerate 0 bs) s)"
proof (induction bs rule: rev_induct)
  case (snoc b bs)
  then have "inv (fold (\<lambda>(i, b). put (h + i) b) (enumerate 0 bs) s)" by simp
  with snoc.prems show ?case by (simp add: enumerate_append_eq put_inv)
qed simp

lemma get_puts:
  "inv s \<Longrightarrow> \<forall>i<length bs. inside (h + i) \<Longrightarrow> inside q \<Longrightarrow>
    get (fold (\<lambda>(i, b). put (h + i) b) (enumerate 0 bs) s) q =
      (if h \<le> q \<and> q < h + length bs then bs ! (q - h) else get s q)"
proof (induction bs rule: rev_induct)
  case (snoc b bs)
  let ?s = "fold (\<lambda>(i, b). put (h + i) b) (enumerate 0 bs) s"
  have "inv ?s" using snoc.prems by (intro puts_inv) auto
  then have "get (put (h + length bs) b ?s) q = (if q = h + length bs then b else get ?s q)"
    using snoc.prems by (intro get_put) auto
  with snoc show ?case by (auto simp: enumerate_append_eq nth_append)
qed auto

end

definition fbyte :: "icommon_t \<Rightarrow> 'a store_scheme \<Rightarrow> nat \<Rightarrow> byte" where
  "fbyte ic s p = blk s (fblk s ic (p div 512)) ! (p mod 512)"

definition poke :: "icommon_t \<Rightarrow> nat \<Rightarrow> byte \<Rightarrow> 'a store_scheme \<Rightarrow> 'a store_scheme" where
  "poke ic p b s = (let a = fblk s ic (p div 512)
     in s\<lparr>dsk := (dsk s)\<lparr>dblk := (blk s)(a := (blk s a)[p mod 512 := b])\<rparr>\<rparr>)"

text \<open>The blocks of a file in use: the invariant of its bytes.\<close>

definition stored :: "icommon_t \<Rightarrow> nat \<Rightarrow> u32 list \<Rightarrow> 'a store_scheme \<Rightarrow> bool" where
  "stored ic m xs s \<longleftrightarrow> alloc_inv s xs \<and> file_inv s ic m xs"

lemma stored_block:
  assumes "stored ic m xs s" and "i < m"
  shows "length (blk s (fblk s ic i)) = 512" and "valid s (fblk s ic i)" and "data_addr (fblk s ic i)"
    and "fblk s ic i \<notin> set xs"
proof -
  have f: "formatted s" and fi: "file_inv s ic m xs" using assms(1) by (simp_all add: stored_def alloc_inv_def)
  show d: "data_addr (fblk s ic i)" "fblk s ic i \<notin> set xs" using file_inv_fblk(1,2) [OF fi assms(2)] by auto
  show "valid s (fblk s ic i)" using data_addr_valid [OF f d(1)] .
  then show "length (blk s (fblk s ic i)) = 512" using f by simp
qed

lemma stored_write:
  assumes "stored ic m xs s" and "i < m" and "length x = 512"
  defines "s' \<equiv> s\<lparr>dsk := (dsk s)\<lparr>dblk := (blk s)(fblk s ic i := x)\<rparr>\<rparr>"
  shows "kwrite (fblk s ic i) x s = Some s'" and "stored ic m xs s'" and "k < m \<Longrightarrow> fblk s' ic k = fblk s ic k"
    and "j < 512 \<Longrightarrow> itab s' j = itab s j"
proof -
  have ai: "alloc_inv s xs" and fi: "file_inv s ic m xs" using assms(1) by (simp_all add: stored_def)
  note w = data_write [OF ai stored_block(3,4) [OF assms(1,2)] assms(3)]
  note f = file_inv_write [OF fi assms(2), where x = x]
  show "kwrite (fblk s ic i) x s = Some s'" and "stored ic m xs s'" and "k < m \<Longrightarrow> fblk s' ic k = fblk s ic k"
    and "j < 512 \<Longrightarrow> itab s' j = itab s j"
    using w f by (simp_all add: s'_def stored_def)
qed

lemma poke_frame:
  assumes "stored ic m xs s" and "p div 512 < m"
  shows "stored ic m xs (poke ic p b s)" and "k < m \<Longrightarrow> fblk (poke ic p b s) ic k = fblk s ic k"
    and "j < 512 \<Longrightarrow> itab (poke ic p b s) j = itab s j" and "store.more (poke ic p b s) = store.more s"
    and "fs (poke ic p b s) = fs s"
    and "blk (poke ic p b s) = (blk s)(fblk s ic (p div 512) := (blk s (fblk s ic (p div 512)))[p mod 512 := b])"
  using stored_write [OF assms, of "(blk s (fblk s ic (p div 512)))[p mod 512 := b]"] stored_block(1) [OF assms]
  by (simp_all add: poke_def Let_def)

lemma fbyte_poke:
  assumes "stored ic m xs s" and "p div 512 < m" and "q div 512 < m"
  shows "fbyte ic (poke ic p b s) q = (if q = p then b else fbyte ic s q)"
proof -
  have fi: "file_inv s ic m xs" using assms(1) by (simp add: stored_def)
  have "q = p \<longleftrightarrow> q div 512 = p div 512 \<and> q mod 512 = p mod 512" by (metis div_mult_mod_eq)
  moreover have "fblk s ic (q div 512) = fblk s ic (p div 512) \<longleftrightarrow> q div 512 = p div 512"
    using file_inv_fblk(3) [OF fi assms(3,2)] .
  ultimately show ?thesis
    using stored_block(1) [OF assms(1,2)] poke_frame(2,6) [OF assms(1,2)] assms(3)
    by (auto simp: fbyte_def nth_list_update)
qed

text \<open>What writing bytes of a file leaves alone.\<close>

definition touched :: "icommon_t \<Rightarrow> nat \<Rightarrow> 'a store_scheme \<Rightarrow> 'a store_scheme \<Rightarrow> bool" where
  "touched ic m s s' \<longleftrightarrow> fs s' = fs s \<and> store.more s' = store.more s
     \<and> (\<forall>k<m. fblk s' ic k = fblk s ic k) \<and> (\<forall>j<512. itab s' j = itab s j)
     \<and> (\<forall>a. a \<notin> fblk s ic ` {0..<m} \<longrightarrow> blk s' a = blk s a)"

lemma touched_refl [simp]: "touched ic m s s"
  by (simp add: touched_def)

lemma touched_poke:
  assumes "stored ic m xs s'" and "touched ic m s s'" and "p div 512 < m"
  shows "touched ic m s (poke ic p b s')"
proof -
  have "fblk s' ic (p div 512) \<in> fblk s ic ` {0..<m}" using assms(2,3) by (auto simp: touched_def)
  with assms(2) poke_frame [OF assms(1,3)] show ?thesis by (auto simp: touched_def)
qed

interpretation fb: byte_store "\<lambda>s'. stored ic m xs s' \<and> touched ic m s s'" "\<lambda>p. p div 512 < m" "fbyte ic" "poke ic"
  for ic m xs s
  by unfold_locales (auto simp: poke_frame(1) fbyte_poke touched_poke)

section \<open>Writing and reading bytes\<close>

definition flush :: "u32 \<Rightarrow> byte list \<Rightarrow> 'a store_scheme \<Rightarrow> 'a store_scheme" where
  "flush a x s = s\<lparr>dsk := (dsk s)\<lparr>dblk := (blk s)(a := x)\<rparr>\<rparr>"

lemma flush_id [simp]: "flush a (blk s a) s = s"
  by (simp add: flush_def)

lemma flush_ok:
  assumes "stored ic m xs s" and "i < m" and "length x = 512"
  shows "kwrite (fblk s ic i) x s = Some (flush (fblk s ic i) x s)" and "stored ic m xs (flush (fblk s ic i) x s)"
    and "k < m \<Longrightarrow> fblk (flush (fblk s ic i) x s) ic k = fblk s ic k"
  using stored_write [OF assms] by (simp_all add: flush_def)

lemma flush_poke:
  assumes "stored ic m xs s" and "p div 512 < m" and "length x = 512"
  shows "flush (fblk s ic (p div 512)) (x[p mod 512 := b]) s = poke ic p b (flush (fblk s ic (p div 512)) x s)"
  using flush_ok(3) [OF assms assms(2)] by (simp add: poke_def flush_def)

lemma head_offset:
  assumes "unat (head :: u32) + i < 2 ^ 32"
  shows "unat (head + of_nat i) = unat head + i"
  using assms by (simp add: unat_word_ariths unat_of_nat)

lemma word_last:
  assumes "i < n" and "n < 2 ^ 32"
  shows "(of_nat i :: u32) = of_nat n - 1 \<longleftrightarrow> Suc i = n"
proof -
  have "(of_nat i :: u32) = of_nat n - 1 \<longleftrightarrow> (of_nat (Suc i) :: u32) = of_nat n" by (auto simp: algebra_simps)
  moreover have "unat (of_nat (Suc i) :: u32) = Suc i" "unat (of_nat n :: u32) = n"
    using assms by (intro unat_of_nat_u32; simp)+
  ultimately show ?thesis by (metis word_unat_eq_iff)
qed

text \<open>The loop of \<open>fwrite\<close> and the last write of its buffer put the bytes one after the other.\<close>

lemma fwrite_loop_pokes:
  assumes "stored (i_ic inode) m xs s" and "j < m" and "length buf = 512" and "length data = n"
    and "unat head + n < 2 ^ 32" and "\<forall>k<n. (unat head + k) div 512 < m" and "i \<le> n"
    and "i < n \<longrightarrow> j = (unat head + i) div 512"
  shows "\<exists>b s'. fwrite_loop inode head data (of_nat n) [i..<n] (fblk s (i_ic inode) j, buf) s = Some (b, s')
    \<and> kwrite (fst b) (snd b) s' = Some (fold (\<lambda>(k, x). poke (i_ic inode) (unat head + k) x)
        (enumerate i (drop i data)) (flush (fblk s (i_ic inode) j) buf s))"
  using assms
proof (induction "n - i" arbitrary: i j buf s)
  case 0
  then have "[i..<n] = []" "drop i data = []" by simp_all
  from flush_ok(1) [OF 0(2-4)] show ?case unfolding \<open>[i..<n] = []\<close> \<open>drop i data = []\<close> by simp
next
  case (Suc d)
  let ?ic = "i_ic inode" and ?p = "unat head + i" and ?x = "data ! i"
  let ?a = "fblk s ?ic j" and ?buf = "buf[(unat head + i) mod 512 := data ! i]"
  have i: "i < n" "d = n - Suc i" "[i..<n] = i # [Suc i..<n]" and j: "j = ?p div 512"
    using Suc.hyps(2) Suc.prems(8) by (auto simp: upt_conv_Cons)
  have pos: "unat ((head + of_nat i) mod 512) = ?p mod 512" and nxt: "unat (head + of_nat i + 1) = Suc ?p"
    using head_offset [of head i] head_offset [of head "Suc i"] Suc.prems(5) i(1)
    by (simp_all add: unat_mod add.assoc add.commute [of 1])
  have bnd: "(head + of_nat i + 1) mod 512 = 0 \<longleftrightarrow> Suc ?p mod 512 = 0"
    using nxt by (simp add: word_unat_eq_iff unat_mod)
  have lst: "(of_nat i :: u32) = of_nat n - 1 \<longleftrightarrow> Suc i = n" using word_last i(1) Suc.prems(5) by simp
  have dr: "enumerate i (drop i data) = (i, ?x) # enumerate (Suc i) (drop (Suc i) data)"
    using i(1) Suc.prems(4) by (simp add: Cons_nth_drop_Suc [symmetric])
  have fl: "flush ?a ?buf s = poke ?ic ?p ?x (flush ?a buf s)"
    using flush_poke [OF Suc.prems(1) _ Suc.prems(3), of ?p ?x] Suc.prems(2) j by simp
  show ?case
  proof (cases "Suc i \<noteq> n \<and> Suc ?p mod 512 = 0")
    case True
    let ?s = "flush ?a ?buf s" and ?j = "Suc ?p div 512"
    have st: "stored ?ic m xs ?s" using flush_ok(2) [OF Suc.prems(1,2)] Suc.prems(3) by simp
    have jm: "?j < m" using Suc.prems(6) True i(1) by (metis Suc_lessI add_Suc_right)
    then have g: "getDataBlock (Some ?buf) inode (head + of_nat i + 1) ?s = Some (fblk ?s ?ic ?j, blk ?s (fblk ?s ?ic ?j))"
      using getDataBlock_fblk [of ?s inode m xs "head + of_nat i + 1"] st nxt by (simp add: stored_def alloc_inv_def)
    from Suc.hyps(1) [OF i(2) st jm stored_block(1) [OF st jm] Suc.prems(4-6)] i(1)
    obtain b s' where "fwrite_loop inode head data (of_nat n) [Suc i..<n] (fblk ?s ?ic ?j, blk ?s (fblk ?s ?ic ?j)) ?s = Some (b, s')"
      "kwrite (fst b) (snd b) s' = Some (fold (\<lambda>(k, x). poke ?ic (unat head + k) x) (enumerate (Suc i) (drop (Suc i) data)) ?s)"
      by auto
    then show ?thesis
      using True i(1) Suc.prems(3,4) pos bnd lst g flush_ok(1) [OF Suc.prems(1,2), of ?buf] fl by (simp add: i(3) dr)
  next
    case False
    have "Suc i < n \<longrightarrow> j = (unat head + Suc i) div 512" using False j by (auto simp: div_Suc)
    with Suc.hyps(1) [OF i(2) Suc.prems(1,2) _ Suc.prems(4-6), of ?buf] i(1) Suc.prems(3)
    obtain b s' where "fwrite_loop inode head data (of_nat n) [Suc i..<n] (?a, ?buf) s = Some (b, s')"
      "kwrite (fst b) (snd b) s' = Some (fold (\<lambda>(k, x). poke ?ic (unat head + k) x) (enumerate (Suc i) (drop (Suc i) data)) (flush ?a ?buf s))"
      by auto
    moreover have no: "((of_nat i :: u32) \<noteq> of_nat n - 1 \<and> (head + of_nat i + 1) mod 512 = 0) = False"
      using False bnd lst by simp
    ultimately show ?thesis using i(1) Suc.prems(3,4) pos fl by (cases b) (simp add: i(3) dr no)
  qed
qed

text \<open>The loop of \<open>fread\<close> returns the bytes.\<close>

lemma fread_loop_bytes:
  assumes "stored (i_ic inode) m xs s" and "unat head + n < 2 ^ 32" and "\<forall>k<n. (unat head + k) div 512 < m"
    and "i \<le> n" and "i < n \<longrightarrow> buf = blk s (fblk s (i_ic inode) ((unat head + i) div 512))"
  shows "fread_loop inode head (of_nat n) [i..<n] buf s = Some (map (\<lambda>k. fbyte (i_ic inode) s (unat head + k)) [i..<n])"
  using assms(4,5)
proof (induction "n - i" arbitrary: i buf)
  case 0
  then have "[i..<n] = []" by simp
  then show ?case by (simp only: fread_loop.simps list.map)
next
  case (Suc d)
  let ?ic = "i_ic inode" and ?p = "unat head + i"
  have i: "i < n" "d = n - Suc i" "[i..<n] = i # [Suc i..<n]" and buf: "buf = blk s (fblk s ?ic (?p div 512))"
    using Suc.hyps(2) Suc.prems(2) by (auto simp: upt_conv_Cons)
  have len: "length buf = 512" using stored_block(1) [OF assms(1)] assms(3) i(1) buf by simp
  have pos: "unat ((head + of_nat i) mod 512) = ?p mod 512" and nxt: "unat (head + of_nat i + 1) = Suc ?p"
    using head_offset [of head i] head_offset [of head "Suc i"] assms(2) i(1)
    by (simp_all add: unat_mod add.assoc add.commute [of 1])
  have bnd: "(head + of_nat i + 1) mod 512 = 0 \<longleftrightarrow> Suc ?p mod 512 = 0"
    using nxt by (simp add: word_unat_eq_iff unat_mod)
  have lst: "(of_nat i :: u32) = of_nat n - 1 \<longleftrightarrow> Suc i = n" using word_last i(1) assms(2) by simp
  have x: "buf ! (?p mod 512) = fbyte ?ic s ?p" by (simp add: buf fbyte_def)
  show ?case
  proof (cases "Suc i \<noteq> n \<and> Suc ?p mod 512 = 0")
    case True
    let ?j = "Suc ?p div 512"
    have "?j < m" using assms(3) True i(1) by (metis Suc_lessI add_Suc_right)
    then have g: "getDataBlock (Some buf) inode (head + of_nat i + 1) s = Some (fblk s ?ic ?j, blk s (fblk s ?ic ?j))"
      using getDataBlock_fblk [of s inode m xs "head + of_nat i + 1"] assms(1) nxt by (simp add: stored_def alloc_inv_def)
    have "fread_loop inode head (of_nat n) [Suc i..<n] (blk s (fblk s ?ic ?j)) s = Some (map (\<lambda>k. fbyte ?ic s (unat head + k)) [Suc i..<n])"
      using Suc.hyps(1) [OF i(2)] i(1) by simp
    then show ?thesis using True i(1) pos bnd lst g x len by (simp add: i(3))
  next
    case False
    have "Suc i < n \<longrightarrow> buf = blk s (fblk s ?ic ((unat head + Suc i) div 512))" using False buf by (auto simp: div_Suc)
    then have "fread_loop inode head (of_nat n) [Suc i..<n] buf s = Some (map (\<lambda>k. fbyte ?ic s (unat head + k)) [Suc i..<n])"
      using Suc.hyps(1) [OF i(2)] i(1) by simp
    then show ?thesis using False i(1) pos bnd lst x len by (auto simp: i(3))
  qed
qed

lemma nat_sint_small: "n < 2 ^ 31 \<Longrightarrow> nat (sint (of_nat n :: u32)) = n"
proof -
  assume n: "n < 2 ^ 31"
  then have "unat (of_nat n :: u32) = n" by (intro unat_of_nat_u32) simp
  then show ?thesis using n by (simp add: sint_of_unat)
qed

lemma write_bytes:
  assumes st: "stored (i_ic inode) m xs s" and len: "length data = n" "n < 2 ^ 31" and ov: "unat head + n < 2 ^ 32"
    and inside: "\<forall>k\<le>n. (unat head + k) div 512 < m"
  shows "\<exists>s'. fwrite_bytes inode head data (of_nat n) s = Some s'
    \<and> stored (i_ic inode) m xs s' \<and> touched (i_ic inode) m s s'
    \<and> (\<forall>q. q div 512 < m \<longrightarrow> fbyte (i_ic inode) s' q =
         (if unat head \<le> q \<and> q < unat head + n then data ! (q - unat head) else fbyte (i_ic inode) s q))"
proof -
  let ?ic = "i_ic inode" and ?j = "unat head div 512"
  let ?s' = "fold (\<lambda>(k, x). poke ?ic (unat head + k) x) (enumerate 0 data) s"
  have h: "?j < m" using inside by (metis add_0_right zero_le)
  have ins: "\<forall>k<n. (unat head + k) div 512 < m" using inside by simp
  have g: "getDataBlock None inode head s = Some (fblk s ?ic ?j, blk s (fblk s ?ic ?j))"
    using getDataBlock_fblk [of s inode m xs head] st h by (simp add: stored_def alloc_inv_def)
  from fwrite_loop_pokes [OF st h stored_block(1) [OF st h] len(1) ov ins, of 0] obtain a x s1 where
    "fwrite_loop inode head data (of_nat n) [0..<n] (fblk s ?ic ?j, blk s (fblk s ?ic ?j)) s = Some ((a, x), s1)"
    "kwrite a x s1 = Some ?s'" by auto
  then have "fwrite_bytes inode head data (of_nat n) s = Some ?s'"
    using g len(2) by (simp add: fwrite_bytes_def nat_sint_small)
  moreover have "stored ?ic m xs ?s' \<and> touched ?ic m s ?s'" using st len ins by (intro fb.puts_inv) auto
  moreover have "fbyte ?ic ?s' q = (if unat head \<le> q \<and> q < unat head + n then data ! (q - unat head) else fbyte ?ic s q)"
    if "q div 512 < m" for q
  proof -
    have "fbyte ?ic ?s' q = (if unat head \<le> q \<and> q < unat head + length data then data ! (q - unat head) else fbyte ?ic s q)"
      by (rule fb.get_puts [where xs = xs and s = s and m = m]) (use st len ins that in \<open>auto intro: touched_refl\<close>)
    then show ?thesis by (simp add: len)
  qed
  ultimately show ?thesis by blast
qed

lemma read_bytes:
  assumes st: "stored (i_ic inode) m xs s" and n: "n < 2 ^ 31" and ov: "unat head + n < 2 ^ 32"
    and inside: "\<forall>k\<le>n. (unat head + k) div 512 < m"
  shows "fread_bytes inode head (of_nat n) s = Some (map (fbyte (i_ic inode) s) [unat head..<unat head + n])"
proof -
  let ?ic = "i_ic inode" and ?j = "unat head div 512"
  have h: "?j < m" using inside by (metis add_0_right zero_le)
  have g: "getDataBlock None inode head s = Some (fblk s ?ic ?j, blk s (fblk s ?ic ?j))"
    using getDataBlock_fblk [of s inode m xs head] st h by (simp add: stored_def alloc_inv_def)
  have "map (\<lambda>k. fbyte ?ic s (unat head + k)) [0..<n] = map (fbyte ?ic s) [unat head..<unat head + n]"
    by (rule nth_equalityI) auto
  with g fread_loop_bytes [OF st ov, of 0] inside show ?thesis by (simp add: fread_bytes_def nat_sint_small [OF n])
qed

section \<open>Operations on an open file\<close>

text \<open>Descriptor \<open>f\<close> of the current process is open, through entry \<open>j\<close> of the open file table,
  on entry \<open>k\<close> of the active inode table.\<close>

definition file_open :: "('h, 'a) kernel_scheme \<Rightarrow> u32 \<Rightarrow> nat \<Rightarrow> nat \<Rightarrow> bool" where
  "file_open s f j k \<longleftrightarrow> valid_fd f s = Some (Some j) \<and> j < length (oft s) \<and> o_inptr (oft s ! j) = Some k \<and> k < length (ai s)"

lemma upd_ai_Some [simp]: "k < length (ai s) \<Longrightarrow> upd_ai k f s = Some (s\<lparr>ai := (ai s)[k := f (ai s ! k)]\<rparr>)"
  by (simp add: upd_ai_def)

lemma upd_oft_Some [simp]: "j < length (oft s) \<Longrightarrow> upd_oft j f s = Some (s\<lparr>oft := (oft s)[j := f (oft s ! j)]\<rparr>)"
  by (simp add: upd_oft_def)

lemma valid_fd_update [simp]:
  "valid_fd f (s\<lparr>dsk := d\<rparr>) = valid_fd f s" "valid_fd f (s\<lparr>fs := g\<rparr>) = valid_fd f s"
  "valid_fd f (k\<lparr>ai := a\<rparr>) = valid_fd f k" "valid_fd f (k\<lparr>oft := t\<rparr>) = valid_fd f k"
  by (simp_all add: valid_fd_def)

lemma store_eq: "store.more s' = store.more s \<Longrightarrow> s' = s\<lparr>dsk := dsk s', fs := fs s'\<rparr>"
  by (cases s; cases s') simp

lemma stored_update [simp]:
  "stored ic m xs (k\<lparr>ai := a\<rparr>) = stored ic m xs k" "stored ic m xs (k\<lparr>oft := t\<rparr>) = stored ic m xs k"
  "fbyte ic (k\<lparr>ai := a\<rparr>) = fbyte ic k" "fbyte ic (k\<lparr>oft := t\<rparr>) = fbyte ic k"
proof -
  note v = same_disk_views [of "k\<lparr>ai := a\<rparr>" k] same_disk_views [of "k\<lparr>oft := t\<rparr>" k]
    same_disk_alloc [of "k\<lparr>ai := a\<rparr>" k] same_disk_alloc [of "k\<lparr>oft := t\<rparr>" k]
  show "stored ic m xs (k\<lparr>ai := a\<rparr>) = stored ic m xs k" "stored ic m xs (k\<lparr>oft := t\<rparr>) = stored ic m xs k"
    using v by (simp_all add: stored_def)
  show "fbyte ic (k\<lparr>ai := a\<rparr>) = fbyte ic k" "fbyte ic (k\<lparr>oft := t\<rparr>) = fbyte ic k"
    using v by (simp_all add: fbyte_def fun_eq_iff)
qed

lemma fread_ok:
  assumes fo: "file_open s f j k" and st: "stored (i_ic (ai s ! k)) m xs s"
    and n: "n < 2 ^ 31" "unat (o_head (oft s ! j)) + n \<le> unat (ic_size (i_ic (ai s ! k)))"
    and m: "unat (ic_size (i_ic (ai s ! k))) div 512 < m"
  defines "h \<equiv> unat (o_head (oft s ! j))"
  shows "fread f (of_nat n) s = Some (0, map (fbyte (i_ic (ai s ! k)) s) [h..<h + n],
    s\<lparr>oft := (oft s)[j := (oft s ! j)\<lparr>o_head := o_head (oft s ! j) + of_nat n\<rparr>]\<rparr>)"
proof -
  let ?hd = "o_head (oft s ! j)" and ?in = "ai s ! k"
  have lim: "unat (ic_size (i_ic ?in)) < 2 ^ 32" by (rule order_less_le_trans [OF unsigned_less]) simp
  then have ov: "unat ?hd + n < 2 ^ 32" using n(2) by linarith
  have "(unat ?hd + i) div 512 < m" if "i \<le> n" for i
  proof -
    have "(unat ?hd + i) div 512 \<le> unat (ic_size (i_ic ?in)) div 512" using that n(2) by (intro div_le_mono) linarith
    with m show ?thesis by linarith
  qed
  then have "fread_bytes ?in ?hd (of_nat n) s = Some (map (fbyte (i_ic ?in) s) [h..<h + n])"
    unfolding h_def by (intro read_bytes [OF st n(1) ov]) simp
  moreover have "\<not> ?hd + of_nat n > ic_size (i_ic ?in)"
    using head_offset [of ?hd n] ov n(2) by (simp add: word_less_nat_alt)
  ultimately show ?thesis using fo by (simp add: fread_def file_open_def)
qed

text \<open>The part of a file that is unchanged when it grows, and what else is unchanged.\<close>

lemma fbyte_size [simp]: "fbyte (ic\<lparr>ic_size := z\<rparr>) = fbyte ic"
  by (simp add: fbyte_def fun_eq_iff)

lemma grown_bytes:
  assumes g: "grown xs n m inode s inode' s'" and fi: "file_inv s (i_ic inode) n xs" and q: "q div 512 < n"
  shows "fbyte (i_ic inode') s' q = fbyte (i_ic inode) s q"
proof -
  let ?a = "fblk s (i_ic inode) (q div 512)"
  have "data_addr ?a" "?a \<notin> set xs" and "11 < n \<Longrightarrow> ?a \<noteq> ic_ib (i_ic inode) ! 0"
    using file_inv_fblk(1,2,4) [OF fi q] by auto
  then have "blk s' ?a = blk s ?a" using g by (auto simp: grown_def not_le)
  moreover have "fblk s' (i_ic inode') (q div 512) = ?a" using g q by (simp add: grown_def)
  ultimately show ?thesis by (simp add: fbyte_def)
qed

definition frame_file :: "icommon_t \<Rightarrow> nat \<Rightarrow> u32 list \<Rightarrow> nat \<Rightarrow> 'a store_scheme \<Rightarrow> 'a store_scheme \<Rightarrow> bool" where
  "frame_file ic n xs ino s s' \<longleftrightarrow> (\<forall>a. data_addr a \<and> a \<notin> set xs \<and> a \<notin> set (file_blocks s ic n) \<longrightarrow> blk s' a = blk s a)
     \<and> (\<forall>i<512. i \<noteq> ino \<longrightarrow> itab s' i = itab s i)"

lemma frame_grown_touched:
  assumes g: "grown xs n m inode s inode' s1" and "unat (i_number inode) = ino"
    and tab: "\<forall>i<512. itab s2 i = itab s1 i" and t: "\<forall>a. a \<notin> fblk s1 ic ` {0..<m} \<longrightarrow> blk s2 a = blk s1 a"
    and ic: "\<And>i. fblk s1 ic i = fblk s1 (i_ic inode') i" and fi: "file_inv s (i_ic inode) n xs"
  shows "frame_file (i_ic inode) n xs ino s s2"
proof -
  have "blk s2 a = blk s a" if a: "data_addr a" "a \<notin> set xs" "a \<notin> set (file_blocks s (i_ic inode) n)" for a
  proof -
    have "fblk s1 (i_ic inode') i \<noteq> a" if "i < m" for i
    proof (cases "i < n")
      case True
      then have "fblk s1 (i_ic inode') i \<in> set (file_blocks s (i_ic inode) n)"
        using g by (simp add: grown_def set_file_blocks)
      then show ?thesis using a(3) by blast
    next
      case False
      then have "fblk s1 (i_ic inode') i \<in> set xs" using g that by (simp add: grown_def)
      then show ?thesis using a(2) by blast
    qed
    then have "a \<notin> fblk s1 ic ` {0..<m}" using ic by (metis atLeastLessThan_iff imageE)
    moreover have "11 < n \<Longrightarrow> a \<noteq> ic_ib (i_ic inode) ! 0" using a(3) by (auto simp: set_file_blocks)
    ultimately show ?thesis using g t a by (auto simp: grown_def not_le)
  qed
  moreover have "itab s2 i = itab s i" if "i < 512" "i \<noteq> ino" for i
    using g tab that assms(2) by (simp add: grown_def)
  ultimately show ?thesis by (simp add: frame_file_def)
qed

text \<open>The size of a file after \<open>n\<close> bytes were written at \<open>head\<close>.\<close>

definition grown_size :: "u32 \<Rightarrow> u32 \<Rightarrow> nat \<Rightarrow> u32" where
  "grown_size sz head n = (if sz < head + of_nat n then head + of_nat n else sz)"

lemma fwrite_grow:
  fixes s :: "('h, 'a) kernel_scheme" and head :: u32 and len :: nat
  assumes ai: "alloc_inv s xs" and k: "k < length (ai s)" and inode: "inode = ai s ! k"
    and fi: "file_inv s (i_ic inode) (nblocks (ic_size (i_ic inode))) xs" and num: "unat (i_number inode) < 512"
  defines "n \<equiv> nblocks (ic_size (i_ic inode))" and "sz \<equiv> grown_size (ic_size (i_ic inode)) head len"
  defines "m \<equiv> nblocks sz" and "cost \<equiv> grow_cost n (nblocks sz)"
  assumes m: "m \<le> 139" and cost: "cost \<le> length xs"
  shows "\<exists>inode' d g. fwrite_room k inode head (of_nat len) s = Some (inode', s\<lparr>dsk := d, fs := g, ai := (ai s)[k := inode']\<rparr>)
    \<and> inode' = inode\<lparr>i_ic := i_ic inode'\<rparr> \<and> ic_mode (i_ic inode') = ic_mode (i_ic inode)
    \<and> ic_size (i_ic inode') = sz \<and> stored (i_ic inode') m (drop cost xs) (s\<lparr>dsk := d, fs := g\<rparr>)
    \<and> (\<exists>inode1. (\<forall>s i. fblk (s :: ('h, 'a) kernel_scheme) (i_ic inode') i = fblk s (i_ic inode1) i) \<and>
        (\<forall>s. fbyte (i_ic inode') (s :: ('h, 'a) kernel_scheme) = fbyte (i_ic inode1) s) \<and> ic_ib (i_ic inode') = ic_ib (i_ic inode1) \<and>
        grown xs n m inode s inode1 (s\<lparr>dsk := d, fs := g\<rparr>))"
proof (cases "head + of_nat len > ic_size (i_ic inode)")
  case True
  let ?b = "head + of_nat len - ic_size (i_ic inode)"
  have sz: "ic_size (i_ic inode) + ?b = sz" "sz = head + of_nat len" using True by (simp_all add: sz_def grown_size_def)
  have le: "ic_size (i_ic inode) \<le> head + of_nat len" using True by simp
  have "unat (ic_size (i_ic inode)) + unat ?b = unat (head + of_nat len)"
    using le by (simp add: unat_sub word_le_nat_alt)
  also have "\<dots> < 2 ^ 32" by (rule order_less_le_trans [OF unsigned_less]) simp
  finally have ov: "unat (ic_size (i_ic inode)) + unat ?b < 2 ^ 32" .
  from allocateDataBlocks_ok [OF ai fi num ov, folded n_def] m cost sz(1) obtain inode1 s1 where
    r: "allocateDataBlocks inode ?b s = Some (sz, inode1\<lparr>i_ic := (i_ic inode1)\<lparr>ic_size := sz\<rparr>\<rparr>, s1)"
      "alloc_inv s1 (drop cost xs)" "file_inv s1 (i_ic inode1) m (drop cost xs)" "grown xs n m inode s inode1 s1"
    by (auto simp: m_def cost_def)
  let ?in = "inode1\<lparr>i_ic := (i_ic inode1)\<lparr>ic_size := sz\<rparr>\<rparr>"
  obtain d g where eq: "s1 = s\<lparr>dsk := d, fs := g\<rparr>" using r(4) store_eq [of s1 s] by (auto simp: grown_def)
  have "upd_ai k (\<lambda>_. ?in) s1 = Some (s\<lparr>dsk := d, fs := g, ai := (ai s)[k := ?in]\<rparr>)" using k eq by simp
  moreover have "stored (i_ic ?in) m (drop cost xs) s1" using r(2,3) by (simp add: stored_def)
  moreover have "?in = inode\<lparr>i_ic := i_ic ?in\<rparr>" "ic_mode (i_ic ?in) = ic_mode (i_ic inode)"
    using r(4) by (simp_all add: grown_def)
  ultimately show ?thesis
    using True r(1,4) eq by (intro exI [of _ ?in] exI [of _ d] exI [of _ g] conjI exI [of _ inode1]) (simp_all add: fwrite_room_def)
next
  case False
  then have "sz = ic_size (i_ic inode)" by (simp add: sz_def grown_size_def)
  moreover from this have "m = n" "cost = 0" by (simp_all add: m_def n_def cost_def grow_cost_def)
  ultimately show ?thesis
    using False ai fi k inode n_def grown_refl [of xs n inode s]
    by (intro exI [of _ inode] exI [of _ "dsk s"] exI [of _ "fs s"] conjI exI [of _ inode]) (simp_all add: stored_def fwrite_room_def)
qed

lemma grown_size_bound:
  assumes "unat head + n < 2 ^ 32"
  shows "unat head + n \<le> unat (grown_size sz head n)"
  using assms head_offset [of head n] by (simp add: grown_size_def not_less word_le_nat_alt)

lemma frame_file_update [simp]:
  "frame_file ic n xs ino s (t\<lparr>oft := o'\<rparr>) = frame_file ic n xs ino s t"
  using same_disk_views(7) [of "t\<lparr>oft := o'\<rparr>" t] by (simp add: frame_file_def)

lemma fwrite_ok:
  fixes s :: "('h, 'a) kernel_scheme" and data :: "byte list"
  assumes fo: "file_open s f j k" and ai: "alloc_inv s xs"
  defines "inode \<equiv> ai s ! k" and "head \<equiv> o_head (oft s ! j)"
  assumes fi: "file_inv s (i_ic inode) (nblocks (ic_size (i_ic inode))) xs" and num: "unat (i_number inode) < 512"
    and len: "length data < 2 ^ 31" "unat head + length data < 2 ^ 32"
  defines "n \<equiv> nblocks (ic_size (i_ic inode))" and "sz \<equiv> grown_size (ic_size (i_ic inode)) head (length data)"
  defines "m \<equiv> nblocks sz" and "cost \<equiv> grow_cost n (nblocks sz)"
  assumes m: "m \<le> 139" and cost: "cost \<le> length xs"
  shows "\<exists>ic d g s'. fwrite f data (of_nat (length data)) s = Some (0, s')
    \<and> s' = s\<lparr>ai := (ai s)[k := inode\<lparr>i_ic := ic\<rparr>], dsk := d, fs := g,
        oft := (oft s)[j := (oft s ! j)\<lparr>o_head := head + of_nat (length data)\<rparr>]\<rparr>
    \<and> ic_size ic = sz \<and> ic_mode ic = ic_mode (i_ic inode) \<and> stored ic m (drop cost xs) s'
    \<and> frame_file (i_ic inode) n xs (unat (i_number inode)) s s'
    \<and> (\<forall>q. q div 512 < m \<and> unat head \<le> q \<and> q < unat head + length data \<longrightarrow> fbyte ic s' q = data ! (q - unat head))
    \<and> (\<forall>q. q div 512 < n \<and> \<not> (unat head \<le> q \<and> q < unat head + length data) \<longrightarrow> fbyte ic s' q = fbyte (i_ic inode) s q)
    \<and> (\<forall>i<n. fblk s' ic i = fblk s (i_ic inode) i)
    \<and> set (file_blocks s' ic m) \<subseteq> set (file_blocks s (i_ic inode) n) \<union> set xs"
proof -
  have k: "k < length (ai s)" and j: "j < length (oft s)" using fo by (simp_all add: file_open_def)
  from fwrite_grow [OF ai k inode_def [THEN meta_eq_to_obj_eq] fi num m [unfolded m_def sz_def] cost [unfolded cost_def n_def sz_def]]
  obtain inode' d g inode1 where
    gr: "fwrite_room k inode head (of_nat (length data)) s = Some (inode', s\<lparr>dsk := d, fs := g, ai := (ai s)[k := inode']\<rparr>)"
      and in': "inode' = inode\<lparr>i_ic := i_ic inode'\<rparr>" "ic_mode (i_ic inode') = ic_mode (i_ic inode)" "ic_size (i_ic inode') = sz"
      and st: "stored (i_ic inode') m (drop cost xs) (s\<lparr>dsk := d, fs := g\<rparr>)"
      and g1: "\<forall>(s :: ('h, 'a) kernel_scheme) i. fblk s (i_ic inode') i = fblk s (i_ic inode1) i"
        "\<forall>(s :: ('h, 'a) kernel_scheme). fbyte (i_ic inode') s = fbyte (i_ic inode1) s" "ic_ib (i_ic inode') = ic_ib (i_ic inode1)"
        "grown xs n m inode s inode1 (s\<lparr>dsk := d, fs := g\<rparr>)"
    unfolding n_def m_def cost_def sz_def by blast
  let ?s0 = "s\<lparr>dsk := d, fs := g\<rparr>" and ?ic = "i_ic inode'"
  let ?s1 = "s\<lparr>dsk := d, fs := g, ai := (ai s)[k := inode']\<rparr>"
  have st1: "stored ?ic m (drop cost xs) ?s1" using st by simp
  have "(unat head + i) div 512 < m" if "i \<le> length data" for i
  proof -
    have "unat head + i \<le> unat sz" using grown_size_bound [OF len(2), of "ic_size (i_ic inode)"] that by (simp add: sz_def)
    then show ?thesis by (simp add: m_def nblocks_def div_le_mono less_Suc_eq_le)
  qed
  then have "\<forall>i\<le>length data. (unat head + i) div 512 < m" by blast
  from write_bytes [OF st1 refl len this] obtain s2 where
    w: "fwrite_bytes inode' head data (of_nat (length data)) ?s1 = Some s2" and st2: "stored ?ic m (drop cost xs) s2" and t: "touched ?ic m ?s1 s2"
      and bytes: "\<forall>q. q div 512 < m \<longrightarrow> fbyte ?ic s2 q =
        (if unat head \<le> q \<and> q < unat head + length data then data ! (q - unat head) else fbyte ?ic ?s1 q)" by auto
  have "s2 = ?s1\<lparr>dsk := dsk s2, fs := fs s2\<rparr>" using t by (intro store_eq) (simp add: touched_def)
  then obtain d2 g2 where s2: "s2 = s\<lparr>ai := (ai s)[k := inode'], dsk := d2, fs := g2\<rparr>" by simp
  let ?s' = "s2\<lparr>oft := (oft s)[j := (oft s ! j)\<lparr>o_head := head + of_nat (length data)\<rparr>]\<rparr>"
  have oft: "oft s2 = oft s" by (simp add: s2)
  have run: "fwrite f data (of_nat (length data)) s = Some (0, ?s')"
    using fo gr w j oft by (simp add: fwrite_def file_open_def inode_def head_def)
  have v: "fblk ?s1 ic i = fblk ?s0 ic i" "itab ?s1 i = itab ?s0 i" for ic i using same_disk_views(1,7) [of ?s1 ?s0] by simp_all
  have "frame_file (i_ic inode) n xs (unat (i_number inode)) s s2"
    using t v g1(1) fi by (intro frame_grown_touched [OF g1(4) refl, of s2 ?ic]) (simp_all add: touched_def n_def)
  moreover have "fbyte ?ic ?s1 q = fbyte (i_ic inode) s q" if "q div 512 < n" for q
    using grown_bytes [OF g1(4) _ that] fi g1(2) by (simp add: n_def)
  moreover have nm: "n \<le> m"
    by (auto simp: n_def m_def nblocks_def sz_def grown_size_def word_less_nat_alt intro!: div_le_mono)
  ultimately have "stored ?ic m (drop cost xs) ?s'" "frame_file (i_ic inode) n xs (unat (i_number inode)) s ?s'"
    "\<forall>q. q div 512 < m \<and> unat head \<le> q \<and> q < unat head + length data \<longrightarrow> fbyte ?ic ?s' q = data ! (q - unat head)"
    "\<forall>q. q div 512 < n \<and> \<not> (unat head \<le> q \<and> q < unat head + length data) \<longrightarrow> fbyte ?ic ?s' q = fbyte (i_ic inode) s q"
    using st2 bytes by simp_all
  moreover have "?s' = s\<lparr>ai := (ai s)[k := inode\<lparr>i_ic := ?ic\<rparr>], dsk := d2, fs := g2,
      oft := (oft s)[j := (oft s ! j)\<lparr>o_head := head + of_nat (length data)\<rparr>]\<rparr>"
    using in'(1) by (simp add: s2)
  moreover have f': "fblk ?s' ?ic i = fblk ?s0 (i_ic inode1) i" if "i < m" for i
  proof -
    have "fblk ?s' ?ic i = fblk s2 ?ic i" by (rule same_disk_views(1)) simp
    also have "\<dots> = fblk ?s0 ?ic i" using t that v(1) by (simp add: touched_def)
    finally show ?thesis using g1(1) by simp
  qed
  then have "\<forall>i<n. fblk ?s' ?ic i = fblk s (i_ic inode) i" using nm g1(4) by (simp add: grown_def)
  moreover have "set (file_blocks ?s' ?ic m) \<subseteq> set (file_blocks s (i_ic inode) n) \<union> set xs"
  proof -
    have "fblk ?s' ?ic i \<in> set (file_blocks s (i_ic inode) n) \<union> set xs" if "i < m" for i
      using f' [OF that] g1(4) that by (cases "i < n") (auto simp: grown_def set_file_blocks)
    then have "fblk ?s' ?ic ` {0..<m} \<subseteq> set (file_blocks s (i_ic inode) n) \<union> set xs"
      by (intro image_subsetI) simp
    moreover have "ic_ib ?ic ! 0 \<in> set (file_blocks s (i_ic inode) n) \<union> set xs" if "11 < m"
      using g1(3,4) that by (cases "11 < n") (auto simp: set_file_blocks grown_def)
    ultimately show ?thesis unfolding set_file_blocks [of ?s' ?ic m] by simp
  qed
  ultimately show ?thesis
    using run in'(2,3) by (intro exI [of _ ?ic] exI [of _ d2] exI [of _ g2] exI [of _ ?s'] conjI)
qed

section \<open>Files as byte sequences\<close>

text \<open>The abstract view of an open file: its content and its position. Reading takes bytes of
  the content, writing replaces and appends bytes.\<close>

definition content :: "icommon_t \<Rightarrow> 'a store_scheme \<Rightarrow> byte list" where
  "content ic s = map (fbyte ic s) [0..<unat (ic_size ic)]"

definition write_at :: "nat \<Rightarrow> byte list \<Rightarrow> byte list \<Rightarrow> byte list" where
  "write_at h data c = take h c @ data @ drop (h + length data) c"

definition file_ready :: "('h, 'a) kernel_scheme \<Rightarrow> u32 \<Rightarrow> nat \<Rightarrow> nat \<Rightarrow> u32 list \<Rightarrow> bool" where
  "file_ready s f j k xs \<longleftrightarrow> file_open s f j k \<and> unat (i_number (ai s ! k)) < 512
     \<and> stored (i_ic (ai s ! k)) (nblocks (ic_size (i_ic (ai s ! k)))) xs s"

lemma file_open_update [simp]:
  "file_open (s\<lparr>dsk := d\<rparr>) f j k = file_open s f j k" "file_open (s\<lparr>fs := g\<rparr>) f j k = file_open s f j k"
  "file_open (s\<lparr>ai := (ai s)[i := x]\<rparr>) f j k = file_open s f j k"
  "j < length (oft s) \<Longrightarrow> o_inptr y = o_inptr (oft s ! j) \<Longrightarrow> file_open (s\<lparr>oft := (oft s)[j := y]\<rparr>) f j k = file_open s f j k"
  by (simp_all add: file_open_def)

lemma content_write:
  assumes sz: "unat (ic_size ic') = max (unat (ic_size ic)) (h + length data)" and h: "h \<le> unat (ic_size ic)"
    and new: "\<forall>q. q < unat (ic_size ic') \<and> h \<le> q \<and> q < h + length data \<longrightarrow> fbyte ic' s' q = data ! (q - h)"
    and old: "\<forall>q. q < unat (ic_size ic) \<and> \<not> (h \<le> q \<and> q < h + length data) \<longrightarrow> fbyte ic' s' q = fbyte ic s q"
  shows "content ic' s' = write_at h data (content ic s)"
proof (rule nth_equalityI)
  show "length (content ic' s') = length (write_at h data (content ic s))"
    using sz h by (simp add: content_def write_at_def)
  fix q assume q: "q < length (content ic' s')"
  then have qs: "q < unat (ic_size ic')" by (simp add: content_def)
  consider "q < h" | "h \<le> q" "q < h + length data" | "h + length data \<le> q" "q < unat (ic_size ic)"
    using qs sz by linarith
  then show "content ic' s' ! q = write_at h data (content ic s) ! q"
  proof cases
    case 1
    with qs h old show ?thesis by (simp add: content_def write_at_def nth_append)
  next
    case 2
    then have "q - h < length data" by linarith
    with 2 qs h new show ?thesis by (simp add: content_def write_at_def nth_append)
  next
    case 3
    then have "\<not> q - h < length data" by linarith
    with 3 qs h old show ?thesis by (simp add: content_def write_at_def nth_append)
  qed
qed

lemma unat_grown_size:
  assumes "unat head + n < 2 ^ 32"
  shows "unat (grown_size sz head n) = max (unat sz) (unat head + n)"
  using head_offset [OF assms] by (auto simp: grown_size_def word_less_nat_alt max_def)

lemma div_nblocks: "q < unat sz \<Longrightarrow> q div 512 < nblocks sz"
  by (simp add: nblocks_def less_Suc_eq_le div_le_mono)

lemma fwrite_content:
  fixes s :: "('h, 'a) kernel_scheme" and data :: "byte list"
  assumes fr: "file_ready s f j k xs"
  defines "ic \<equiv> i_ic (ai s ! k)" and "head \<equiv> o_head (oft s ! j)"
  defines "sz \<equiv> grown_size (ic_size ic) head (length data)"
  assumes h: "unat head \<le> unat (ic_size ic)" and len: "length data < 2 ^ 31" and m: "nblocks sz \<le> 139"
    and cost: "grow_cost (nblocks (ic_size ic)) (nblocks sz) \<le> length xs"
  shows "\<exists>ic' d g s'. fwrite f data (of_nat (length data)) s = Some (0, s')
    \<and> s' = s\<lparr>ai := (ai s)[k := (ai s ! k)\<lparr>i_ic := ic'\<rparr>], dsk := d, fs := g,
        oft := (oft s)[j := (oft s ! j)\<lparr>o_head := head + of_nat (length data)\<rparr>]\<rparr>
    \<and> file_ready s' f j k (drop (grow_cost (nblocks (ic_size ic)) (nblocks sz)) xs)
    \<and> content ic' s' = write_at (unat head) data (content ic s)
    \<and> unat (head + of_nat (length data)) = unat head + length data
    \<and> ic_size ic' = sz \<and> ic_mode ic' = ic_mode ic
    \<and> frame_file ic (nblocks (ic_size ic)) xs (unat (i_number (ai s ! k))) s s'
    \<and> (\<forall>i<nblocks (ic_size ic). fblk s' ic' i = fblk s ic i)
    \<and> set (file_blocks s' ic' (nblocks sz)) \<subseteq> set (file_blocks s ic (nblocks (ic_size ic))) \<union> set xs"
proof -
  have fo: "file_open s f j k" and st: "stored ic (nblocks (ic_size ic)) xs s" and num: "unat (i_number (ai s ! k)) < 512"
    using fr by (simp_all add: file_ready_def ic_def)
  then have ai: "alloc_inv s xs" and fi: "file_inv s ic (nblocks (ic_size ic)) xs" by (simp_all add: stored_def)
  have "nblocks (ic_size ic) \<le> 139" using fi by (simp add: file_inv_def)
  then have "unat head < 139 * 512" using h by (simp add: nblocks_def)
  then have ov: "unat head + length data < 2 ^ 32" using len by simp
  from fwrite_ok [OF fo ai, of data, folded ic_def head_def sz_def] fi num len ov m cost obtain ic' d g s' where
    r: "fwrite f data (of_nat (length data)) s = Some (0, s')"
      "s' = s\<lparr>ai := (ai s)[k := (ai s ! k)\<lparr>i_ic := ic'\<rparr>], dsk := d, fs := g,
        oft := (oft s)[j := (oft s ! j)\<lparr>o_head := head + of_nat (length data)\<rparr>]\<rparr>"
      "ic_size ic' = sz" "ic_mode ic' = ic_mode ic"
      "stored ic' (nblocks sz) (drop (grow_cost (nblocks (ic_size ic)) (nblocks sz)) xs) s'"
      "frame_file ic (nblocks (ic_size ic)) xs (unat (i_number (ai s ! k))) s s'"
      "\<forall>q. q div 512 < nblocks sz \<and> unat head \<le> q \<and> q < unat head + length data \<longrightarrow> fbyte ic' s' q = data ! (q - unat head)"
      "\<forall>q. q div 512 < nblocks (ic_size ic) \<and> \<not> (unat head \<le> q \<and> q < unat head + length data) \<longrightarrow> fbyte ic' s' q = fbyte ic s q"
      "\<forall>i<nblocks (ic_size ic). fblk s' ic' i = fblk s ic i"
      "set (file_blocks s' ic' (nblocks sz)) \<subseteq> set (file_blocks s ic (nblocks (ic_size ic))) \<union> set xs"
    by blast
  have jk: "j < length (oft s)" "k < length (ai s)" using fo by (simp_all add: file_open_def)
  have "file_open s' f j k" "ai s' ! k = (ai s ! k)\<lparr>i_ic := ic'\<rparr>"
    using fo jk unfolding r(2) by (simp_all add: file_open_def)
  then have "file_ready s' f j k (drop (grow_cost (nblocks (ic_size ic)) (nblocks sz)) xs)"
    using r(3,5) num by (simp add: file_ready_def)
  moreover have "content ic' s' = write_at (unat head) data (content ic s)"
    using r(3,7,8) h unat_grown_size [OF ov] div_nblocks by (intro content_write) (simp_all add: sz_def)
  ultimately show ?thesis using r(1-4,6,9,10) head_offset [OF ov] by blast
qed

lemma fread_content:
  assumes fr: "file_ready s f j k xs" and n: "n < 2 ^ 31"
  defines "ic \<equiv> i_ic (ai s ! k)" and "head \<equiv> o_head (oft s ! j)"
  assumes h: "unat head + n \<le> unat (ic_size ic)"
  shows "fread f (of_nat n) s = Some (0, take n (drop (unat head) (content ic s)),
    s\<lparr>oft := (oft s)[j := (oft s ! j)\<lparr>o_head := head + of_nat n\<rparr>]\<rparr>)"
proof -
  have "map (fbyte ic s) [unat head..<unat head + n] = take n (drop (unat head) (content ic s))"
    using h by (simp add: content_def drop_map take_map)
  moreover have "unat (ic_size ic) div 512 < nblocks (ic_size ic)" by (simp add: nblocks_def)
  ultimately show ?thesis
    using fread_ok [of s f j k "nblocks (ic_size ic)" xs n] fr n h by (simp add: file_ready_def ic_def head_def)
qed

lemma lseek_set:
  "file_open s f j k \<Longrightarrow> lseek f off SEEK_SET s = Some (off, s\<lparr>oft := (oft s)[j := (oft s ! j)\<lparr>o_head := off\<rparr>]\<rparr>)"
  by (simp add: lseek_def file_open_def)

lemma file_ready_head:
  fixes off :: u32
  assumes "file_ready s f j k xs"
  defines "s' \<equiv> s\<lparr>oft := (oft s)[j := (oft s ! j)\<lparr>o_head := off\<rparr>]\<rparr>"
  shows "file_ready s' f j k xs" and "ai s' = ai s" and "content ic s' = content ic s" and "o_head (oft s' ! j) = off"
proof -
  have "j < length (oft s)" using assms(1) by (simp add: file_ready_def file_open_def)
  with assms(1) show "file_ready s' f j k xs" and "ai s' = ai s" and "content ic s' = content ic s" and "o_head (oft s' ! j) = off"
    by (simp_all add: s'_def file_ready_def content_def)
qed

section \<open>Properties\<close>

text \<open>C30. Writing a file. On an open file whose position is inside it, when the disk has the
  blocks the file needs and the file stays within its first index block, \<open>fwrite\<close> succeeds:
  the content becomes the old one with the bytes from the position on replaced and, past the
  end, appended; the position advances; the blocks of no other file, no other inode, no other
  table entry changes.\<close>

theorem fwrite_spec:
  fixes s :: "('h, 'a) kernel_scheme" and data :: "byte list"
  assumes "file_ready s f j k xs"
  defines "ic \<equiv> i_ic (ai s ! k)" and "head \<equiv> o_head (oft s ! j)"
  defines "sz \<equiv> grown_size (ic_size ic) head (length data)"
  defines "cost \<equiv> grow_cost (nblocks (ic_size ic)) (nblocks sz)"
  assumes "unat head \<le> unat (ic_size ic)" and "length data < 2 ^ 31" and "nblocks sz \<le> 139" and "cost \<le> length xs"
  shows "\<exists>ic' d g s'. fwrite f data (of_nat (length data)) s = Some (0, s')
    \<and> s' = s\<lparr>ai := (ai s)[k := (ai s ! k)\<lparr>i_ic := ic'\<rparr>], dsk := d, fs := g,
        oft := (oft s)[j := (oft s ! j)\<lparr>o_head := head + of_nat (length data)\<rparr>]\<rparr>
    \<and> content ic' s' = write_at (unat head) data (content ic s)
    \<and> unat (head + of_nat (length data)) = unat head + length data
    \<and> file_ready s' f j k (drop cost xs)
    \<and> frame_file ic (nblocks (ic_size ic)) xs (unat (i_number (ai s ! k))) s s'"
  unfolding cost_def using fwrite_content [OF assms(1), of data] assms(6-9)
  by (auto simp: ic_def head_def sz_def cost_def)

text \<open>The example kernel with \<open>P0\<close> open as descriptor 0.\<close>

definition desk_open :: "unit kernel" where
  "desk_open = desk\<lparr>pcb := zero_pcb\<lparr>pst := EXECUTING, fd := Some 0 # replicate 15 None\<rparr> # replicate 7 zero_pcb,
     oft := \<lparr>o_inptr = Some 0, o_head = 0\<rparr> # replicate 127 \<lparr>o_inptr = None, o_head = 0\<rparr>,
     ai := \<lparr>i_number = 1, i_links = 1, i_ic = P0_ic\<rparr> # replicate 127 inode_local\<rparr>"

lemma desk_open_ready:
  "file_ready desk_open 0 0 0 (tl wipe_order)" "ai desk_open ! 0 = \<lparr>i_number = 1, i_links = 1, i_ic = P0_ic\<rparr>"
  "oft desk_open ! 0 = \<lparr>o_inptr = Some 0, o_head = 0\<rparr>"
proof -
  have d: "dsk desk_open = dsk rooted" "fs desk_open = fs rooted" by (simp_all add: desk_open_def)
  have "stored P0_ic 1 (tl wipe_order) desk_open"
    using rooted_file same_disk_views(3) [OF d(1)] same_disk_alloc(1) [OF d] by (simp add: stored_def)
  moreover have "nblocks (ic_size P0_ic) = 1" by (simp add: P0_ic_def nblocks_def)
  moreover show a: "ai desk_open ! 0 = \<lparr>i_number = 1, i_links = 1, i_ic = P0_ic\<rparr>"
    and "oft desk_open ! 0 = \<lparr>o_inptr = Some 0, o_head = 0\<rparr>" by (simp_all add: desk_open_def)
  moreover have "file_open desk_open 0 0 0"
    by (simp add: file_open_def valid_fd_def desk_open_def desk_def)
  ultimately show "file_ready desk_open 0 0 0 (tl wipe_order)" by (simp add: file_ready_def)
qed

theorem fwrite_spec_witness:
  "\<exists>ic' s'. fwrite 0 (replicate 1000 7) 1000 desk_open = Some (0, s') \<and> content ic' s' = replicate 1000 7
     \<and> file_ready s' 0 0 0 (drop 1 (tl wipe_order))"
proof -
  have sz: "grown_size (ic_size P0_ic) 0 1000 = 1000" by (simp add: grown_size_def P0_ic_def)
  have "nblocks (ic_size P0_ic) = 1" "nblocks 1000 = 2" by (simp_all add: P0_ic_def nblocks_def)
  moreover have "content P0_ic desk_open = []" by (simp add: content_def P0_ic_def)
  ultimately show ?thesis
    using fwrite_spec [OF desk_open_ready(1), of "replicate 1000 7"] sz
    by (auto simp: desk_open_ready grow_cost_def write_at_def length_wipe_order)
qed

text \<open>C31. Reading a file. \<open>fread\<close> returns exactly the bytes of the content at the position and
  advances it; when the content ends before, it returns -1 and neither stores a byte nor
  moves the position.\<close>

theorem fread_spec:
  assumes "file_ready s f j k xs" and "n < 2 ^ 31" and "unat (o_head (oft s ! j)) + n < 2 ^ 32"
  defines "ic \<equiv> i_ic (ai s ! k)" and "head \<equiv> o_head (oft s ! j)"
  shows "fread f (of_nat n) s =
    (if unat head + n \<le> length (content ic s)
     then Some (0, take n (drop (unat head) (content ic s)), s\<lparr>oft := (oft s)[j := (oft s ! j)\<lparr>o_head := head + of_nat n\<rparr>]\<rparr>)
     else Some (-1, [], s))"
proof (cases "unat head + n \<le> length (content ic s)")
  case True
  then show ?thesis using fread_content [OF assms(1,2)] by (simp add: content_def ic_def head_def)
next
  case False
  then have "head + of_nat n > ic_size ic"
    using head_offset [OF assms(3)] by (simp add: content_def head_def word_less_nat_alt)
  with False assms(1) show ?thesis
    by (simp add: fread_def file_ready_def file_open_def ic_def head_def)
qed

theorem fread_spec_witness: "fread 0 4 desk_open = Some (-1, [], desk_open)"
  using fread_spec [OF desk_open_ready(1), of 4] by (simp add: desk_open_ready content_def P0_ic_def)

text \<open>C29. What is written is what is read. After \<open>fwrite\<close> of any bytes at the position of an
  open file, seeking back and reading as many bytes returns them.\<close>

theorem fwrite_fread_roundtrip:
  fixes s :: "('h, 'a) kernel_scheme" and data :: "byte list"
  assumes fr: "file_ready s f j k xs"
  defines "ic \<equiv> i_ic (ai s ! k)" and "head \<equiv> o_head (oft s ! j)"
  defines "sz \<equiv> grown_size (ic_size ic) head (length data)"
  assumes h: "unat head \<le> unat (ic_size ic)" and len: "length data < 2 ^ 31" and "nblocks sz \<le> 139"
    and "grow_cost (nblocks (ic_size ic)) (nblocks sz) \<le> length xs"
  shows "\<exists>s1 s2 s3. fwrite f data (of_nat (length data)) s = Some (0, s1) \<and> lseek f head SEEK_SET s1 = Some (head, s2)
    \<and> fread f (of_nat (length data)) s2 = Some (0, data, s3)"
proof -
  from fwrite_content [OF fr, of data] assms(5-8) obtain ic' d g s1 where
    w: "fwrite f data (of_nat (length data)) s = Some (0, s1)" "ai s1 = (ai s)[k := (ai s ! k)\<lparr>i_ic := ic'\<rparr>]"
      "file_ready s1 f j k (drop (grow_cost (nblocks (ic_size ic)) (nblocks sz)) xs)"
      "content ic' s1 = write_at (unat head) data (content ic s)" "ic_size ic' = sz" "unat (head + of_nat (length data)) = unat head + length data"
    by (auto simp: ic_def head_def sz_def)
  have fo: "file_open s1 f j k" and k: "k < length (ai s)"
    using w(3) fr by (simp_all add: file_ready_def file_open_def)
  let ?s2 = "s1\<lparr>oft := (oft s1)[j := (oft s1 ! j)\<lparr>o_head := head\<rparr>]\<rparr>"
  note s2 = file_ready_head [OF w(3), where off = head]
  have ic': "i_ic (ai ?s2 ! k) = ic'" using w(2) k by simp
  have "unat sz = max (unat (ic_size ic)) (unat head + length data)"
    using w(6) by (auto simp: sz_def grown_size_def word_less_nat_alt max_def)
  then have "unat head + length data \<le> unat (ic_size ic')" using w(5) by simp
  moreover have "take (length data) (drop (unat head) (content ic' ?s2)) = data"
    using w(4) h s2(3) by (simp add: write_at_def content_def)
  ultimately show ?thesis
    using fread_content [OF s2(1) len] ic' s2(4) w(1) lseek_set [OF fo] by auto
qed

theorem fwrite_fread_roundtrip_witness:
  "\<exists>s1 s2 s3. fwrite 0 [1, 2, 3] 3 desk_open = Some (0, s1) \<and> lseek 0 0 SEEK_SET s1 = Some (0, s2)
     \<and> fread 0 3 s2 = Some (0, [1, 2, 3], s3)"
proof -
  have "grown_size (ic_size P0_ic) 0 (Suc (Suc (Suc 0))) = 3" by (simp add: grown_size_def P0_ic_def)
  moreover have "nblocks (ic_size P0_ic) = 1" "nblocks 3 = 1" by (simp_all add: P0_ic_def nblocks_def)
  ultimately show ?thesis
    using fwrite_fread_roundtrip [OF desk_open_ready(1), of "[1, 2, 3]"] by (simp add: desk_open_ready grow_cost_def length_wipe_order)
qed

text \<open>C32. Positions wrap. The end-of-file test of \<open>fread\<close> adds the length to the position in 32
  bits. After a seek to the position \<open>2^32 - 4\<close>, which \<open>lseek\<close> accepts, a read of eight
  bytes passes the test on every file of at least four bytes, although the position is far
  outside; the block address is then -1, and the disk server does not survive the request:
  the read never returns.\<close>

theorem fread_head_wrap:
  assumes "file_ready s f j k xs" and "4 \<le> unat (ic_size (i_ic (ai s ! k)))"
  shows "\<exists>s'. lseek f (-4) SEEK_SET s = Some (-4, s') \<and> fread f 8 s' = None"
proof -
  let ?s' = "s\<lparr>oft := (oft s)[j := (oft s ! j)\<lparr>o_head := -4\<rparr>]\<rparr>"
  have fo: "file_open s f j k" using assms(1) by (simp add: file_ready_def)
  have "unat (-4 :: u32) div 512 = 8388607" by simp
  then have "getDataBlockAddr (ai s ! k) (-4) ?s' = Some (-1)" by (simp add: getDataBlockAddr_def)
  moreover have "kread ?s' (-1) = None" by (simp add: kread_def blk_rd_def)
  ultimately have "fread_bytes (ai s ! k) (-4) 8 ?s' = None" by (simp add: fread_bytes_def getDataBlock_def)
  moreover have "\<not> (-4 + 8 :: u32) > ic_size (i_ic (ai s ! k))" using assms(2) by (simp add: word_less_nat_alt)
  ultimately have "fread f 8 ?s' = None" using fo by (simp add: fread_def file_open_def)
  with lseek_set [OF fo] show ?thesis by blast
qed

theorem fread_head_wrap_witness:
  "\<exists>s'. lseek 0 (-4) SEEK_SET (desk_open\<lparr>ai := [\<lparr>i_number = 1, i_links = 1, i_ic = P0_ic\<lparr>ic_size := 4\<rparr>\<rparr>]\<rparr>) = Some (-4, s')
     \<and> fread 0 8 s' = None"
proof -
  let ?s = "desk_open\<lparr>ai := [\<lparr>i_number = 1, i_links = 1, i_ic = P0_ic\<lparr>ic_size := 4\<rparr>\<rparr>]\<rparr>"
  have "stored P0_ic 1 (tl wipe_order) ?s" "file_open desk_open 0 0 0"
    using desk_open_ready(1,2) by (simp_all add: file_ready_def P0_ic_def nblocks_def)
  then have "file_ready ?s 0 0 0 (tl wipe_order)"
    by (simp add: file_ready_def file_open_def stored_def nblocks_def desk_open_ready)
  from fread_head_wrap [OF this] show ?thesis by simp
qed

end
