(* ===== verification/Tables.thy ===== *)
theory Tables
  imports Files
begin

text \<open>
  The tables of open files: descriptors, open file table and active inode table, whatever the
  operations of \<open>Files\<close> do to them. The disk operations leave all tables alone (first
  section), so the invariant of the tables needs no assumption on the disk.
\<close>

section \<open>Disk operations keep the other state\<close>

named_theorems keeps
  \<open>an operation on the disk leaves the rest of the state\<close>

lemma kwrite_keeps [keeps]: "kwrite a x s = Some s' \<Longrightarrow> store.more s' = store.more s"
  by (auto simp: kwrite_def)

lemma write_sb_keeps [keeps]: "write_sb s = Some s' \<Longrightarrow> store.more s' = store.more s"
  by (auto simp: write_sb_def dest: keeps)

lemma balloc_keeps [keeps]: "balloc s = Some (r, s') \<Longrightarrow> store.more s' = store.more s"
  by (auto simp: balloc_def Let_def bind_eq_Some_conv split: if_splits dest!: keeps)

lemma bfree_keeps [keeps]: "bfree a s = Some (r, s') \<Longrightarrow> store.more s' = store.more s"
  by (auto simp: bfree_def Let_def bind_eq_Some_conv split: if_splits dest!: keeps)

lemma writeInode_keeps [keeps]: "writeInode inode s = Some s' \<Longrightarrow> store.more s' = store.more s"
  by (auto simp: writeInode_def Let_def bind_eq_Some_conv dest: keeps)

lemma index_block_keeps [keeps]:
  "index_block k b inode s = Some (t, inode', s') \<Longrightarrow> store.more s' = store.more s \<and> i_links inode' = i_links inode"
  by (auto simp: index_block_def Let_def bind_eq_Some_conv split: if_splits dest!: keeps)

lemma next_table_keeps [keeps]: "next_table e b block s = Some (t, block', s') \<Longrightarrow> store.more s' = store.more s"
  by (auto simp: next_table_def Let_def bind_eq_Some_conv split: if_splits dest!: keeps)

lemma set_leaf_keeps [keeps]: "set_leaf a e block addr s = Some s' \<Longrightarrow> store.more s' = store.more s"
  by (auto simp: set_leaf_def dest: keeps)

lemma allocateDataBlockAddr_keeps [keeps]:
  "allocateDataBlockAddr inode byt s = Some (r, inode', s') \<Longrightarrow> store.more s' = store.more s \<and> i_links inode' = i_links inode"
  by (auto simp: allocateDataBlockAddr_def Let_def bind_eq_Some_conv split: if_splits option.splits dest!: keeps)

lemma allocate_loop_keeps [keeps]:
  "allocate_loop is inode s = Some (ok, inode', s') \<Longrightarrow> store.more s' = store.more s \<and> i_links inode' = i_links inode"
  by (induction "is" arbitrary: inode s) (auto simp: bind_eq_Some_conv split: if_splits dest!: keeps)

lemma allocateDataBlocks_keeps [keeps]:
  "allocateDataBlocks inode n s = Some (r, inode', s') \<Longrightarrow> store.more s' = store.more s \<and> i_links inode' = i_links inode"
  by (auto simp: allocateDataBlocks_def Let_def bind_eq_Some_conv split: if_splits dest!: keeps)

lemma addInodeToDirectory_keeps [keeps]:
  "addInodeToDirectory par ino name s = Some (par', s') \<Longrightarrow> store.more s' = store.more s"
  by (auto simp: addInodeToDirectory_def add_room_def Let_def bind_eq_Some_conv split: if_splits dest!: keeps)

lemma path_to_ino2_keeps [keeps]: "path_to_ino2 path dir s = Some (ino, s') \<Longrightarrow> store.more s' = store.more s"
  by (auto simp: path_to_ino2_def Let_def bind_eq_Some_conv split: if_splits option.splits dest!: keeps)

lemma remove_keeps [keeps]: "remove par name s = Some (r, d, par', s') \<Longrightarrow> store.more s' = store.more s"
  by (auto simp: remove_def Let_def bind_eq_Some_conv split: option.splits dest!: keeps)

lemma free_block_at_keeps [keeps]: "free_block_at inode b s = Some s' \<Longrightarrow> store.more s' = store.more s"
  by (auto simp: free_block_at_def Let_def bind_eq_Some_conv split: if_splits dest!: keeps)

lemma for_each_keeps:
  assumes "\<And>i s s'. f i s = Some s' \<Longrightarrow> store.more s' = store.more s"
  shows "for_each is f s = Some s' \<Longrightarrow> store.more s' = store.more s"
  by (induction "is" arbitrary: s) (auto simp: bind_eq_Some_conv dest!: assms)

lemma freeDataBlocks_keeps [keeps]: "freeDataBlocks inode s = Some s' \<Longrightarrow> store.more s' = store.more s"
  unfolding freeDataBlocks_def by (rule for_each_keeps [of "free_block_at inode"]) (auto dest: keeps)

lemma unlink_keeps [keeps]: "unlink name s = Some (r, s') \<Longrightarrow> store.more s' = store.more s"
  by (auto simp: unlink_def Let_def bind_eq_Some_conv split: if_splits dest!: keeps)

lemma fwrite_loop_keeps [keeps]: "fwrite_loop inode head data n is b s = Some (b', s') \<Longrightarrow> store.more s' = store.more s"
proof (induction "is" arbitrary: b s)
  case (Cons i "is")
  then show ?case by (cases b) (fastforce simp: bind_eq_Some_conv split: if_splits dest!: keeps)
qed simp

lemma fwrite_bytes_keeps [keeps]: "fwrite_bytes inode head data n s = Some s' \<Longrightarrow> store.more s' = store.more s"
  by (auto simp: fwrite_bytes_def bind_eq_Some_conv dest!: keeps)

section \<open>The invariant of the tables\<close>

text \<open>The number of entries of the open file table that point to inode entry \<open>k\<close>.\<close>

definition refs :: "nat \<Rightarrow> ofile_t list \<Rightarrow> nat" where
  "refs k t = length (filter (\<lambda>x. o_inptr x = Some k) t)"

lemma refs_update:
  assumes "j < length t"
  shows "refs k (t[j := y]) + (if o_inptr (t ! j) = Some k then 1 else 0) = refs k t + (if o_inptr y = Some k then 1 else 0)"
proof -
  have "t = take j t @ t ! j # drop (Suc j) t" using assms by (rule id_take_nth_drop)
  then have "refs k t = refs k (take j t @ t ! j # drop (Suc j) t)" by simp
  then show ?thesis by (simp add: refs_def upd_conv_take_nth_drop [OF assms])
qed

lemma refs_bound: "refs k t \<le> length t"
  by (simp add: refs_def)

text \<open>Every descriptor in use points to an entry of the open file table in use, no two of them to
  the same one; every entry in use points to an inode entry, and \<open>i_links\<close> counts them; an
  entry not in use has position 0, which is where the next file opened there starts.\<close>

definition tables_ok :: "pcb_t list \<Rightarrow> ofile_t list \<Rightarrow> inode_t list \<Rightarrow> bool" where
  "tables_ok ps t a \<longleftrightarrow> length ps = PROCESS_LIMIT \<and> length t = OFT_LIMIT \<and> length a = AIT_LIMIT
     \<and> (\<forall>p<PROCESS_LIMIT. length (fd (ps ! p)) = FDT_LIMIT)
     \<and> (\<forall>j<OFT_LIMIT. \<forall>k. o_inptr (t ! j) = Some k \<longrightarrow> k < AIT_LIMIT)
     \<and> (\<forall>j<OFT_LIMIT. o_inptr (t ! j) = None \<longrightarrow> o_head (t ! j) = 0)
     \<and> (\<forall>k<AIT_LIMIT. unat (i_links (a ! k)) = refs k t)
     \<and> (\<forall>p<PROCESS_LIMIT. \<forall>f<FDT_LIMIT. \<forall>j. fd (ps ! p) ! f = Some j \<longrightarrow> j < OFT_LIMIT \<and> o_inptr (t ! j) \<noteq> None)
     \<and> (\<forall>p<PROCESS_LIMIT. \<forall>f<FDT_LIMIT. \<forall>p'<PROCESS_LIMIT. \<forall>f'<FDT_LIMIT. \<forall>j.
           fd (ps ! p) ! f = Some j \<and> fd (ps ! p') ! f' = Some j \<longrightarrow> p = p' \<and> f = f')"

definition tables_inv :: "('h, 'a) kernel_scheme \<Rightarrow> bool" where
  "tables_inv s \<longleftrightarrow> tables_ok (pcb s) (oft s) (ai s) \<and> (\<exists>c<PROCESS_LIMIT. current s = Some c)"

lemma tables_okI:
  assumes "length ps = 8" "length t = 128" "length a = 128" "\<And>p. p < 8 \<Longrightarrow> length (fd (ps ! p)) = 16"
    and "\<And>j k. j < 128 \<Longrightarrow> o_inptr (t ! j) = Some k \<Longrightarrow> k < 128"
    and "\<And>j. j < 128 \<Longrightarrow> o_inptr (t ! j) = None \<Longrightarrow> o_head (t ! j) = 0"
    and "\<And>k. k < 128 \<Longrightarrow> unat (i_links (a ! k)) = refs k t"
    and "\<And>p f j. p < 8 \<Longrightarrow> f < 16 \<Longrightarrow> fd (ps ! p) ! f = Some j \<Longrightarrow> j < 128 \<and> o_inptr (t ! j) \<noteq> None"
    and "\<And>p f p' f' j. p < 8 \<Longrightarrow> f < 16 \<Longrightarrow> p' < 8 \<Longrightarrow> f' < 16 \<Longrightarrow> fd (ps ! p) ! f = Some j \<Longrightarrow> fd (ps ! p') ! f' = Some j \<Longrightarrow>
      p = p' \<and> f = f'"
  shows "tables_ok ps t a"
  unfolding tables_ok_def using assms(1-4) assms(5-8) [simplified] assms(9) by simp

lemma tables_fd:
  assumes "tables_ok ps t a" and "p < 8" and "f < 16" and "fd (ps ! p) ! f = Some j"
  shows "j < 128" and "o_inptr (t ! j) \<noteq> None"
    and "p' < 8 \<Longrightarrow> f' < 16 \<Longrightarrow> fd (ps ! p') ! f' = Some j \<Longrightarrow> p = p' \<and> f = f'"
  using assms unfolding tables_ok_def by simp_all

lemma tables_open:
  assumes ok: "tables_ok ps t a" and pf: "p < 8" "f < 16" "fd (ps ! p) ! f = None" and j: "j < 128" "o_inptr (t ! j) = None"
    and k: "k < 128"
  shows "tables_ok (ps[p := (ps ! p)\<lparr>fd := (fd (ps ! p))[f := Some j]\<rparr>]) (t[j := (t ! j)\<lparr>o_inptr := Some k\<rparr>])
    (a[k := (a ! k)\<lparr>i_links := i_links (a ! k) + 1\<rparr>])" (is "tables_ok ?ps ?t ?a")
proof -
  have len: "length ps = 8" "length t = 128" "length a = 128" "\<forall>p<8. length (fd (ps ! p)) = 16"
    using ok by (simp_all add: tables_ok_def)
  have fd': "fd (?ps ! p') ! f' = (if p' = p \<and> f' = f then Some j else fd (ps ! p') ! f')" if "p' < 8" "f' < 16" for p' f'
    using that pf len by (auto simp: nth_list_update)
  have old: "\<forall>p<8. \<forall>f<16. \<forall>i. fd (ps ! p) ! f = Some i \<longrightarrow> i < 128 \<and> o_inptr (t ! i) \<noteq> None \<and> i \<noteq> j"
    using tables_fd(1,2) [OF ok] j(2) by metis
  have "unat (i_links (?a ! i)) = refs i ?t" if i: "i < 128" for i
  proof -
    have r: "refs i ?t = refs i t + (if i = k then 1 else 0)"
      using refs_update [of j t i "(t ! j)\<lparr>o_inptr := Some k\<rparr>"] j len(2) by auto
    have l: "unat (i_links (a ! i)) = refs i t" using ok i by (simp add: tables_ok_def)
    then have "unat (i_links (a ! i)) \<le> 128" using refs_bound [of i t] len(2) by simp
    then have "unat (i_links (a ! i) + 1) = unat (i_links (a ! i)) + 1" by (simp add: unat_word_ariths)
    with r l i len(3) show ?thesis by (auto simp: nth_list_update)
  qed
  moreover have "i < 128" if "q < 128" "o_inptr (?t ! q) = Some i" for q i
    using ok that k j len(2) by (auto simp: tables_ok_def nth_list_update split: if_splits)
  moreover have "o_head (?t ! q) = 0" if "q < 128" "o_inptr (?t ! q) = None" for q
    using ok that j(1) len(2) by (cases "q = j") (simp_all add: tables_ok_def)
  moreover have "i < 128 \<and> o_inptr (?t ! i) \<noteq> None" if "p' < 8" "f' < 16" "fd (?ps ! p') ! f' = Some i" for p' f' i
    using that fd' old j len(2) by (auto simp: nth_list_update split: if_splits)
  moreover have "p1 = p2 \<and> f1 = f2" if pf': "p1 < 8" "f1 < 16" "p2 < 8" "f2 < 16" "fd (?ps ! p1) ! f1 = Some i" "fd (?ps ! p2) ! f2 = Some i"
    for p1 f1 p2 f2 i
  proof -
    note e = fd' [OF pf'(1,2)] fd' [OF pf'(3,4)]
    show ?thesis
    proof (cases "p1 = p \<and> f1 = f \<or> p2 = p \<and> f2 = f")
      case True
      then have "i = j" using pf'(5,6) e by (metis option.inject)
      then show ?thesis using True pf' e old by (metis option.inject)
    next
      case False
      then have "fd (ps ! p1) ! f1 = Some i" "fd (ps ! p2) ! f2 = Some i" using pf'(5,6) e by metis+
      then show ?thesis using tables_fd(3) [OF ok pf'(1,2)] pf'(3,4) by blast
    qed
  qed
  moreover have "length (fd (?ps ! q)) = 16" if "q < 8" for q using that len pf(1) by (cases "q = p") simp_all
  ultimately show ?thesis using len by (intro tables_okI) simp_all
qed

lemma tables_close:
  assumes ok: "tables_ok ps t a" and pf: "p < 8" "f < 16" "fd (ps ! p) ! f = Some j"
    and k: "o_inptr (t ! j) = Some k" and x: "i_links x = i_links (a ! k) - 1" and y: "o_inptr y = None" "o_head y = 0"
  shows "tables_ok (ps[p := (ps ! p)\<lparr>fd := (fd (ps ! p))[f := None]\<rparr>]) (t[j := y]) (a[k := x])" (is "tables_ok ?ps ?t ?a")
proof -
  have len: "length ps = 8" "length t = 128" "length a = 128" "\<forall>p<8. length (fd (ps ! p)) = 16"
    using ok by (simp_all add: tables_ok_def)
  have j: "j < 128" using ok pf by (auto simp: tables_ok_def)
  have fd': "fd (?ps ! p') ! f' = (if p' = p \<and> f' = f then None else fd (ps ! p') ! f')" if "p' < 8" "f' < 16" for p' f'
    using that pf len by (auto simp: nth_list_update)
  have "unat (i_links (?a ! i)) = refs i ?t" if i: "i < 128" for i
  proof -
    have r: "refs i ?t + (if i = k then 1 else 0) = refs i t"
      using refs_update [of j t i y] j k y len(2) by auto
    have l: "unat (i_links (a ! i)) = refs i t" using ok i by (simp add: tables_ok_def)
    have "unat (i_links (a ! i) - 1) = unat (i_links (a ! i)) - 1" if "i = k"
    proof -
      have "0 < unat (i_links (a ! i))" using that l r by simp
      then have "i_links (a ! i) \<noteq> 0" by (intro notI) simp
      then show ?thesis by (rule unat_minus_one)
    qed
    with r l i len(3) x show ?thesis by (cases "i = k") simp_all
  qed
  moreover have "i < 128" if "q < 128" "o_inptr (?t ! q) = Some i" for q i
    using ok that y j len(2) by (auto simp: tables_ok_def nth_list_update split: if_splits)
  moreover have "o_head (?t ! q) = 0" if "q < 128" "o_inptr (?t ! q) = None" for q
    using ok that j y(2) len(2) by (cases "q = j") (simp_all add: tables_ok_def)
  moreover have "i < 128 \<and> o_inptr (?t ! i) \<noteq> None" if "p' < 8" "f' < 16" "fd (?ps ! p') ! f' = Some i" for p' f' i
  proof -
    have o: "fd (ps ! p') ! f' = Some i" "\<not> (p' = p \<and> f' = f)"
      using that(3) fd' [OF that(1,2)] by (auto split: if_splits)
    then have "i < 128" "o_inptr (t ! i) \<noteq> None" using tables_fd(1,2) [OF ok that(1,2)] by blast+
    moreover have "i \<noteq> j" using tables_fd(3) [OF ok pf, of p' f'] o that(1,2) by blast
    ultimately show ?thesis by simp
  qed
  moreover have "p1 = p2 \<and> f1 = f2" if "p1 < 8" "f1 < 16" "p2 < 8" "f2 < 16" "fd (?ps ! p1) ! f1 = Some i" "fd (?ps ! p2) ! f2 = Some i"
    for p1 f1 p2 f2 i
  proof -
    have "fd (ps ! p1) ! f1 = Some i" "fd (ps ! p2) ! f2 = Some i"
      using that(5,6) fd' [OF that(1,2)] fd' [OF that(3,4)] by (auto split: if_splits)
    then show ?thesis using tables_fd(3) [OF ok that(1,2)] that(3,4) by blast
  qed
  moreover have "length (fd (?ps ! q)) = 16" if "q < 8" for q using that len pf(1) by (cases "q = p") simp_all
  ultimately show ?thesis using len by (intro tables_okI) simp_all
qed

lemma tables_same:
  assumes "tables_ok ps t a"
  shows "i_links x = i_links (a ! k) \<Longrightarrow> tables_ok ps t (a[k := x])"
    and "o_inptr y = o_inptr (t ! j) \<Longrightarrow> o_inptr y \<noteq> None \<Longrightarrow> tables_ok ps (t[j := y]) a"
proof -
  show "tables_ok ps t (a[k := x])" if "i_links x = i_links (a ! k)"
  proof -
    have "i_links (a[k := x] ! i) = i_links (a ! i)" for i
      using that by (cases "k < length a"; cases "i = k") (simp_all add: list_update_beyond)
    then show ?thesis using assms by (simp add: tables_ok_def)
  qed
  show "tables_ok ps (t[j := y]) a" if "o_inptr y = o_inptr (t ! j)" "o_inptr y \<noteq> None"
  proof (cases "j < length t")
    case True
    then have "refs i (t[j := y]) = refs i t" for i using refs_update [OF True, of i y] that by auto
    with assms that True show ?thesis by (auto simp: tables_ok_def nth_list_update)
  next
    case False
    then show ?thesis using assms by (simp add: list_update_beyond)
  qed
qed

section \<open>Every operation keeps the tables\<close>

lemma more_fields:
  assumes "store.more s' = store.more (s :: ('h, 'a) kernel_scheme)"
  shows "pcb s' = pcb s" "current s' = current s" "oft s' = oft s" "ai s' = ai s" "cwd s' = cwd s" "mem s' = mem s"
    "mq s' = mq s" "uart0 s' = uart0 s" "rq s' = rq s" "rq_size s' = rq_size s"
  using assms by (cases s; cases s'; simp)+

lemma tables_inv_more:
  assumes "store.more s' = store.more s"
  shows "tables_inv s' = tables_inv s"
  using more_fields [OF assms] by (simp add: tables_inv_def)

lemma arr_Some: "arr xs i = Some x \<longleftrightarrow> i < length xs \<and> x = xs ! i"
  by (auto simp: arr_def)

lemma first_at_Some: "first_at t is = Some (Some i) \<Longrightarrow> i \<in> set is \<and> t i = Some True"
  by (induction "is") (auto simp: bind_eq_Some_conv split: if_splits)

lemma getFD_Some:
  assumes "getFD s = Some f" and "f \<noteq> -1" and "current s = Some c"
  shows "unat f < 16" and "fd (pcb s ! c) ! unat f = None"
proof -
  obtain i where "f = of_nat i" "i < 16" "fd (pcb s ! c) ! i = None"
    using assms by (auto simp: getFD_def bind_eq_Some_conv arr_Some split: option.splits dest!: first_at_Some)
  moreover from this have "unat f = i" by (simp add: unat_of_nat_u32)
  ultimately show "unat f < 16" and "fd (pcb s ! c) ! unat f = None" by simp_all
qed

lemma getOFT_Some: "getOFT s = Some (Some j) \<Longrightarrow> j < 128 \<and> o_inptr (oft s ! j) = None"
  by (auto simp: getOFT_def bind_eq_Some_conv arr_Some dest!: first_at_Some simp del: upt_rec_numeral)

lemma getAIT_cases:
  assumes "getAIT ino s = Some (r, s')"
  obtains "r = None" "s' = s" | k x where "r = Some k" "k < 128" "s' = s\<lparr>ai := (ai s)[k := x]\<rparr>" "i_links x = i_links (ai s ! k)"
proof -
  have rd: "i_links x = i_links y" if "readInode y ino s = Some x" for x y
    using that by (auto simp: readInode_def Let_def bind_eq_Some_conv split: if_splits)
  show ?thesis
  proof (cases r)
    case None
    then have "s' = s" using assms by (auto simp: getAIT_def bind_eq_Some_conv split: option.splits)
    with None that(1) show ?thesis by blast
  next
    case (Some k)
    then consider "k < 128" "s' = s" | x where "k < 128" "s' = s\<lparr>ai := (ai s)[k := x]\<rparr>" "i_links x = i_links (ai s ! k)"
      using assms by (fastforce simp: getAIT_def bind_eq_Some_conv arr_Some arr_upd_def split: option.splits if_splits
          dest!: first_at_Some rd simp del: upt_rec_numeral)
    then show ?thesis
    proof cases
      case 1
      then have "s' = s\<lparr>ai := (ai s)[k := ai s ! k]\<rparr>" by simp
      with 1 Some that(2) [of k "ai s ! k"] show ?thesis by blast
    qed (use Some that(2) in blast)
  qed
qed

lemma set_fd_eq:
  assumes "tables_ok (pcb s) t a" and "unat f < 16" and "current s = Some c" and "c < 8"
  shows "set_fd f p s = Some (s\<lparr>pcb := (pcb s)[c := (pcb s ! c)\<lparr>fd := (fd (pcb s ! c))[unat f := p]\<rparr>]\<rparr>)"
  using assms by (simp add: set_fd_def tables_ok_def)

lemma open_ino_keeps_tables:
  assumes inv: "tables_inv s" and op: "open_ino f ino s = Some (r, s')" and c: "c < 8" "current s = Some c"
    and fd: "unat f < 16" "fd (pcb s ! c) ! unat f = None"
  shows "tables_inv s'"
proof -
  obtain q s2 where q: "getAIT ino s = Some (q, s2)" using op by (auto simp: open_ino_def bind_eq_Some_conv)
  then show ?thesis
  proof (cases rule: getAIT_cases)
    case 1
    then show ?thesis using op q inv by (simp add: open_ino_def)
  next
    case (2 k x)
    have ok: "tables_ok (pcb s2) (oft s2) (ai s2)" using inv 2(3,4) tables_same(1) by (auto simp: tables_inv_def)
    then have len: "length (ai s2) = 128" "length (oft s2) = 128" by (simp_all add: tables_ok_def)
    have c2: "current s2 = Some c" "fd (pcb s2 ! c) ! unat f = None" using c fd 2(3) by simp_all
    obtain j where j: "getOFT s2 = Some j" using op q 2(1) by (auto simp: open_ino_def bind_eq_Some_conv)
    show ?thesis
    proof (cases j)
      case None
      then show ?thesis using op q 2(1) j ok c c2(1) by (auto simp: open_ino_def tables_inv_def)
    next
      case (Some i)
      then have o: "i < 128" "o_inptr (oft s2 ! i) = None" using getOFT_Some j by blast+
      let ?s = "s2\<lparr>ai := (ai s2)[k := (ai s2 ! k)\<lparr>i_links := i_links (ai s2 ! k) + 1\<rparr>]\<rparr>"
      have "set_fd f (Some i) ?s = Some (?s\<lparr>pcb := (pcb s2)[c := (pcb s2 ! c)\<lparr>fd := (fd (pcb s2 ! c))[unat f := Some i]\<rparr>]\<rparr>)"
        using set_fd_eq [of ?s] ok c(1) c2(1) fd(1) by simp
      then have "s' = ?s\<lparr>pcb := (pcb s2)[c := (pcb s2 ! c)\<lparr>fd := (fd (pcb s2 ! c))[unat f := Some i]\<rparr>],
          oft := (oft s2)[i := (oft s2 ! i)\<lparr>o_inptr := Some k\<rparr>]\<rparr>"
        using op q 2(1,2) j Some len o(1) by (auto simp: open_ino_def)
      with tables_open [OF ok c(1) fd(1) c2(2) o 2(2)] c c2(1) show ?thesis by (simp add: tables_inv_def)
    qed
  qed
qed

lemma open_keeps_tables:
  assumes inv: "tables_inv s" and op: "open_file path oflag s = Some (r, s')"
  shows "tables_inv s'"
proof -
  obtain f where f: "getFD s = Some f" using op by (auto simp: open_file_def bind_eq_Some_conv)
  show ?thesis
  proof (cases "f = -1")
    case True
    then show ?thesis using op inv f by (simp add: open_file_def)
  next
    case False
    then obtain ino s1 where p: "(if oflag = O_CREAT then path_to_ino2 path ROOT_DIR s
        else map_option (\<lambda>ino. (ino, s)) (path_to_ino path ROOT_DIR s)) = Some (ino, s1)"
      and r: "(if sint ino < 0 then Some (-1, s1) else open_ino f ino s1) = Some (r, s')"
      using op f by (auto simp: open_file_def bind_eq_Some_conv split: if_splits)
    have m: "store.more s1 = store.more s" using p by (auto split: if_splits dest: keeps)
    have inv1: "tables_inv s1" using inv tables_inv_more [OF m] by simp
    obtain c where c: "c < 8" "current s1 = Some c" using inv1 by (auto simp: tables_inv_def)
    have "unat f < 16" "fd (pcb s1 ! c) ! unat f = None"
      using getFD_Some [OF f False] c more_fields(1,2) [OF m] by auto
    then show ?thesis using open_ino_keeps_tables [OF inv1 _ c] r inv1 by (auto split: if_splits)
  qed
qed

lemma valid_fd_Some:
  assumes "tables_inv s" and "valid_fd f s = Some (Some j)"
  obtains c k where "c < 8" "current s = Some c" "unat f < 16" "fd (pcb s ! c) ! unat f = Some j" "j < 128" "o_inptr (oft s ! j) = Some k" "k < 128"
proof -
  obtain c where c: "c < 8" "current s = Some c" and ok: "tables_ok (pcb s) (oft s) (ai s)"
    using assms(1) by (auto simp: tables_inv_def)
  have f: "unat f < 16" "fd (pcb s ! c) ! unat f = Some j"
    using assms(2) c ok by (auto simp: valid_fd_def arr_Some tables_ok_def split: if_splits)
  have "j < 128" "o_inptr (oft s ! j) \<noteq> None" using tables_fd(1,2) [OF ok c(1) f] by auto
  moreover from this obtain k where "o_inptr (oft s ! j) = Some k" "k < 128" using ok by (auto simp: tables_ok_def)
  ultimately show thesis using that c f by blast
qed

text \<open>The part of \<open>close\<close> before the entries are cleared.\<close>

lemma close_begin:
  assumes cl: "close f s = Some (r, s')" and v: "valid_fd f s = Some (Some j)" and len: "j < length (oft s)" "k < length (ai s)"
    and k: "o_inptr (oft s ! j) = Some k"
  obtains x s1 where "i_links x = i_links (ai s ! k) - 1" "pcb s1 = pcb s" "oft s1 = oft s" "current s1 = current s" "ai s1 = (ai s)[k := x]"
    "do { s \<leftarrow> upd_oft j (\<lambda>x. x\<lparr>o_inptr := None, o_head := 0\<rparr>) s1; s \<leftarrow> set_fd f None s; Some (0, s) } = Some (r, s')"
proof -
  let ?x = "(ai s ! k)\<lparr>i_links := i_links (ai s ! k) - 1\<rparr>"
  let ?s = "s\<lparr>ai := (ai s)[k := ?x]\<rparr>"
  show ?thesis
  proof (cases "i_links ?x = 0")
    case True
    then obtain s0 where s0: "writeInode ?x ?s = Some s0"
      using cl v len k by (auto simp: close_def bind_eq_Some_conv)
    note m = more_fields [OF writeInode_keeps [OF s0]]
    let ?y = "?x\<lparr>i_ic := (i_ic ?x)\<lparr>ic_mode := IFZERO\<rparr>\<rparr>"
    have "upd_ai k (\<lambda>x. x\<lparr>i_ic := (i_ic x)\<lparr>ic_mode := IFZERO\<rparr>\<rparr>) s0 = Some (s0\<lparr>ai := (ai s)[k := ?y]\<rparr>)"
      using m(4) len by simp
    then show ?thesis
      using that [of ?y "s0\<lparr>ai := (ai s)[k := ?y]\<rparr>"] m cl v len k True s0 by (simp add: close_def)
  next
    case False
    then show ?thesis using that [of ?x ?s] cl v len k by (simp add: close_def)
  qed
qed

lemma close_keeps_tables:
  assumes inv: "tables_inv s" and cl: "close f s = Some (r, s')"
  shows "tables_inv s'"
proof (cases "\<exists>j. valid_fd f s = Some (Some j)")
  case False
  then show ?thesis using cl inv by (auto simp: close_def bind_eq_Some_conv split: option.splits)
next
  case True
  then obtain j where v: "valid_fd f s = Some (Some j)" by blast
  from valid_fd_Some [OF inv v] obtain c k where c: "c < 8" "current s = Some c"
    and f: "unat f < 16" "fd (pcb s ! c) ! unat f = Some j" and jk: "j < 128" "o_inptr (oft s ! j) = Some k" "k < 128" by blast
  have ok: "tables_ok (pcb s) (oft s) (ai s)" using inv by (simp add: tables_inv_def)
  have len: "length (ai s) = 128" "length (oft s) = 128" using ok by (simp_all add: tables_ok_def)
  obtain x s1 where x: "i_links x = i_links (ai s ! k) - 1"
    and s1: "pcb s1 = pcb s" "oft s1 = oft s" "current s1 = current s" "ai s1 = (ai s)[k := x]"
    and r: "do { s \<leftarrow> upd_oft j (\<lambda>x. x\<lparr>o_inptr := None, o_head := 0\<rparr>) s1; s \<leftarrow> set_fd f None s; Some (0, s) } = Some (r, s')"
    using close_begin [OF cl v _ _ jk(2)] len jk by metis
  let ?s = "s1\<lparr>oft := (oft s)[j := (oft s ! j)\<lparr>o_inptr := None, o_head := 0\<rparr>]\<rparr>"
  have "set_fd f None ?s = Some (?s\<lparr>pcb := (pcb s)[c := (pcb s ! c)\<lparr>fd := (fd (pcb s ! c))[unat f := None]\<rparr>]\<rparr>)"
    using set_fd_eq [of ?s] ok c f(1) s1 by simp
  then have "s' = ?s\<lparr>pcb := (pcb s)[c := (pcb s ! c)\<lparr>fd := (fd (pcb s ! c))[unat f := None]\<rparr>]\<rparr>"
    using r s1 len jk by simp
  with tables_close [OF ok c(1) f jk(2) x, of "(oft s ! j)\<lparr>o_inptr := None, o_head := 0\<rparr>"] s1 c show ?thesis
    by (simp add: tables_inv_def)
qed

lemma tables_head:
  "tables_inv t \<Longrightarrow> o_inptr (oft t ! j) = Some k \<Longrightarrow> tables_inv (t\<lparr>oft := (oft t)[j := (oft t ! j)\<lparr>o_head := v\<rparr>]\<rparr>)"
  using tables_same(2) by (simp add: tables_inv_def)

lemma rw_keeps_tables:
  assumes inv: "tables_inv s"
  shows "fwrite f data n s = Some (r, s') \<Longrightarrow> tables_inv s'"
    and "fread f n s = Some (r, bytes, s') \<Longrightarrow> tables_inv s'"
    and "lseek f off whence s = Some (r, s') \<Longrightarrow> tables_inv s'"
proof -
  have room: "tables_inv t \<and> oft t = oft s" if rm: "fwrite_room k inode h n s = Some (inode', t)" "arr (ai s) k = Some inode" for k inode inode' h t
  proof (cases "h + n > ic_size (i_ic inode)")
    case True
    then obtain q s1 where q: "allocateDataBlocks inode (h + n - ic_size (i_ic inode)) s = Some (q, inode', s1)"
      "upd_ai k (\<lambda>_. inode') s1 = Some t" using rm by (auto simp: fwrite_room_def bind_eq_Some_conv)
    have m: "store.more s1 = store.more s" "i_links inode' = i_links inode" using allocateDataBlocks_keeps [OF q(1)] by auto
    have "t = s1\<lparr>ai := (ai s)[k := inode']\<rparr>" "i_links inode' = i_links (ai s ! k)"
      using q(2) m more_fields(4) [OF m(1)] rm(2) by (auto simp: upd_ai_def bind_eq_Some_conv arr_upd_def arr_Some split: if_splits)
    then show ?thesis using inv more_fields(1-3) [OF m(1)] tables_same(1) by (auto simp: tables_inv_def)
  next
    case False
    then show ?thesis using rm inv by (simp add: fwrite_room_def)
  qed
  show "tables_inv s'" if w: "fwrite f data n s = Some (r, s')"
  proof -
    consider "s' = s" | j h k inode inode' t t2 where "o_inptr (oft s ! j) = Some k" "arr (ai s) k = Some inode" "fwrite_room k inode h n s = Some (inode', t)"
      "fwrite_bytes inode' h data n t = Some t2" "upd_oft j (\<lambda>x. x\<lparr>o_head := o_head x + n\<rparr>) t2 = Some s'"
      using w by (auto simp: fwrite_def bind_eq_Some_conv arr_Some [of "oft s"] split: option.splits)
    then show ?thesis
    proof cases
      case 2
      note m = fwrite_bytes_keeps [OF 2(4)]
      have "tables_inv t2" "oft t2 = oft s" using room [OF 2(3,2)] tables_inv_more [OF m] more_fields(3) [OF m] by simp_all
      then show ?thesis using 2(1,5) tables_head [of t2 j k]
        by (auto simp: upd_oft_def bind_eq_Some_conv arr_upd_def arr_Some split: if_splits)
    qed (simp add: inv)
  qed
  show "fread f n s = Some (r, bytes, s') \<Longrightarrow> tables_inv s'"
    using inv tables_head by (auto simp: fread_def bind_eq_Some_conv arr_Some [of "oft s"] split: option.splits if_splits)
  show "tables_inv s'" if l: "lseek f off whence s = Some (r, s')"
  proof (cases "\<exists>j. valid_fd f s = Some (Some j)")
    case True
    then obtain j where v: "valid_fd f s = Some (Some j)" by blast
    from valid_fd_Some [OF inv v] obtain k where j: "j < 128" "o_inptr (oft s ! j) = Some k" "k < 128" by blast
    have "length (oft s) = 128" "length (ai s) = 128" using inv by (simp_all add: tables_inv_def tables_ok_def)
    then show ?thesis using l v j inv tables_head [OF inv j(2)] by (auto simp: lseek_def split: if_splits)
  next
    case False
    then show ?thesis using l inv by (auto simp: lseek_def bind_eq_Some_conv split: option.splits)
  qed
qed

section \<open>Opening a file that exists\<close>

lemma first_at_find: "(\<And>i. i \<in> set is \<Longrightarrow> t i = Some (P i)) \<Longrightarrow> first_at t is = Some (find P is)"
  by (induction "is") auto

lemma tables_lengths:
  assumes "tables_inv s"
  shows "length (pcb s) = 8" "length (oft s) = 128" "length (ai s) = 128" "c < 8 \<Longrightarrow> length (fd (pcb s ! c)) = 16"
    "current s = Some c \<Longrightarrow> c < 8"
  using assms by (auto simp: tables_inv_def tables_ok_def)

lemma getFD_find:
  assumes "tables_inv s" and "current s = Some c"
  shows "getFD s = Some (case find (\<lambda>i. fd (pcb s ! c) ! i = None) [0..<16] of Some i \<Rightarrow> of_nat i | None \<Rightarrow> -1)"
proof -
  note l = tables_lengths [OF assms(1)]
  have "c < 8" by (rule l(5) [OF assms(2)])
  then have "first_at (\<lambda>i. do { p \<leftarrow> arr (fd (pcb s ! c)) i; Some (p = None) }) [0..<16] =
      Some (find (\<lambda>i. fd (pcb s ! c) ! i = None) [0..<16])" using l(4) by (intro first_at_find) simp
  with assms(2) l(1) \<open>c < 8\<close> show ?thesis by (simp add: getFD_def split: option.split)
qed

lemma getOFT_find: "tables_inv s \<Longrightarrow> getOFT s = Some (find (\<lambda>i. o_inptr (oft s ! i) = None) [0..<128])"
  using tables_lengths(2) [of s] by (simp add: getOFT_def del: upt_rec_numeral, intro first_at_find) simp

lemma getAIT_new:
  assumes inv: "tables_inv s" and f: "formatted s" and ino: "unat ino < 512"
    and no: "\<forall>x \<in> set (ai s). i_number x = ino \<longrightarrow> ic_mode (i_ic x) = IFZERO"
    and k: "find (\<lambda>i. ic_mode (i_ic (ai s ! i)) = IFZERO) [0..<128] = Some k"
  shows "getAIT ino s = Some (Some k, s\<lparr>ai := (ai s)[k := (ai s ! k)\<lparr>i_number := ino, i_ic := itab s (unat ino)\<rparr>]\<rparr>)"
proof -
  note l = tables_lengths(3) [OF inv]
  have "first_at (\<lambda>i. do { x \<leftarrow> arr (ai s) i; Some (i_number x = ino \<and> ic_mode (i_ic x) \<noteq> IFZERO) }) [0..<128] =
      Some (find (\<lambda>i. i_number (ai s ! i) = ino \<and> ic_mode (i_ic (ai s ! i)) \<noteq> IFZERO) [0..<128])"
    using l by (intro first_at_find) simp
  moreover have "find (\<lambda>i. i_number (ai s ! i) = ino \<and> ic_mode (i_ic (ai s ! i)) \<noteq> IFZERO) [0..<128] = None"
    using no l by (auto simp: find_None_iff simp del: upt_rec_numeral)
  moreover have "first_at (\<lambda>i. do { x \<leftarrow> arr (ai s) i; Some (ic_mode (i_ic x) = IFZERO) }) [0..<128] =
      Some (find (\<lambda>i. ic_mode (i_ic (ai s ! i)) = IFZERO) [0..<128])"
    using l by (intro first_at_find) simp
  moreover have "k < 128" using find_upt_Some [OF k] by blast
  ultimately show ?thesis
    using k l readInode_itab [OF f ino, of "ai s ! k"] by (simp add: getAIT_def del: upt_rec_numeral)
qed

text \<open>The state after opening inode \<open>ino\<close> as descriptor \<open>f\<close> of process \<open>c\<close> through the free
  entries \<open>j\<close> and \<open>k\<close>.\<close>

definition opened_at :: "nat \<Rightarrow> nat \<Rightarrow> nat \<Rightarrow> nat \<Rightarrow> u32 \<Rightarrow> ('h, 'a) kernel_scheme \<Rightarrow> ('h, 'a) kernel_scheme" where
  "opened_at c f j k ino s = s\<lparr>ai := (ai s)[k := \<lparr>i_number = ino, i_links = i_links (ai s ! k) + 1, i_ic = itab s (unat ino)\<rparr>],
     pcb := (pcb s)[c := (pcb s ! c)\<lparr>fd := (fd (pcb s ! c))[f := Some j]\<rparr>],
     oft := (oft s)[j := (oft s ! j)\<lparr>o_inptr := Some k\<rparr>]\<rparr>"

lemma open_ino_new:
  assumes inv: "tables_inv s" and f: "formatted s" and ino: "unat ino < 512" and c: "current s = Some c"
    and no: "\<forall>x \<in> set (ai s). i_number x = ino \<longrightarrow> ic_mode (i_ic x) = IFZERO" and fl: "fl < 16"
    and k: "find (\<lambda>i. ic_mode (i_ic (ai s ! i)) = IFZERO) [0..<128] = Some k"
    and j: "find (\<lambda>i. o_inptr (oft s ! i) = None) [0..<128] = Some j"
  shows "open_ino (of_nat fl) ino s = Some (of_nat fl, opened_at c fl j k ino s)"
proof -
  note l = tables_lengths [OF inv] and a = getAIT_new [OF inv f ino no k]
  let ?s = "s\<lparr>ai := (ai s)[k := (ai s ! k)\<lparr>i_number := ino, i_ic := itab s (unat ino)\<rparr>]\<rparr>"
  have inv2: "tables_inv ?s" using inv tables_same(1) by (simp add: tables_inv_def)
  have jk: "j < 128" "k < 128" using find_upt_Some [OF j] find_upt_Some [OF k] by blast+
  let ?s2 = "s\<lparr>ai := (ai s)[k := \<lparr>i_number = ino, i_links = i_links (ai s ! k) + 1, i_ic = itab s (unat ino)\<rparr>]\<rparr>"
  have c8: "c < 8" by (rule l(5) [OF c])
  have uf: "unat (of_nat fl :: u32) = fl" using fl by (simp add: unat_of_nat_u32)
  have "set_fd (of_nat fl) (Some j) ?s2 = Some (?s2\<lparr>pcb := (pcb s)[c := (pcb s ! c)\<lparr>fd := (fd (pcb s ! c))[fl := Some j]\<rparr>]\<rparr>)"
    using c c8 fl l uf by (simp add: set_fd_def)
  moreover have eq: "(ai s ! k)\<lparr>i_number := ino, i_ic := itab s (unat ino), i_links := i_links (ai s ! k) + 1\<rparr> =
      \<lparr>i_number = ino, i_links = i_links (ai s ! k) + 1, i_ic = itab s (unat ino)\<rparr>" by simp
  ultimately show ?thesis
    using a getOFT_find [OF inv2] j jk l by (simp add: open_ino_def opened_at_def eq)
qed

lemma open_existing:
  assumes inv: "tables_inv s" and c: "current s = Some c" and ri: "root_inv s n xs" and gn: "good_name name"
    and hit: "find (matches name) (take (visible n) (entries s (itab s 0) n)) = Some d"
    and ino: "unat (d_ino d) < 512" and no: "\<forall>x \<in> set (ai s). i_number x = d_ino d \<longrightarrow> ic_mode (i_ic x) = IFZERO"
    and f: "find (\<lambda>i. fd (pcb s ! c) ! i = None) [0..<16] = Some f"
    and k: "find (\<lambda>i. ic_mode (i_ic (ai s ! i)) = IFZERO) [0..<128] = Some k"
    and j: "find (\<lambda>i. o_inptr (oft s ! i) = None) [0..<128] = Some j"
  shows "open_file name O_EXIST s = Some (of_nat f, opened_at c f j k (d_ino d) s)"
proof -
  have fmt: "formatted s" and di: "dir_inv s (itab s 0) n xs" using ri by (simp_all add: root_inv_def alloc_inv_def)
  have f16: "f < 16" using find_upt_Some [OF f] by blast
  then have "unat (of_nat f :: u32) = f" by (simp add: unat_of_nat_u32)
  then have f1: "(of_nat f :: u32) \<noteq> -1" using f16 by (intro notI) (simp add: unsigned_minus_1_eq_mask mask_eq_exp_minus_1)
  have "name_to_ino name (inode_local\<lparr>i_number := 0, i_ic := itab s 0\<rparr>) s = Some (d_ino d)"
    using name_to_ino_find [OF fmt, of "inode_local\<lparr>i_number := 0, i_ic := itab s 0\<rparr>" n xs name] di gn hit
    by (simp add: good_name_def)
  then have p: "path_to_ino name 0 s = Some (d_ino d)" using lookup_root [OF fmt gn] by simp
  have "\<not> sint (d_ino d) < 0" using ino by (simp add: sint_of_unat)
  with p f f1 getFD_find [OF inv c] open_ino_new [OF inv fmt ino c no f16 k j] show ?thesis
    by (simp add: open_file_def)
qed

lemma opened_ready:
  assumes inv: "tables_inv s" and c: "current s = Some c" and f: "f < 16" and j: "j < 128" and k: "k < 128"
    and ino: "unat ino < 512" and st: "stored (itab s (unat ino)) (nblocks (ic_size (itab s (unat ino)))) xs s"
    and free: "o_inptr (oft s ! j) = None"
  defines "s' \<equiv> opened_at c f j k ino s"
  shows "file_ready s' (of_nat f) j k xs" and "i_ic (ai s' ! k) = itab s (unat ino)" and "o_head (oft s' ! j) = 0"
    and "content ic s' = content ic s"
proof -
  note l = tables_lengths [OF inv]
  have c8: "c < 8" by (rule l(5) [OF c])
  have d: "dsk s' = dsk s" "fs s' = fs s" by (simp_all add: s'_def opened_at_def)
  note v = same_disk_views [OF d(1)] same_disk_alloc [OF d]
  show ic: "i_ic (ai s' ! k) = itab s (unat ino)" using k l by (simp add: s'_def opened_at_def)
  have "o_head (oft s ! j) = 0" using inv free j by (simp add: tables_inv_def tables_ok_def)
  then show "o_head (oft s' ! j) = 0" using j l by (simp add: s'_def opened_at_def)
  have uf: "unat (of_nat f :: u32) = f" using f by (simp add: unat_of_nat_u32)
  then have "sint (of_nat f :: u32) = int f" using f by (simp add: sint_of_unat)
  then have "valid_fd (of_nat f) s' = Some (Some j)" using c c8 f l uf by (simp add: valid_fd_def s'_def opened_at_def)
  then have "file_open s' (of_nat f) j k" using j k l by (simp add: file_open_def s'_def opened_at_def)
  moreover have "i_number (ai s' ! k) = ino" using k l by (simp add: s'_def opened_at_def)
  moreover have "stored ic m xs s' = stored ic m xs s" for ic m using v by (simp add: stored_def)
  ultimately show "file_ready s' (of_nat f) j k xs" using ic ino st by (simp add: file_ready_def)
  show "content ic s' = content ic s" using v(1) d(1) by (simp add: content_def fbyte_def)
qed

section \<open>Properties\<close>

text \<open>One operation on files, of the current process.\<close>

inductive file_step :: "('h, 'a) kernel_scheme \<Rightarrow> ('h, 'a) kernel_scheme \<Rightarrow> bool" where
  step_open: "open_file path oflag s = Some (r, s') \<Longrightarrow> file_step s s'"
| step_close: "close f s = Some (r, s') \<Longrightarrow> file_step s s'"
| step_write: "fwrite f data n s = Some (r, s') \<Longrightarrow> file_step s s'"
| step_read: "fread f n s = Some (r, bytes, s') \<Longrightarrow> file_step s s'"
| step_seek: "lseek f off whence s = Some (r, s') \<Longrightarrow> file_step s s'"
| step_unlink: "unlink name s = Some (r, s') \<Longrightarrow> file_step s s'"

lemma file_step_inv: "file_step s s' \<Longrightarrow> tables_inv s \<Longrightarrow> tables_inv s'"
proof (induction rule: file_step.induct)
  case (step_unlink name s r s')
  then show ?case using tables_inv_more [OF unlink_keeps] by blast
qed (auto intro: open_keeps_tables close_keeps_tables rw_keeps_tables)

interpretation files: transition_invariant file_step tables_inv
  by unfold_locales (rule file_step_inv)

text \<open>C33. The tables stay consistent. From tables in which every descriptor in use points to an
  open file entry of its own, every open file entry to an inode entry, \<open>i_links\<close> counts the
  open file entries of each inode entry and unused entries have position 0, every sequence
  of opens, closes, reads, writes, seeks and unlinks, whatever their arguments and whether
  they succeed or fail, leads to such tables again. In particular a descriptor in use always
  leads to an inode entry: no operation follows a null pointer from it.\<close>

theorem tables_inv_reachable:
  assumes "tables_inv s" and "file_step\<^sup>*\<^sup>* s s'"
  shows "tables_inv s' \<and> (\<forall>f j. valid_fd f s' = Some (Some j) \<longrightarrow> (\<exists>k. file_open s' f j k))"
proof -
  have inv: "tables_inv s'" by (rule files.run_kept [OF assms(2,1)])
  have "\<exists>k. file_open s' f j k" if v: "valid_fd f s' = Some (Some j)" for f j
  proof -
    from valid_fd_Some [OF inv v] obtain k where "j < 128" "o_inptr (oft s' ! j) = Some k" "k < 128" by blast
    with v tables_lengths [OF inv] show ?thesis by (auto simp: file_open_def)
  qed
  with inv show ?thesis by blast
qed

lemma desk_tables: "tables_inv desk"
proof -
  have "refs k (replicate 128 \<lparr>o_inptr = None, o_head = 0\<rparr>) = 0" for k by (simp add: refs_def)
  moreover have "fd ((zero_pcb\<lparr>pst := EXECUTING\<rparr> # replicate 7 zero_pcb) ! p) = replicate 16 None" if "p < 8" for p
    using that by (cases p) (simp_all add: zero_pcb_def)
  ultimately have "tables_ok (zero_pcb\<lparr>pst := EXECUTING\<rparr> # replicate 7 zero_pcb)
      (replicate 128 \<lparr>o_inptr = None, o_head = 0\<rparr>) (replicate 128 inode_local)"
    by (intro tables_okI) (simp_all add: inode_local_def)
  then show ?thesis by (simp add: tables_inv_def desk_def)
qed

lemma desk_finds:
  "root_inv desk 2 (tl wipe_order)"
  "find (matches [80, 48]) (take (visible 2) (entries desk (itab desk 0) 2)) = Some P0_dir"
  "find (\<lambda>i. fd (pcb desk ! 0) ! i = None) [0..<16] = Some 0"
  "find (\<lambda>i. ic_mode (i_ic (ai desk ! i)) = IFZERO) [0..<128] = Some 0"
  "find (\<lambda>i. o_inptr (oft desk ! i) = None) [0..<128] = Some 0"
proof -
  have ent: "entries desk (itab desk 0) 2 = [bytes_dir (replicate 32 0), P0_dir]"
    by (simp add: desk_as_rooted rooted_itab rooted_entries)
  show "find (matches [80, 48]) (take (visible 2) (entries desk (itab desk 0) 2)) = Some P0_dir"
    by (simp add: ent visible_def matches_def P0_dir_def bytes_dir_def)
  show "root_inv desk 2 (tl wipe_order)" using rooted_root by (simp add: root_inv_def desk_as_rooted)
  show "find (\<lambda>i. fd (pcb desk ! 0) ! i = None) [0..<16] = Some 0"
    "find (\<lambda>i. ic_mode (i_ic (ai desk ! i)) = IFZERO) [0..<128] = Some 0"
    "find (\<lambda>i. o_inptr (oft desk ! i) = None) [0..<128] = Some 0"
    by (intro find_upt_SomeI; simp add: desk_def zero_pcb_def inode_local_def)+
qed

lemma desk_open_P0: "open_file [80, 48] O_EXIST desk = Some (0, opened_at 0 0 0 0 1 desk)"
  using open_existing [OF desk_tables _ desk_finds(1) _ desk_finds(2) _ _ desk_finds(3-5)]
  by (simp add: good_name_def P0_dir_def) (simp add: desk_def inode_local_def)

theorem tables_inv_reachable_witness:
  "tables_inv desk \<and> file_step desk (opened_at 0 0 0 0 1 desk) \<and> tables_inv (opened_at 0 0 0 0 1 desk)"
proof -
  have "file_step desk (opened_at 0 0 0 0 1 desk)" using desk_open_P0 by (rule step_open)
  with tables_inv_reachable [OF desk_tables r_into_rtranclp [of file_step, OF this]] desk_tables show ?thesis by simp
qed

text \<open>C34. Opening a file. \<open>open\<close> of a name the root directory has, on a file that is not open yet,
  returns the lowest free descriptor; the file is then ready at position 0 with the content
  it has on disk, and the descriptor was not in use. Nothing but the three table entries
  changes.\<close>

theorem open_spec:
  assumes "tables_inv s" and "current s = Some c" and "root_inv s n xs" and "good_name name"
    and "find (matches name) (take (visible n) (entries s (itab s 0) n)) = Some d" and "unat (d_ino d) < 512"
    and "\<forall>x \<in> set (ai s). i_number x = d_ino d \<longrightarrow> ic_mode (i_ic x) = IFZERO"
    and "find (\<lambda>i. fd (pcb s ! c) ! i = None) [0..<16] = Some f"
    and "find (\<lambda>i. ic_mode (i_ic (ai s ! i)) = IFZERO) [0..<128] = Some k"
    and "find (\<lambda>i. o_inptr (oft s ! i) = None) [0..<128] = Some j"
    and "file_inv s (itab s (unat (d_ino d))) (nblocks (ic_size (itab s (unat (d_ino d))))) xs"
  defines "s' \<equiv> opened_at c f j k (d_ino d) s"
  shows "open_file name O_EXIST s = Some (of_nat f, s') \<and> valid_fd (of_nat f) s = Some None
    \<and> file_ready s' (of_nat f) j k xs \<and> o_head (oft s' ! j) = 0
    \<and> content (i_ic (ai s' ! k)) s' = content (itab s (unat (d_ino d))) s"
proof -
  have l: "f < 16" "j < 128" "k < 128" "fd (pcb s ! c) ! f = None" "o_inptr (oft s ! j) = None"
    using find_upt_Some [OF assms(8)] find_upt_Some [OF assms(9)] find_upt_Some [OF assms(10)] by blast+
  have st: "stored (itab s (unat (d_ino d))) (nblocks (ic_size (itab s (unat (d_ino d))))) xs s"
    using assms(3,11) by (simp add: stored_def root_inv_def)
  have uf: "unat (of_nat f :: u32) = f" using l by (simp add: unat_of_nat_u32)
  then have "sint (of_nat f :: u32) = int f" using l by (simp add: sint_of_unat)
  then have "valid_fd (of_nat f) s = Some None"
    using tables_lengths [OF assms(1)] assms(2) l uf by (simp add: valid_fd_def)
  with opened_ready [OF assms(1,2) l(1-3) assms(6) st l(5)] open_existing [OF assms(1-10)] show ?thesis
    by (simp add: s'_def)
qed

theorem open_spec_witness:
  "file_ready (opened_at 0 0 0 0 1 desk) 0 0 0 (tl wipe_order) \<and> content P0_ic (opened_at 0 0 0 0 1 desk) = []"
proof -
  have "itab desk (unat (d_ino P0_dir)) = P0_ic" "nblocks (ic_size P0_ic) = 1"
    using rooted_itab(2) by (simp_all add: desk_as_rooted P0_dir_def P0_ic_def nblocks_def)
  then show ?thesis
    using open_spec [OF desk_tables _ desk_finds(1) _ desk_finds(2) _ _ desk_finds(3-5)] rooted_file(3)
    by (simp add: good_name_def desk_as_rooted P0_dir_def content_def P0_ic_def) (simp add: desk_def inode_local_def)
qed

end
