(* ===== verification/Newfile.thy ===== *)
theory Newfile
  imports Tables
begin

text \<open>
  A file written from its creation on: opened with \<open>O_CREAT\<close>, extended by any number of \<open>fwrite\<close>
  calls, closed. The state between the calls is described by what has been written so far.
\<close>

section \<open>Closing the last link\<close>

text \<open>The entries of the tables the next \<open>open\<close> of process \<open>c\<close> takes.\<close>

definition free_slots :: "('h, 'a) kernel_scheme \<Rightarrow> nat \<Rightarrow> nat \<Rightarrow> nat \<Rightarrow> nat \<Rightarrow> bool" where
  "free_slots s c f j k \<longleftrightarrow> current s = Some c \<and> find (\<lambda>i. fd (pcb s ! c) ! i = None) [0..<16] = Some f
     \<and> find (\<lambda>i. o_inptr (oft s ! i) = None) [0..<128] = Some j
     \<and> find (\<lambda>i. ic_mode (i_ic (ai s ! i)) = IFZERO) [0..<128] = Some k \<and> i_links (ai s ! k) = 0"

definition closed_at :: "nat \<Rightarrow> nat \<Rightarrow> nat \<Rightarrow> nat \<Rightarrow> ('h, 'a) kernel_scheme \<Rightarrow> ('h, 'a) kernel_scheme" where
  "closed_at c f j k s = s\<lparr>ai := (ai s)[k := (ai s ! k)\<lparr>i_links := 0, i_ic := (i_ic (ai s ! k))\<lparr>ic_mode := IFZERO\<rparr>\<rparr>],
     oft := (oft s)[j := \<lparr>o_inptr = None, o_head = 0\<rparr>],
     pcb := (pcb s)[c := (pcb s ! c)\<lparr>fd := (fd (pcb s ! c))[f := None]\<rparr>]\<rparr>"

lemma close_last:
  assumes inv: "tables_inv s" and c: "current s = Some c" and f: "f < 16"
    and fr: "file_ready s (of_nat f) j k xs" and l: "i_links (ai s ! k) = 1"
  defines "ino \<equiv> unat (i_number (ai s ! k))"
  shows "\<exists>d. close (of_nat f) s = Some (0, closed_at c f j k (s\<lparr>dsk := d\<rparr>)) \<and> alloc_inv (s\<lparr>dsk := d\<rparr>) xs
    \<and> meta_only ino s (s\<lparr>dsk := d\<rparr>) \<and> itab (s\<lparr>dsk := d\<rparr>) ino = i_ic (ai s ! k)"
proof -
  note len = tables_lengths [OF inv]
  have c8: "c < 8" by (rule len(5) [OF c])
  have v: "valid_fd (of_nat f) s = Some (Some j)" and j: "j < length (oft s)" "o_inptr (oft s ! j) = Some k" and k: "k < length (ai s)"
    and ino: "ino < 512" and st: "stored (i_ic (ai s ! k)) (nblocks (ic_size (i_ic (ai s ! k)))) xs s"
    using fr by (simp_all add: file_ready_def file_open_def ino_def)
  have wf: "wf_ic (i_ic (ai s ! k))" and al: "alloc_inv s xs" using st by (simp_all add: stored_def file_inv_def)
  have uf: "unat (of_nat f :: u32) = f" using f by (simp add: unat_of_nat_u32)
  let ?x = "(ai s ! k)\<lparr>i_links := 0\<rparr>" and ?s = "s\<lparr>ai := (ai s)[k := (ai s ! k)\<lparr>i_links := 0\<rparr>]\<rparr>"
  have al2: "alloc_inv ?s xs" using same_disk_alloc(1) [of ?s s] al by simp
  from writeInode_meta [OF al2, of ?x] ino wf obtain s1 where s1: "writeInode ?x ?s = Some s1" "alloc_inv s1 xs"
    "meta_only ino ?s s1" "itab s1 ino = i_ic (ai s ! k)" by (auto simp: ino_def)
  obtain d where d: "s1 = ?s\<lparr>dsk := d\<rparr>" using s1(1) by (auto simp: writeInode_def kwrite_def Let_def bind_eq_Some_conv)
  let ?y = "?x\<lparr>i_ic := (i_ic ?x)\<lparr>ic_mode := IFZERO\<rparr>\<rparr>" and ?t = "(oft s)[j := \<lparr>o_inptr = None, o_head = 0\<rparr>]"
  let ?u = "s\<lparr>dsk := d, ai := (ai s)[k := ?y], oft := ?t\<rparr>"
  have sf: "set_fd (of_nat f) None ?u = Some (?u\<lparr>pcb := (pcb s)[c := (pcb s ! c)\<lparr>fd := (fd (pcb s ! c))[f := None]\<rparr>]\<rparr>)"
    using c c8 f len uf by (simp add: set_fd_def upd_pcb_def)
  have ofx: "(oft s ! j)\<lparr>o_inptr := None, o_head := 0\<rparr> = \<lparr>o_inptr = None, o_head = 0\<rparr>" by simp
  have "close (of_nat f) s = Some (0, closed_at c f j k (s\<lparr>dsk := d\<rparr>))"
    using v j k l s1(1) d sf by (simp add: close_def closed_at_def ofx)
  moreover have dsk: "dsk (s\<lparr>dsk := d\<rparr>) = dsk s1" "fs (s\<lparr>dsk := d\<rparr>) = fs s1" using d by simp_all
  note same_disk_alloc(1) [OF this] same_disk_views(7) [OF this(1)]
  moreover have "itab ?s m = itab s m" for m by (rule same_disk_views(7)) simp
  ultimately show ?thesis using s1(2-4) d by (intro exI [of _ d]) (simp add: meta_only_def)
qed

lemma closed_opened:
  assumes inv: "tables_inv s" and fs: "free_slots s c f j k"
  shows "closed_at c f j k ((opened_at c f j k ino s)\<lparr>ai := (ai s)[k := y], dsk := d, fs := g, oft := (oft s)[j := z]\<rparr>)
    = s\<lparr>dsk := d, fs := g, ai := (ai s)[k := y\<lparr>i_links := 0, i_ic := (i_ic y)\<lparr>ic_mode := IFZERO\<rparr>\<rparr>]\<rparr>"
proof -
  note len = tables_lengths [OF inv]
  have sl: "current s = Some c" "f < 16" "j < 128" "k < 128" "fd (pcb s ! c) ! f = None" "o_inptr (oft s ! j) = None"
    using fs find_upt_Some by (fastforce simp: free_slots_def)+
  have c8: "c < 8" by (rule len(5) [OF sl(1)])
  have "o_head (oft s ! j) = 0" using inv sl(3,6) by (simp add: tables_inv_def tables_ok_def)
  then have o: "oft s ! j = \<lparr>o_inptr = None, o_head = 0\<rparr>" using sl(6) by (cases "oft s ! j") simp
  have "(oft s)[j := \<lparr>o_inptr = None, o_head = 0\<rparr>] = oft s" using o by (metis list_update_id)
  moreover have "(pcb s)[c := (pcb s ! c)\<lparr>fd := (fd (pcb s ! c))[f := None]\<rparr>] = pcb s"
    using sl(5) by (metis (no_types, lifting) list_update_id pcb_t.surjective pcb_t.update_convs(7))
  ultimately show ?thesis using c8 len sl by (simp add: closed_at_def opened_at_def)
qed

lemma fd_not_minus1: "f < 16 \<Longrightarrow> (of_nat f :: u32) \<noteq> -1"
proof
  assume "f < 16" and e: "(of_nat f :: u32) = -1"
  have "unat (of_nat f :: u32) = f" using \<open>f < 16\<close> by (simp add: unat_of_nat_u32)
  with e \<open>f < 16\<close> show False by (simp add: unsigned_minus_1_eq_mask mask_eq_exp_minus_1)
qed

text \<open>A change of the disk and of one unused inode entry.\<close>

definition tables_kept :: "nat \<Rightarrow> ('h, 'a) kernel_scheme \<Rightarrow> ('h, 'a) kernel_scheme \<Rightarrow> bool" where
  "tables_kept k s s' \<longleftrightarrow> (\<exists>d g y. s' = s\<lparr>dsk := d, fs := g, ai := (ai s)[k := y]\<rparr> \<and> ic_mode (i_ic y) = IFZERO \<and> i_links y = 0)"

lemma tables_keptD:
  assumes k: "tables_kept k s s'" and fs: "free_slots s c f j k"
  shows "free_slots s' c f j k" and "tables_inv s \<Longrightarrow> tables_inv s'"
proof -
  obtain d g y where s': "s' = s\<lparr>dsk := d, fs := g, ai := (ai s)[k := y]\<rparr>" "ic_mode (i_ic y) = IFZERO" "i_links y = 0"
    using k unfolding tables_kept_def by blast
  have fk: "find (\<lambda>i. ic_mode (i_ic (ai s ! i)) = IFZERO) [0..<128] = Some k" "i_links (ai s ! k) = 0"
    using fs by (simp_all add: free_slots_def)
  have "find (\<lambda>i. ic_mode (i_ic ((ai s)[k := y] ! i)) = IFZERO) [0..<128] = Some k"
  proof (rule find_upt_SomeI)
    show "k < 128" using find_upt_Some [OF fk(1)] by blast
    show "\<forall>i<k. \<not> ic_mode (i_ic ((ai s)[k := y] ! i)) = IFZERO" using find_upt_Some [OF fk(1)] by auto
    show "ic_mode (i_ic ((ai s)[k := y] ! k)) = IFZERO"
      using find_upt_Some [OF fk(1)] s'(2) by (cases "k < length (ai s)") (simp_all add: list_update_beyond)
  qed
  then show "free_slots s' c f j k"
    using fs s' by (cases "k < length (ai s)") (simp_all add: free_slots_def list_update_beyond)
  show "tables_inv s'" if "tables_inv s"
    using that s'(1,3) fk(2) tables_same(1) by (simp add: tables_inv_def)
qed


text \<open>A directory whose blocks are direct and not written keeps its entries.\<close>

lemma dir_inv_same:
  assumes di: "dir_inv s ic n xs" and n: "n \<le> 16 * 11"
    and same: "\<And>a. data_addr a \<Longrightarrow> a \<in> set (file_blocks s ic (dir_nblocks n)) \<Longrightarrow> blk s' a = blk s a"
  shows "dir_inv s' ic n xs" and "entries s' ic n = entries s ic n"
proof -
  have fi: "file_inv s ic (dir_nblocks n) xs" and n0: "0 < n" using di by (simp_all add: dir_inv_def)
  have m: "dir_nblocks n \<le> 11" using n n0 by (simp add: dir_nblocks_def)
  have f: "fblk s' ic i = fblk s ic i" if "i < dir_nblocks n" for i using that m by (simp add: fblk_def)
  show "dir_inv s' ic n xs" using di file_inv_same(1) [OF fi, of s'] m by (simp add: dir_inv_def)
  show "entries s' ic n = entries s ic n"
  proof (rule entries_cong)
    fix i assume i: "i < dir_nblocks n"
    then have "fblk s ic i \<in> set (file_blocks s ic (dir_nblocks n))" by (simp add: set_file_blocks)
    then show "blk s' (fblk s ic i) = blk s (fblk s ic i)" using same file_inv_fblk(1) [OF fi i] by blast
  qed (fact f)
qed

text \<open>The first half of \<open>create_obj\<close>: a new file is open.\<close>

lemma open_create:
  fixes s :: "('h, 'a) kernel_scheme"
  assumes inv: "tables_inv s" and fs: "free_slots s c f j k" and ri: "root_inv s n (x # xs)" and gn: "good_name name"
    and new: "\<forall>e \<in> set (entries s (itab s 0) n). \<not> matches name e"
    and free: "find (\<lambda>k. ic_mode (itab s k) = IFZERO) [0..<512] = Some i"
    and no: "\<forall>y \<in> set (ai s). i_number y = of_nat i \<longrightarrow> ic_mode (i_ic y) = IFZERO"
    and n: "n < 16 * 11" "n mod 16 \<noteq> 0"
  shows "\<exists>d1 g1 s1 d. s1 = s\<lparr>dsk := d1, fs := g1\<rparr> \<and> open_file name O_CREAT s = Some (of_nat f, opened_at c f j k (of_nat i) s1)
    \<and> root_inv s1 (Suc n) xs \<and> ic_mode (itab s1 i) = IFREG \<and> ic_size (itab s1 i) = 0
    \<and> file_inv s1 (itab s1 i) 1 xs \<and> (\<forall>m<512. m \<noteq> 0 \<and> m \<noteq> i \<longrightarrow> itab s1 m = itab s m)
    \<and> entries s1 (itab s1 0) (Suc n) = entries s (itab s 0) n @ [d] \<and> d_ino d = of_nat i \<and> unat (d_namlen d) = length name
    \<and> take (length name) (d_name d) = name \<and> ic_db (itab s1 i) ! 0 = x \<and> itab s1 0 = (itab s 0)\<lparr>ic_size := of_nat (32 * n) + 32\<rparr>
    \<and> (\<forall>a. data_addr a \<and> a \<notin> set xs \<and> a \<notin> set (file_blocks s (itab s 0) (dir_nblocks n)) \<longrightarrow> blk s1 a = blk s a)"
proof -
  note len = tables_lengths [OF inv]
  have c: "current s = Some c" using fs by (simp add: free_slots_def)
  have f: "f < 16" using fs find_upt_Some by (fastforce simp: free_slots_def)
  have i: "i < 512" using find_upt_Some [OF free] by blast
  have ui: "unat (of_nat i :: u32) = i" using i by (simp add: unat_of_nat_u32)
  have cost: "add_cost n = 0" using n(2) by (simp add: add_cost_def)
  have n139: "n < 16 * 139" using n(1) by simp
  let ?f = "of_nat f :: u32" and ?i = "of_nat i :: u32"
  from path_create [OF ri gn new free n139] cost n(2) obtain s1 d where
    p: "path_to_ino2 name 0 s = Some (?i, s1)" "root_inv s1 (Suc n) xs" "ic_mode (itab s1 i) = IFREG" "ic_size (itab s1 i) = 0"
      "file_inv s1 (itab s1 i) 1 xs" "\<forall>m<512. m \<noteq> 0 \<and> m \<noteq> i \<longrightarrow> itab s1 m = itab s m" "store.more s1 = store.more s"
      "entries s1 (itab s1 0) (Suc n) = entries s (itab s 0) n @ [d]" "d_ino d = ?i" "unat (d_namlen d) = length name"
      "take (length name) (d_name d) = name" "ic_db (itab s1 i) ! 0 = x" "itab s1 0 = (itab s 0)\<lparr>ic_size := of_nat (32 * n) + 32\<rparr>"
      "\<forall>a. data_addr a \<and> a \<notin> set xs \<and> a \<notin> set (file_blocks s (itab s 0) (dir_nblocks n)) \<longrightarrow> blk s1 a = blk s a"
    by auto
  obtain d1 g1 where s1: "s1 = s\<lparr>dsk := d1, fs := g1\<rparr>" using store_eq [OF p(7)] by blast
  have inv1: "tables_inv s1" using inv by (simp add: tables_inv_def s1)
  have fs1: "free_slots s1 c f j k" using fs by (simp add: free_slots_def s1)
  have al1: "alloc_inv s1 xs" using p(2) by (simp add: root_inv_def)
  have c1: "current s1 = Some c" using c by (simp add: s1)
  have "open_ino ?f ?i s1 = Some (?f, opened_at c f j k ?i s1)"
    using fs1 no al1 i ui by (intro open_ino_new [OF inv1 _ _ c1 _ f]) (simp_all add: free_slots_def alloc_inv_def s1)
  moreover have "getFD s = Some ?f" using getFD_find [OF inv c] fs by (simp add: free_slots_def)
  moreover have "\<not> sint ?i < 0" using i ui by (simp add: sint_of_unat)
  ultimately have "open_file name O_CREAT s = Some (?f, opened_at c f j k ?i s1)"
    using p(1) fd_not_minus1 [OF f] by (simp add: open_file_def)
  with p s1 show ?thesis by (intro exI [of _ d1] exI [of _ g1] exI [of _ s1] exI [of _ d]) simp
qed

section \<open>Appending\<close>

lemma word_sizes:
  "grown_size 0 0 4 = 4" "grown_size 4 4 4 = 8" "nblocks 0 = 1" "nblocks 4 = 1" "nblocks 8 = 1" "grow_cost (Suc 0) (Suc 0) = 0"
  by (simp_all add: grown_size_def nblocks_def grow_cost_def)

text \<open>The blocks a file of \<open>n\<close> bytes takes from the free list, besides its first one.\<close>

definition taken :: "nat \<Rightarrow> nat" where
  "taken n = grow_cost 1 (n div 512 + 1)"

lemma grow_cost_add: "a \<le> b \<Longrightarrow> b \<le> c \<Longrightarrow> grow_cost a b + grow_cost b c = grow_cost a c"
  by (auto simp: grow_cost_def)

lemma taken_add: "taken m + grow_cost (m div 512 + 1) ((m + n) div 512 + 1) = taken (m + n)"
  unfolding taken_def by (rule grow_cost_add) (simp_all add: div_le_mono)

text \<open>Inode entry \<open>k\<close> and open file entry \<open>j\<close> belong to a file that was empty in \<open>s0\<close>; since then
  \<open>bytes\<close> have been written to it. All its blocks are in \<open>A\<close>.\<close>

definition growing :: "('h, 'a) kernel_scheme \<Rightarrow> u32 \<Rightarrow> nat \<Rightarrow> nat \<Rightarrow> u32 list \<Rightarrow> u32 set \<Rightarrow> byte list \<Rightarrow> ('h, 'a) kernel_scheme \<Rightarrow> bool" where
  "growing s0 f j k xs A bytes s \<longleftrightarrow> (\<exists>ic d g.
     s = s0\<lparr>ai := (ai s0)[k := (ai s0 ! k)\<lparr>i_ic := ic\<rparr>], dsk := d, fs := g,
       oft := (oft s0)[j := (oft s0 ! j)\<lparr>o_head := of_nat (length bytes)\<rparr>]\<rparr>
     \<and> content ic s = bytes \<and> ic_size ic = of_nat (length bytes) \<and> ic_mode ic = ic_mode (i_ic (ai s0 ! k)) \<and> ic_db ic ! 0 = ic_db (i_ic (ai s0 ! k)) ! 0
     \<and> set (file_blocks s ic (length bytes div 512 + 1)) \<subseteq> A)
   \<and> length bytes < 139 * 512 \<and> taken (length bytes) \<le> length xs \<and> set xs \<subseteq> A
   \<and> file_ready s f j k (drop (taken (length bytes)) xs) \<and> tables_inv s
   \<and> (\<forall>a. data_addr a \<and> a \<notin> A \<longrightarrow> blk s a = blk s0 a)
   \<and> (\<forall>m<512. m \<noteq> unat (i_number (ai s0 ! k)) \<longrightarrow> itab s m = itab s0 m)"

lemma growing_write:
  fixes s0 :: "('h, 'a) kernel_scheme"
  assumes g: "growing s0 f j k xs A bytes s" and n: "length bytes + length data < 139 * 512" "taken (length bytes + length data) \<le> length xs"
  shows "\<exists>s'. fwrite f data (of_nat (length data)) s = Some (0, s') \<and> growing s0 f j k xs A (bytes @ data) s'"
proof -
  obtain ic d g where s: "s = s0\<lparr>ai := (ai s0)[k := (ai s0 ! k)\<lparr>i_ic := ic\<rparr>], dsk := d, fs := g,
       oft := (oft s0)[j := (oft s0 ! j)\<lparr>o_head := of_nat (length bytes)\<rparr>]\<rparr>"
    and ic: "content ic s = bytes" "ic_size ic = of_nat (length bytes)" "ic_mode ic = ic_mode (i_ic (ai s0 ! k))"
      "set (file_blocks s ic (length bytes div 512 + 1)) \<subseteq> A" "ic_db ic ! 0 = ic_db (i_ic (ai s0 ! k)) ! 0"
    and fr: "file_ready s f j k (drop (taken (length bytes)) xs)" and inv: "tables_inv s" and A: "set xs \<subseteq> A"
    and far: "\<forall>a. data_addr a \<and> a \<notin> A \<longrightarrow> blk s a = blk s0 a"
      "\<forall>m<512. m \<noteq> unat (i_number (ai s0 ! k)) \<longrightarrow> itab s m = itab s0 m"
    using g unfolding growing_def by blast
  let ?n = "length bytes" and ?m = "length bytes + length data"
  have jk: "j < length (oft s0)" "k < length (ai s0)" using fr by (simp_all add: file_ready_def file_open_def s)
  have k: "ai s ! k = (ai s0 ! k)\<lparr>i_ic := ic\<rparr>" "o_head (oft s ! j) = of_nat ?n" using jk by (simp_all add: s)
  have u: "unat (of_nat ?n :: u32) = ?n" "unat (of_nat ?m :: u32) = ?m" using n(1) by (intro unat_of_nat_u32, simp)+
  have sz: "grown_size (of_nat ?n) (of_nat ?n) (length data) = of_nat ?m"
    using u by (auto simp: grown_size_def word_less_nat_alt)
  have nb: "nblocks (of_nat ?n) = ?n div 512 + 1" "nblocks (of_nat ?m) = ?m div 512 + 1" unfolding nblocks_def u by simp_all
  have le: "?m div 512 + 1 \<le> 139" using n(1) by simp
  have cost: "grow_cost (?n div 512 + 1) (?m div 512 + 1) \<le> length (drop (taken ?n) xs)"
    using taken_add [of ?n "length data"] n(2) by simp
  have dd: "drop (grow_cost (?n div 512 + 1) (?m div 512 + 1)) (drop (taken ?n) xs) = drop (taken ?m) xs"
    using taken_add [of ?n "length data"] by (simp add: add.commute)
  have i: "i_ic (ai s ! k) = ic" "i_number (ai s ! k) = i_number (ai s0 ! k)" by (simp_all add: k)
  have ld: "length data < 2 ^ 31" using n(1) by simp
  from fwrite_content [OF fr, of data, unfolded i k(2) ic(2) sz nb u dd, OF order_refl ld le cost] obtain ic' d' g' s' where
    w: "fwrite f data (of_nat (length data)) s = Some (0, s')"
      "s' = s\<lparr>ai := (ai s)[k := (ai s ! k)\<lparr>i_ic := ic'\<rparr>], dsk := d', fs := g',
        oft := (oft s)[j := (oft s ! j)\<lparr>o_head := of_nat ?n + of_nat (length data)\<rparr>]\<rparr>"
      "file_ready s' f j k (drop (taken ?m) xs)" "content ic' s' = write_at ?n data (content ic s)"
      "ic_size ic' = of_nat ?m" "ic_mode ic' = ic_mode ic"
      "frame_file ic (?n div 512 + 1) (drop (taken ?n) xs) (unat (i_number (ai s0 ! k))) s s'"
      "set (file_blocks s' ic' (?m div 512 + 1)) \<subseteq> set (file_blocks s ic (?n div 512 + 1)) \<union> set (drop (taken ?n) xs)" "\<forall>i<?n div 512 + 1. fblk s' ic' i = fblk s ic i"
    by blast
  have "set (drop (taken ?n) xs) \<subseteq> A" using A set_drop_subset by fast
  with w(8) ic(4) have own: "set (file_blocks s' ic' (?m div 512 + 1)) \<subseteq> A" by blast
  have "\<forall>a. data_addr a \<and> a \<notin> A \<longrightarrow> blk s' a = blk s0 a"
    using w(7) far(1) ic(4) \<open>set (drop (taken ?n) xs) \<subseteq> A\<close> by (auto simp: frame_file_def)
  moreover have "\<forall>m<512. m \<noteq> unat (i_number (ai s0 ! k)) \<longrightarrow> itab s' m = itab s0 m" using w(7) far(2) by (simp add: frame_file_def)
  moreover have "content ic' s' = bytes @ data" using w(4) ic(1) by (simp add: write_at_def)
  moreover have "s' = s0\<lparr>ai := (ai s0)[k := (ai s0 ! k)\<lparr>i_ic := ic'\<rparr>], dsk := d', fs := g',
       oft := (oft s0)[j := (oft s0 ! j)\<lparr>o_head := of_nat ?m\<rparr>]\<rparr>"
    unfolding w(2) k(1) by (simp add: s jk)
  moreover have db: "ic_db ic' ! 0 = ic_db (i_ic (ai s0 ! k)) ! 0" using w(9) [rule_format, of 0] ic(5) by (simp add: fblk_def)
  moreover have "tables_inv s'" using rw_keeps_tables(1) inv w(1) by blast
  ultimately have "growing s0 f j k xs A (bytes @ data) s'"
    unfolding growing_def using w(3,5,6) own ic(3) db n A by (intro conjI exI [of _ ic'] exI [of _ d'] exI [of _ g']) simp_all
  with w(1) show ?thesis by blast
qed

section \<open>From creation to close\<close>

text \<open>What creating the file \<open>name\<close> as the lowest unused inode needs: entries \<open>f\<close>, \<open>j\<close>, \<open>k\<close> of the
  tables are free, the root directory has room in its last block and no such name, and the
  free list begins with \<open>x\<close>.\<close>

definition can_create :: "byte list \<Rightarrow> nat \<Rightarrow> nat \<Rightarrow> nat \<Rightarrow> nat \<Rightarrow> nat \<Rightarrow> nat \<Rightarrow> u32 \<Rightarrow> u32 list \<Rightarrow> ('h, 'a) kernel_scheme \<Rightarrow> bool" where
  "can_create name c f j k i n x xs s \<longleftrightarrow> tables_inv s \<and> free_slots s c f j k \<and> root_inv s n (x # xs) \<and> good_name name
     \<and> (\<forall>e \<in> set (entries s (itab s 0) n). \<not> matches name e)
     \<and> find (\<lambda>k. ic_mode (itab s k) = IFZERO) [0..<512] = Some i
     \<and> (\<forall>y \<in> set (ai s). i_number y = of_nat i \<longrightarrow> ic_mode (i_ic y) = IFZERO) \<and> n < 16 * 11 \<and> n mod 16 \<noteq> 0"

text \<open>The root directory with the new entry, and everything outside \<open>A\<close> as it was in \<open>s\<close>.\<close>

definition named :: "byte list \<Rightarrow> nat \<Rightarrow> nat \<Rightarrow> u32 set \<Rightarrow> ('h, 'a) kernel_scheme \<Rightarrow> ('h, 'a) kernel_scheme \<Rightarrow> bool" where
  "named name i n A s s' \<longleftrightarrow> (\<exists>d. entries s' (itab s' 0) (Suc n) = entries s (itab s 0) n @ [d] \<and> d_ino d = of_nat i
       \<and> unat (d_namlen d) = length name \<and> take (length name) (d_name d) = name)
     \<and> ic_db (itab s' 0) = ic_db (itab s 0) \<and> ic_mode (itab s' 0) = IFDIR
     \<and> (\<forall>m<512. m \<noteq> 0 \<and> m \<noteq> i \<longrightarrow> itab s' m = itab s m)
     \<and> (\<forall>a. data_addr a \<and> a \<notin> A \<and> a \<notin> set (file_blocks s (itab s 0) (dir_nblocks n)) \<longrightarrow> blk s' a = blk s a)"

lemma create_growing:
  fixes s :: "('h, 'a) kernel_scheme"
  assumes cc: "can_create name c f j k i n x xs s"
  defines "A \<equiv> insert x (set xs)"
  shows "\<exists>d g s1. s1 = s\<lparr>dsk := d, fs := g\<rparr> \<and> open_file name O_CREAT s = Some (of_nat f, opened_at c f j k (of_nat i) s1)
    \<and> named name i n A s s1 \<and> dir_inv s1 (itab s1 0) (Suc n) xs \<and> ic_mode (itab s1 i) = IFREG
    \<and> ic_db (itab s1 i) ! 0 = x \<and> growing (opened_at c f j k (of_nat i) s1) (of_nat f) j k xs A [] (opened_at c f j k (of_nat i) s1)"
proof -
  have inv: "tables_inv s" and fs: "free_slots s c f j k" and ri: "root_inv s n (x # xs)"
    and free: "find (\<lambda>k. ic_mode (itab s k) = IFZERO) [0..<512] = Some i" using cc by (simp_all add: can_create_def)
  note len = tables_lengths [OF inv]
  from open_create [of s c f j k n x xs name i] cc obtain d1 g1 s1 d where s1: "s1 = s\<lparr>dsk := d1, fs := g1\<rparr>"
    and op1: "open_file name O_CREAT s = Some (of_nat f, opened_at c f j k (of_nat i) s1)"
    and p: "root_inv s1 (Suc n) xs" "ic_mode (itab s1 i) = IFREG" "ic_size (itab s1 i) = 0"
      "file_inv s1 (itab s1 i) 1 xs" "\<forall>m<512. m \<noteq> 0 \<and> m \<noteq> i \<longrightarrow> itab s1 m = itab s m"
      "entries s1 (itab s1 0) (Suc n) = entries s (itab s 0) n @ [d]" "d_ino d = of_nat i" "unat (d_namlen d) = length name"
      "take (length name) (d_name d) = name" "ic_db (itab s1 i) ! 0 = x" "itab s1 0 = (itab s 0)\<lparr>ic_size := of_nat (32 * n) + 32\<rparr>"
      "\<forall>a. data_addr a \<and> a \<notin> set xs \<and> a \<notin> set (file_blocks s (itab s 0) (dir_nblocks n)) \<longrightarrow> blk s1 a = blk s a"
    unfolding can_create_def by blast
  let ?s2 = "opened_at c f j k (of_nat i) s1"
  have c: "current s = Some c" using fs by (simp add: free_slots_def)
  have sl: "f < 16" "j < 128" "k < 128" "o_inptr (oft s ! j) = None"
    using fs find_upt_Some by (fastforce simp: free_slots_def)+
  have i: "i < 512" using find_upt_Some [OF free] by blast
  then have ui: "unat (of_nat i :: u32) = i" by (simp add: unat_of_nat_u32)
  have inv1: "tables_inv s1" using inv by (simp add: tables_inv_def s1)
  have al1: "alloc_inv s1 xs" and di1: "dir_inv s1 (itab s1 0) (Suc n) xs" and dm: "ic_mode (itab s1 0) = IFDIR"
    using p(1) by (simp_all add: root_inv_def)
  have st: "stored (itab s1 i) (nblocks (ic_size (itab s1 i))) xs s1" using p(3,4) al1 by (simp add: stored_def word_sizes)
  have c1: "current s1 = Some c" and free1: "o_inptr (oft s1 ! j) = None" using c sl(4) by (simp_all add: s1)
  note r = opened_ready [OF inv1 c1 sl(1-3) _ _ free1, of "of_nat i" xs, unfolded ui, OF i st]
  have inv2: "tables_inv ?s2" using open_keeps_tables [OF inv op1] .
  have own: "set (file_blocks ?s2 (itab s1 i) 1) \<subseteq> A" using p(10) by (simp add: set_file_blocks fblk_def A_def)
  have jk: "j < length (oft s1)" "k < length (ai s1)" using sl len by (simp_all add: s1)
  have "growing ?s2 (of_nat f) j k xs A [] ?s2"
    unfolding growing_def
  proof (intro conjI exI [of _ "itab s1 i"] exI [of _ "dsk ?s2"] exI [of _ "fs ?s2"])
    have "(ai ?s2 ! k)\<lparr>i_ic := itab s1 i\<rparr> = ai ?s2 ! k" "(oft ?s2 ! j)\<lparr>o_head := 0\<rparr> = oft ?s2 ! j"
      using r(2,3) by (cases "ai ?s2 ! k"; cases "oft ?s2 ! j"; simp)+
    then show "?s2 = ?s2\<lparr>ai := (ai ?s2)[k := (ai ?s2 ! k)\<lparr>i_ic := itab s1 i\<rparr>], dsk := dsk ?s2, fs := fs ?s2,
       oft := (oft ?s2)[j := (oft ?s2 ! j)\<lparr>o_head := of_nat (length [])\<rparr>]\<rparr>" by simp
    show "content (itab s1 i) ?s2 = []" "ic_size (itab s1 i) = of_nat (length [])" using p(3) by (simp_all add: content_def)
    show "file_ready ?s2 (of_nat f) j k (drop (taken (length [])) xs)" using r(1) by (simp add: taken_def grow_cost_def)
  qed (use r(2) own inv2 in \<open>simp_all add: A_def taken_def grow_cost_def subset_insertI\<close>)
  moreover have "named name i n A s s1"
    unfolding named_def using p(5-9,11,12) dm by (auto simp: A_def)
  ultimately show ?thesis using s1 op1 di1 p(2,10) by blast
qed

lemma new_dir_blocks:
  assumes ri: "root_inv s n (x # xs)" and n: "n < 16 * 11" "n mod 16 \<noteq> 0" and db: "ic_db (itab s1 0) = ic_db (itab s 0)"
  shows "set (file_blocks s1 (itab s1 0) (dir_nblocks (Suc n))) = set (file_blocks s (itab s 0) (dir_nblocks n))"
    and "set (file_blocks s1 (itab s1 0) (dir_nblocks (Suc n))) \<inter> insert x (set xs) = {}"
proof -
  have di: "dir_inv s (itab s 0) n (x # xs)" using ri by (simp add: root_inv_def)
  then have n0: "0 < n" and d: "distinct (file_blocks s (itab s 0) (dir_nblocks n) @ x # xs)" by (simp_all add: dir_inv_def file_inv_def)
  have nb: "dir_nblocks (Suc n) = dir_nblocks n" "dir_nblocks n \<le> 11"
    using dir_nblocks_Suc [of n] dir_nblocks_full [OF n0] n by simp_all
  then show e: "set (file_blocks s1 (itab s1 0) (dir_nblocks (Suc n))) = set (file_blocks s (itab s 0) (dir_nblocks n))"
    using db by (simp add: set_file_blocks fblk_def)
  show "set (file_blocks s1 (itab s1 0) (dir_nblocks (Suc n))) \<inter> insert x (set xs) = {}" using d unfolding e by auto
qed

lemma dir_inv_drop: "dir_inv s ic n xs \<Longrightarrow> dir_inv s ic n (drop m xs)"
  by (simp add: dir_inv_def file_inv_drop)

text \<open>A file is the same on disks that agree on the data blocks.\<close>

lemma file_same:
  assumes fi: "file_inv s ic (nblocks (ic_size ic)) xs" and same: "\<And>a. data_addr a \<Longrightarrow> blk s' a = blk s a"
  shows "file_inv s' ic (nblocks (ic_size ic)) xs" and "content ic s' = content ic s"
proof -
  have ib: "blk s' (ic_ib ic ! 0) = blk s (ic_ib ic ! 0)" if "11 < nblocks (ic_size ic)"
    using fi that same by (simp add: file_inv_def set_file_blocks)
  show "file_inv s' ic (nblocks (ic_size ic)) xs" using ib by (rule file_inv_same(1) [OF fi])
  have v: "fblk s' ic m = fblk s ic m" if "m < nblocks (ic_size ic)" for m using ib that by (rule file_inv_same(2) [OF fi])
  have "fbyte ic s' m = fbyte ic s m" if "m < unat (ic_size ic)" for m
    using v [OF div_nblocks [OF that]] same file_inv_fblk(1) [OF fi div_nblocks [OF that]] by (simp add: fbyte_def)
  then show "content ic s' = content ic s" by (simp add: content_def)
qed

lemma close_growing:
  fixes s :: "('h, 'a) kernel_scheme"
  assumes cc: "can_create name c f j k i n x xs s" and s1: "s1 = s\<lparr>dsk := d1, fs := g1\<rparr>"
  defines "A \<equiv> insert x (set xs)" and "s2 \<equiv> opened_at c f j k (of_nat i) s1"
  assumes nm: "named name i n A s s1" and di1: "dir_inv s1 (itab s1 0) (Suc n) xs" and reg: "ic_mode (itab s1 i) = IFREG"
    and x: "ic_db (itab s1 i) ! 0 = x"
    and gr: "growing s2 (of_nat f) j k xs A bytes s4"
  defines "ys \<equiv> drop (taken (length bytes)) xs"
  shows "\<exists>s5. close (of_nat f) s4 = Some (0, s5) \<and> tables_kept k s s5 \<and> root_inv s5 (Suc n) ys \<and> named name i n A s s5
    \<and> content (itab s5 i) s5 = bytes \<and> ic_mode (itab s5 i) = IFREG \<and> ic_size (itab s5 i) = of_nat (length bytes)
    \<and> ic_db (itab s5 i) ! 0 = x \<and> file_inv s5 (itab s5 i) (length bytes div 512 + 1) ys"
proof -
  have inv: "tables_inv s" and fs: "free_slots s c f j k" and ri: "root_inv s n (x # xs)"
    and free: "find (\<lambda>k. ic_mode (itab s k) = IFZERO) [0..<512] = Some i" and n: "n < 16 * 11" "n mod 16 \<noteq> 0"
    using cc by (simp_all add: can_create_def)
  note len = tables_lengths [OF inv]
  have c: "current s = Some c" and l0: "i_links (ai s ! k) = 0" using fs by (simp_all add: free_slots_def)
  have sl: "f < 16" "j < 128" "k < 128" using fs find_upt_Some by (fastforce simp: free_slots_def)+
  have i: "i < 512" using find_upt_Some [OF free] by blast
  then have ui: "unat (of_nat i :: u32) = i" by (simp add: unat_of_nat_u32)
  have inv1: "tables_inv s1" and fs1: "free_slots s1 c f j k" using inv fs by (simp_all add: tables_inv_def free_slots_def s1)
  have jk: "k < length (ai s2)" "j < length (oft s2)" using sl len by (simp_all add: s2_def opened_at_def s1)
  have ik: "ai s2 ! k = \<lparr>i_number = of_nat i, i_links = 1, i_ic = itab s1 i\<rparr>"
    using sl(3) len l0 ui by (simp add: s2_def opened_at_def s1)
  obtain ic d4 g4 where s4: "s4 = s2\<lparr>ai := (ai s2)[k := (ai s2 ! k)\<lparr>i_ic := ic\<rparr>], dsk := d4, fs := g4,
       oft := (oft s2)[j := (oft s2 ! j)\<lparr>o_head := of_nat (length bytes)\<rparr>]\<rparr>"
    and ic: "content ic s4 = bytes" "ic_size ic = of_nat (length bytes)" "ic_mode ic = IFREG"
      "set (file_blocks s4 ic (length bytes div 512 + 1)) \<subseteq> A" "ic_db ic ! 0 = x"
    and b: "length bytes < 139 * 512" and fr: "file_ready s4 (of_nat f) j k ys" and inv4: "tables_inv s4"
    and far: "\<forall>a. data_addr a \<and> a \<notin> A \<longrightarrow> blk s4 a = blk s2 a" "\<forall>m<512. m \<noteq> i \<longrightarrow> itab s4 m = itab s2 m"
    using gr ik reg ui x unfolding growing_def ys_def by auto
  have k4: "ai s4 ! k = \<lparr>i_number = of_nat i, i_links = 1, i_ic = ic\<rparr>" using jk by (simp add: s4 ik)
  have "current s4 = Some c" using c by (simp add: s4 s2_def opened_at_def s1)
  from close_last [OF inv4 this sl(1) fr] k4 ui obtain q where
    cl: "close (of_nat f) s4 = Some (0, closed_at c f j k (s4\<lparr>dsk := q\<rparr>))" "alloc_inv (s4\<lparr>dsk := q\<rparr>) ys"
      "meta_only i s4 (s4\<lparr>dsk := q\<rparr>)" "itab (s4\<lparr>dsk := q\<rparr>) i = ic" by auto
  define s5 where "s5 = closed_at c f j k (s4\<lparr>dsk := q\<rparr>)"
  define y where "y = (ai s2 ! k)\<lparr>i_ic := ic, i_links := 0\<rparr>"
  have "s4\<lparr>dsk := q\<rparr> = (opened_at c f j k (of_nat i) s1)\<lparr>ai := (ai s1)[k := (ai s2 ! k)\<lparr>i_ic := ic\<rparr>], dsk := q, fs := g4,
      oft := (oft s1)[j := (oft s2 ! j)\<lparr>o_head := of_nat (length bytes)\<rparr>]\<rparr>"
    by (simp add: s4 s2_def opened_at_def)
  then have s5: "s5 = s\<lparr>dsk := q, fs := g4, ai := (ai s)[k := y\<lparr>i_ic := ic\<lparr>ic_mode := IFZERO\<rparr>\<rparr>]\<rparr>"
    unfolding s5_def using closed_opened [OF inv1 fs1] by (simp add: s1 y_def)
  then have kept: "tables_kept k s s5" unfolding tables_kept_def
    by (intro exI [of _ q] exI [of _ g4] exI [of _ "y\<lparr>i_ic := ic\<lparr>ic_mode := IFZERO\<rparr>\<rparr>"] conjI) (simp_all add: y_def)
  have v5: "itab s5 m = itab (s4\<lparr>dsk := q\<rparr>) m" for m by (rule same_disk_views(7)) (simp add: s5)
  have v2: "itab s2 m = itab s1 m" for m by (rule same_disk_views(7)) (simp add: s2_def opened_at_def)
  have b2: "blk s2 = blk s1" by (simp add: s2_def opened_at_def)
  have i5: "itab s5 i = ic" "\<And>m. m < 512 \<Longrightarrow> m \<noteq> i \<Longrightarrow> itab s5 m = itab s1 m"
    using v5 cl(3,4) far(2) v2 by (simp_all add: meta_only_def)
  have b5: "blk s5 a = blk s4 a" if "data_addr a" for a using cl(3) that by (simp add: meta_only_def s5)
  have frame: "blk s5 a = blk s1 a" if "data_addr a" "a \<notin> A" for a using b5 far(1) b2 that by simp
  have nb: "nblocks (ic_size ic) = length bytes div 512 + 1" using b by (simp add: ic(2) nblocks_def unat_of_nat_u32)
  have f4: "file_inv s4 ic (length bytes div 512 + 1) ys" using fr k4 nb by (simp add: file_ready_def stored_def)
  note same5 = file_same [OF f4 [folded nb], of s5] b5
  have f5: "file_inv s5 ic (length bytes div 512 + 1) ys" and ct: "content ic s5 = bytes" using same5 ic(1) nb by simp_all
  have dirm: "ic_mode (itab s 0) = IFDIR" using ri by (simp add: root_inv_def)
  then have i0: "i \<noteq> 0" using find_upt_Some [OF free] by (intro notI) simp
  have r5: "itab s5 0 = itab s1 0" using i5(2) i0 by simp
  have "set (file_blocks s1 (itab s1 0) (dir_nblocks (Suc n))) \<inter> A = {}"
    using new_dir_blocks(2) [OF ri n, of s1] nm by (simp add: named_def A_def)
  then have same: "blk s5 a = blk s1 a" if "data_addr a" "a \<in> set (file_blocks s1 (itab s1 0) (dir_nblocks (Suc n)))" for a
    using that frame by blast
  have n5: "Suc n \<le> 16 * 11" using n by simp
  note dir5 = dir_inv_same [OF di1 n5 same]
  have "alloc_inv s5 ys" using cl(2) same_disk_alloc(1) [of s5 "s4\<lparr>dsk := q\<rparr>"] by (simp add: s5 s4)
  then have "root_inv s5 (Suc n) ys" using dir_inv_drop [OF dir5(1)] r5 nm by (simp add: root_inv_def named_def ys_def)
  moreover have "named name i n A s s5" using nm dir5(2) r5 i5(2) frame by (simp add: named_def)
  ultimately show ?thesis using cl(1) kept ct ic(2,3,5) f5 i5(1) by (intro exI [of _ s5]) (simp add: s5_def)
qed

end
