(* ===== verification/Programs.thy ===== *)
theory Programs
  imports Newfile
begin

text \<open>
  Programs and the file system that holds them: \<open>getProgramEntry\<close>, \<open>exec\<close>,
  \<open>createObjFiles\<close> and \<open>wipe\<close> of \<open>src/kernel/kernel.c\<close>. A program file holds two words:
  the address of the program's code and its priority. The addresses of the programs and the
  top of the first user stack, which the linker decides, are parameters.
\<close>

text \<open>The bytes of a character string.\<close>

definition str :: "string \<Rightarrow> byte list" where
  "str = map of_char"

section \<open>Starting a program\<close>

text \<open>A word read by \<open>fread\<close>; it stays indeterminate when nothing was read.\<close>

definition loaded :: "byte list \<Rightarrow> u32 option" where
  "loaded b = (if b = [] then None else Some (bytes_u32 b))"

text \<open>The result: the return value, \<open>*entry\<close> and \<open>*priority\<close>. \<open>path_to_ino\<close> has cut the path
  after its first component when \<open>open\<close> gets it.\<close>

definition getProgramEntry :: "byte list \<Rightarrow> ('h, 'a) kernel_scheme \<Rightarrow>
    (u32 \<times> u32 option \<times> u32 option \<times> ('h, 'a) kernel_scheme) option" where
  "getProgramEntry path s = do {
     ino \<leftarrow> path_to_ino path ROOT_DIR s;
     (if ino \<noteq> -1 then do {
        (f, s) \<leftarrow> open_file (after_strtok path) O_EXIST s;
        (if f \<noteq> -1 then do {
           (_, entry, s) \<leftarrow> fread f 4 s;
           (_, priority, s) \<leftarrow> fread f 4 s;
           (_, s) \<leftarrow> close f s;
           Some (0, loaded entry, loaded priority, s)
         }
         else Some (-1, None, None, s))
      }
      else Some (-1, None, None, s))
   }"

definition exec :: "u32 \<Rightarrow> ctx_t \<Rightarrow> byte list \<Rightarrow> ('h, 'a) kernel_scheme \<Rightarrow> (u32 \<times> ctx_t \<times> ('h, 'a) kernel_scheme) option" where
  "exec tos_init c path s = do {
     (r, entry, priority, s) \<leftarrow> getProgramEntry path s;
     (if r = -1 then Some (-1, c, s)
      else do {
        cur \<leftarrow> current s;
        x \<leftarrow> arr (pcb s) cur;
        entry \<leftarrow> entry;
        priority \<leftarrow> priority;
        let x = zero_pcb\<lparr>pid := pid x, pst := EXECUTING,
          ctx := zero_ctx\<lparr>cpsr := 0x50, pc := entry, sp := tos_init - pid x * 0x00010000\<rparr>,
          defp := priority, prio := priority\<rparr>;
        s \<leftarrow> upd_pcb cur (\<lambda>_. x) s;
        Some (0, ctx x, s)
      })
   }"

section \<open>Formatting the disk\<close>

text \<open>One of the eight blocks of \<open>createObjFiles\<close>; \<open>entry\<close> is the address of the program.\<close>

definition create_obj :: "byte list \<Rightarrow> u32 \<Rightarrow> ('h, 'a) kernel_scheme \<Rightarrow> ('h, 'a) kernel_scheme option" where
  "create_obj name entry s = do {
     (f, s) \<leftarrow> open_file name O_CREAT s;
     let prio = (1 :: u32);
     (_, s) \<leftarrow> fwrite f (u32_bytes entry) 4 s;
     (_, s) \<leftarrow> fwrite f (u32_bytes prio) 4 s;
     (_, s) \<leftarrow> close f s;
     Some s
   }"

definition createObjFiles :: "(byte list \<Rightarrow> u32) \<Rightarrow> ('h, 'a) kernel_scheme \<Rightarrow> ('h, 'a) kernel_scheme option" where
  "createObjFiles entry s = for_each
     [str ''P0'', str ''P1'', str ''P2'', str ''het'', str ''ping'', str ''pong'', str ''blanks'', str ''hashs'']
     (\<lambda>name. create_obj name (entry name)) s"

text \<open>Inode \<open>j\<close> of inode block \<open>i\<close>: the root directory with its first block, or an unused
  inode. \<open>junk\<close> are the bytes of the uninitialised local \<open>dir\<close>; \<open>ic\<close> is the block in
  memory.\<close>

definition wipe_inode :: "byte list \<Rightarrow> nat \<Rightarrow> nat \<Rightarrow> byte list \<times> 'a store_scheme \<Rightarrow> (byte list \<times> 'a store_scheme) option" where
  "wipe_inode junk i j b = (case b of (ic, s) \<Rightarrow>
     (if i = 0 \<and> of_nat j = ROOT_DIR then do {
        (a, s) \<leftarrow> balloc s;
        let x = ic_at ic j;
        let x = x\<lparr>ic_mode := IFDIR, ic_size := 32, ic_db := (ic_db x)[0 := a]\<rparr>;
        let d = dir_at junk 0;
        let d = d\<lparr>d_ino := ROOT_DIR, d_namlen := 1, d_name := (d_name d)[0 := 46]\<rparr>;
        s \<leftarrow> kwrite a (put_dir junk 0 d) s;
        Some (put_ic ic j x, s)
      }
      else Some (put_ic ic j ((ic_at ic j)\<lparr>ic_mode := IFZERO, ic_size := 0\<rparr>), s)))"

definition wipe_inodes :: "byte list \<Rightarrow> 'a store_scheme \<Rightarrow> 'a store_scheme option" where
  "wipe_inodes junk s = for_each [0..<64] (\<lambda>i s. do {
     ic \<leftarrow> kread s (of_nat i + fs_iblkno (fs s));
     (ic, s) \<leftarrow> for_each [0..<8] (wipe_inode junk i) (ic, s);
     kwrite (of_nat i + fs_iblkno (fs s)) ic s
   }) s"

definition wipe :: "byte list \<Rightarrow> (byte list \<Rightarrow> u32) \<Rightarrow> ('h, 'a) kernel_scheme \<Rightarrow> ('h, 'a) kernel_scheme option" where
  "wipe junk entry s = do {
     s \<leftarrow> wipe_super s;
     s \<leftarrow> wipe_inodes junk s;
     createObjFiles entry s
   }"

section \<open>Loading a program\<close>

lemma path_to_ino_hit:
  assumes "root_inv s n xs" and "good_name name"
    and "find (matches name) (take (visible n) (entries s (itab s 0) n)) = Some d"
  shows "path_to_ino name 0 s = Some (d_ino d)"
proof -
  have "formatted s" "dir_inv s (itab s 0) n xs" using assms(1) by (simp_all add: root_inv_def alloc_inv_def)
  then show ?thesis
    using lookup_root [of s name] name_to_ino_find [of s "inode_local\<lparr>i_number := 0, i_ic := itab s 0\<rparr>" n xs name] assms(2,3)
    by (simp add: good_name_def)
qed

lemma after_strtok_good: "good_name name \<Longrightarrow> after_strtok name = name"
proof -
  assume "good_name name"
  then have n: "47 \<notin> set name" "name \<noteq> []" by (simp_all add: good_name_def)
  then have "hd name \<noteq> 47" by (metis hd_in_set)
  then have "takeWhile (\<lambda>c. c = 47) name = []" "dropWhile (\<lambda>c. c = 47) name = name"
    using n(2) by (cases name; simp)+
  moreover have "takeWhile (\<lambda>c. c \<noteq> 47) name = name" using n(1) by (auto simp: takeWhile_eq_all_conv)
  ultimately show ?thesis by (simp add: after_strtok_def)
qed

text \<open>What opening, reading and closing a file leaves behind: nothing but the unused entry of the
  active inode table it went through.\<close>

definition same_but_ai :: "nat \<Rightarrow> ('h, 'a) kernel_scheme \<Rightarrow> ('h, 'a) kernel_scheme \<Rightarrow> bool" where
  "same_but_ai k s s' \<longleftrightarrow> (\<exists>d x. s' = s\<lparr>dsk := d, ai := (ai s)[k := x]\<rparr> \<and> ic_mode (i_ic x) = IFZERO \<and> i_links x = 0
     \<and> (\<forall>a. data_addr a \<longrightarrow> dblk d a = blk s a) \<and> (\<forall>m<512. itab s' m = itab s m))"

lemma same_but_ai_fields:
  assumes "same_but_ai k s s'"
  shows "pcb s' = pcb s" "current s' = current s" "oft s' = oft s" "fs s' = fs s" "rq s' = rq s" "rq_size s' = rq_size s"
  using assms by (auto simp: same_but_ai_def)

lemma same_but_ai_pcb:
  fixes s s' :: "('h, 'a) kernel_scheme"
  assumes "same_but_ai k s s'"
  shows "same_but_ai k (s\<lparr>pcb := p\<rparr>) (s'\<lparr>pcb := p\<rparr>)"
proof -
  obtain d x where s': "s' = s\<lparr>dsk := d, ai := (ai s)[k := x]\<rparr>" "ic_mode (i_ic x) = IFZERO" "i_links x = 0"
    "\<forall>a. data_addr a \<longrightarrow> dblk d a = blk s a" "\<forall>m<512. itab s' m = itab s m" using assms unfolding same_but_ai_def by blast
  have "itab (t\<lparr>pcb := p\<rparr>) m = itab t m" for t :: "('h, 'a) kernel_scheme" and m by (rule same_disk_views(7)) simp
  with s' have "\<forall>m<512. itab (s'\<lparr>pcb := p\<rparr>) m = itab (s\<lparr>pcb := p\<rparr>) m" by metis
  moreover have "s'\<lparr>pcb := p\<rparr> = s\<lparr>pcb := p, dsk := d, ai := (ai s)[k := x]\<rparr>" using s'(1) by simp
  ultimately show ?thesis unfolding same_but_ai_def using s'(2-4) by (intro exI [of _ d] exI [of _ x]) simp
qed

lemma open_close_same:
  fixes s :: "('h, 'a) kernel_scheme" and h :: u32
  assumes inv: "tables_inv s" and fs: "free_slots s c f j k" and ino: "unat ino < 512"
  defines "s1 \<equiv> (opened_at c f j k ino s)\<lparr>oft := (oft (opened_at c f j k ino s))[j := \<lparr>o_inptr = Some k, o_head = h\<rparr>]\<rparr>"
  assumes m: "meta_only (unat ino) s1 (s1\<lparr>dsk := d\<rparr>)" and i: "itab (s1\<lparr>dsk := d\<rparr>) (unat ino) = itab s (unat ino)"
  shows "same_but_ai k s (closed_at c f j k (s1\<lparr>dsk := d\<rparr>))"
proof -
  have "k < length (ai s)" "j < length (oft s)"
    using fs find_upt_Some tables_lengths [OF inv] by (fastforce simp: free_slots_def)+
  let ?s = "closed_at c f j k (s1\<lparr>dsk := d\<rparr>)"
  have "s1\<lparr>dsk := d\<rparr> = (opened_at c f j k ino s)\<lparr>ai := (ai s)[k := ai s1 ! k], dsk := d, fs := fs s,
      oft := (oft s)[j := \<lparr>o_inptr = Some k, o_head = h\<rparr>]\<rparr>"
    using \<open>k < length (ai s)\<close> by (simp add: s1_def opened_at_def)
  then have eq: "?s = s\<lparr>dsk := d, ai := (ai s)[k := (ai s1 ! k)\<lparr>i_links := 0, i_ic := (i_ic (ai s1 ! k))\<lparr>ic_mode := IFZERO\<rparr>\<rparr>]\<rparr>"
    using closed_opened [OF inv fs] by simp
  have d1: "dsk s1 = dsk s" by (simp add: s1_def opened_at_def)
  have v: "itab ?s x = itab (s1\<lparr>dsk := d\<rparr>) x" "itab s1 x = itab s x" for x
    by (rule same_disk_views(7), simp add: eq, rule same_disk_views(7), simp add: d1)
  have "itab ?s x = itab s x" if "x < 512" for x
    using m i that v by (cases "x = unat ino") (simp_all add: meta_only_def)
  moreover have "blk ?s a = blk s a" if "data_addr a" for a using m that eq d1 by (simp add: meta_only_def)
  ultimately show ?thesis
    unfolding same_but_ai_def
    by (intro exI [of _ d] exI [of _ "(ai s1 ! k)\<lparr>i_links := 0, i_ic := (i_ic (ai s1 ! k))\<lparr>ic_mode := IFZERO\<rparr>\<rparr>"] conjI)
       (simp_all add: eq)
qed

lemma loaded_word [simp]: "loaded (u32_bytes e) = Some e"
proof -
  have "u32_bytes e \<noteq> []" by (simp add: u32_bytes_def)
  then show ?thesis by (simp add: loaded_def)
qed

lemma getProgramEntry_ok:
  fixes s :: "('h, 'a) kernel_scheme"
  assumes inv: "tables_inv s" and fs: "free_slots s c f j k" and ri: "root_inv s n xs" and gn: "good_name name"
    and hit: "find (matches name) (take (visible n) (entries s (itab s 0) n)) = Some d" and ino: "unat (d_ino d) < 512"
    and no: "\<forall>x \<in> set (ai s). i_number x = d_ino d \<longrightarrow> ic_mode (i_ic x) = IFZERO"
  defines "ic \<equiv> itab s (unat (d_ino d))"
  assumes fi: "file_inv s ic (nblocks (ic_size ic)) xs" and ct: "content ic s = u32_bytes e @ u32_bytes p @ rest"
  shows "\<exists>s'. getProgramEntry name s = Some (0, Some e, Some p, s') \<and> same_but_ai k s s' \<and> alloc_inv s' xs"
proof -
  note len = tables_lengths [OF inv]
  have c: "current s = Some c" and l0: "i_links (ai s ! k) = 0" using fs by (simp_all add: free_slots_def)
  have sl: "f < 16" "j < 128" "k < 128" "fd (pcb s ! c) ! f = None" "o_inptr (oft s ! j) = None"
    using fs find_upt_Some by (fastforce simp: free_slots_def)+
  let ?f = "of_nat f :: u32" and ?ino = "d_ino d"
  define s1 where "s1 = opened_at c f j k ?ino s"
  have op: "open_file name O_EXIST s = Some (?f, s1)"
    unfolding s1_def using fs by (intro open_existing [OF inv c ri gn hit ino no]) (simp_all add: free_slots_def)
  have st: "stored ic (nblocks (ic_size ic)) xs s" using ri fi by (simp add: stored_def root_inv_def)
  note r = opened_ready [OF inv c sl(1-3) ino st [unfolded ic_def] sl(5), folded s1_def ic_def]
  have sz: "8 \<le> unat (ic_size ic)" using arg_cong [OF ct, of length] by (simp add: content_def)
  define s2 where "s2 = s1\<lparr>oft := (oft s1)[j := (oft s1 ! j)\<lparr>o_head := 4\<rparr>]\<rparr>"
  define s3 where "s3 = s1\<lparr>oft := (oft s1)[j := (oft s1 ! j)\<lparr>o_head := 8\<rparr>]\<rparr>"
  note r2 = file_ready_head [OF r(1), where off = 4, folded s2_def] and r3 = file_ready_head [OF r(1), where off = 8, folded s3_def]
  have jl: "j < length (oft s1)" using sl(2) len by (simp add: s1_def opened_at_def)
  have rd1: "fread ?f 4 s1 = Some (0, u32_bytes e, s2)"
    using fread_content [OF r(1), of 4] sz ct r by (simp add: s2_def)
  have s23: "s2\<lparr>oft := (oft s2)[j := (oft s2 ! j)\<lparr>o_head := 8\<rparr>]\<rparr> = s3" using jl by (simp add: s2_def s3_def)
  have rd2: "fread ?f 4 s2 = Some (0, u32_bytes p, s3)"
    using fread_content [OF r2(1), of 4] sz ct r r2 s23 by simp
  have inv3: "tables_inv s3" using open_keeps_tables [OF inv op] rw_keeps_tables(2) rd1 rd2 by blast
  have k1: "ai s3 ! k = \<lparr>i_number = ?ino, i_links = 1, i_ic = ic\<rparr>"
    using sl len l0 by (simp add: s3_def s1_def opened_at_def ic_def)
  have "current s3 = Some c" using c by (simp add: s3_def s1_def opened_at_def)
  from close_last [OF inv3 this sl(1) r3(1)] k1 obtain q where
    cl: "close ?f s3 = Some (0, closed_at c f j k (s3\<lparr>dsk := q\<rparr>))" "alloc_inv (s3\<lparr>dsk := q\<rparr>) xs"
      "meta_only (unat ?ino) s3 (s3\<lparr>dsk := q\<rparr>)" "itab (s3\<lparr>dsk := q\<rparr>) (unat ?ino) = ic" by auto
  have "o_inptr (oft s1 ! j) = Some k" using sl len by (simp add: s1_def opened_at_def)
  then have "oft s1 ! j = \<lparr>o_inptr = Some k, o_head = o_head (oft s1 ! j)\<rparr>" by (cases "oft s1 ! j") simp
  then have s3: "s3 = (opened_at c f j k ?ino s)\<lparr>oft := (oft (opened_at c f j k ?ino s))[j := \<lparr>o_inptr = Some k, o_head = 8\<rparr>]\<rparr>"
    unfolding s3_def s1_def by (metis ofile_t.update_convs(2))
  have "same_but_ai k s (closed_at c f j k (s3\<lparr>dsk := q\<rparr>))"
    unfolding s3 by (rule open_close_same [OF inv fs ino]) (use cl(3,4) in \<open>simp_all add: s3 ic_def\<close>)
  moreover have "alloc_inv (closed_at c f j k (s3\<lparr>dsk := q\<rparr>)) xs"
    using cl(2) same_disk_alloc(1) [of "closed_at c f j k (s3\<lparr>dsk := q\<rparr>)" "s3\<lparr>dsk := q\<rparr>" xs] by (simp add: closed_at_def)
  moreover have ino1: "?ino \<noteq> -1" using ino by (intro notI) (simp add: unsigned_minus_1_eq_mask mask_eq_exp_minus_1)
  have "getProgramEntry name s = Some (0, Some e, Some p, closed_at c f j k (s3\<lparr>dsk := q\<rparr>))"
    using path_to_ino_hit [OF ri gn hit] ino1 op rd1 rd2 cl(1) fd_not_minus1 [OF sl(1)]
    by (simp add: getProgramEntry_def after_strtok_good [OF gn])
  ultimately show ?thesis by blast
qed


text \<open>The process block \<open>exec\<close> sets up.\<close>

definition started :: "u32 \<Rightarrow> u32 \<Rightarrow> u32 \<Rightarrow> u32 \<Rightarrow> pcb_t" where
  "started tos i e p = zero_pcb\<lparr>pid := i, pst := EXECUTING,
     ctx := zero_ctx\<lparr>cpsr := 0x50, pc := e, sp := tos - i * 0x00010000\<rparr>, defp := p, prio := p\<rparr>"

text \<open>\<open>exec\<close> on a file found in the root directory.\<close>

lemma exec_started:
  fixes s :: "('h, 'a) kernel_scheme" and tos_init :: u32
  assumes "tables_inv s" and "free_slots s c f j k" and "root_inv s n xs" and "good_name name"
    and "find (matches name) (take (visible n) (entries s (itab s 0) n)) = Some d" and "unat (d_ino d) < 512"
    and "\<forall>x \<in> set (ai s). i_number x = d_ino d \<longrightarrow> ic_mode (i_ic x) = IFZERO"
    and "file_inv s (itab s (unat (d_ino d))) (nblocks (ic_size (itab s (unat (d_ino d))))) xs"
    and "content (itab s (unat (d_ino d))) s = u32_bytes e @ u32_bytes p @ rest"
  defines "x \<equiv> started tos_init (pid (pcb s ! c)) e p"
  shows "\<exists>s'. exec tos_init cx name s = Some (0, ctx x, s')
    \<and> same_but_ai k (s\<lparr>pcb := (pcb s)[c := x]\<rparr>) s' \<and> alloc_inv s' xs"
proof -
  from getProgramEntry_ok [OF assms(1-9)] obtain s' where s': "getProgramEntry name s = Some (0, Some e, Some p, s')"
    "same_but_ai k s s'" "alloc_inv s' xs" by blast
  have c: "current s = Some c" "c < length (pcb s)"
    using assms(1,2) tables_lengths [OF assms(1)] by (auto simp: free_slots_def)
  have s: "current s' = Some c" "pcb s' = pcb s" using s'(2) c by (metis same_but_ai_fields)+
  have "exec tos_init cx name s = Some (0, ctx x, s'\<lparr>pcb := (pcb s)[c := x]\<rparr>)"
    using s'(1) s c by (simp add: exec_def upd_pcb_def x_def started_def)
  moreover have "same_but_ai k (s\<lparr>pcb := (pcb s)[c := x]\<rparr>) (s'\<lparr>pcb := (pcb s)[c := x]\<rparr>)"
    using s'(2) by (rule same_but_ai_pcb)
  moreover have "alloc_inv (s'\<lparr>pcb := (pcb s)[c := x]\<rparr>) xs"
    using s'(3) same_disk_alloc(1) [of "s'\<lparr>pcb := (pcb s)[c := x]\<rparr>" s'] by simp
  ultimately show ?thesis by blast
qed

text \<open>C35. Starting a program. When the root directory has a file under the given name that is
  not open and begins with the words \<open>e\<close> and \<open>p\<close>, \<open>exec\<close> succeeds: the current process
  continues in user mode at address \<open>e\<close> with priority \<open>p\<close>, cleared registers, the stack of
  its process number and an empty descriptor table. No other process, no queue, no open file
  entry, no inode on disk and no data block changes.\<close>

theorem exec_spec:
  fixes s :: "('h, 'a) kernel_scheme" and tos_init :: u32
  assumes "tables_inv s" and "free_slots s c f j k" and "root_inv s n xs" and "good_name name"
    and "find (matches name) (take (visible n) (entries s (itab s 0) n)) = Some d" and "unat (d_ino d) < 512"
    and "\<forall>x \<in> set (ai s). i_number x = d_ino d \<longrightarrow> ic_mode (i_ic x) = IFZERO"
    and "file_inv s (itab s (unat (d_ino d))) (nblocks (ic_size (itab s (unat (d_ino d))))) xs"
    and "content (itab s (unat (d_ino d))) s = u32_bytes e @ u32_bytes p @ rest"
  defines "x \<equiv> started tos_init (pid (pcb s ! c)) e p"
  shows "\<exists>s'. exec tos_init cx name s = Some (0, ctx x, s')
    \<and> same_but_ai k (s\<lparr>pcb := (pcb s)[c := x]\<rparr>) s' \<and> alloc_inv s' xs"
  unfolding x_def using exec_started [OF assms(1-9)] .

section \<open>Creating a program file\<close>

lemma create_obj_ok:
  fixes s :: "('h, 'a) kernel_scheme"
  assumes inv: "tables_inv s" and fs: "free_slots s c f j k" and ri: "root_inv s n (x # xs)" and gn: "good_name name"
    and new: "\<forall>e \<in> set (entries s (itab s 0) n). \<not> matches name e"
    and free: "find (\<lambda>k. ic_mode (itab s k) = IFZERO) [0..<512] = Some i"
    and no: "\<forall>y \<in> set (ai s). i_number y = of_nat i \<longrightarrow> ic_mode (i_ic y) = IFZERO"
    and n: "n < 16 * 11" "n mod 16 \<noteq> 0"
  shows "\<exists>s' d. create_obj name e s = Some s' \<and> tables_kept k s s' \<and> root_inv s' (Suc n) xs
    \<and> entries s' (itab s' 0) (Suc n) = entries s (itab s 0) n @ [d] \<and> d_ino d = of_nat i
    \<and> unat (d_namlen d) = length name \<and> take (length name) (d_name d) = name
    \<and> content (itab s' i) s' = u32_bytes e @ u32_bytes 1 \<and> ic_mode (itab s' i) = IFREG \<and> ic_size (itab s' i) = 8 \<and> ic_db (itab s' i) ! 0 = x
    \<and> file_inv s' (itab s' i) 1 xs \<and> ic_db (itab s' 0) = ic_db (itab s 0)
    \<and> (\<forall>m<512. m \<noteq> 0 \<and> m \<noteq> i \<longrightarrow> itab s' m = itab s m)
    \<and> (\<forall>a. data_addr a \<and> a \<notin> set (x # xs) \<and> a \<notin> set (file_blocks s (itab s 0) (dir_nblocks n)) \<longrightarrow> blk s' a = blk s a)"
proof -
  have cc: "can_create name c f j k i n x xs s" using assms by (simp add: can_create_def)
  let ?f = "of_nat f :: u32" and ?A = "insert x (set xs)"
  from create_growing [OF cc] obtain d1 g1 s1 where s1: "s1 = s\<lparr>dsk := d1, fs := g1\<rparr>"
    and op: "open_file name O_CREAT s = Some (?f, opened_at c f j k (of_nat i) s1)"
    and p: "named name i n ?A s s1" "dir_inv s1 (itab s1 0) (Suc n) xs" "ic_mode (itab s1 i) = IFREG" "ic_db (itab s1 i) ! 0 = x"
      "growing (opened_at c f j k (of_nat i) s1) ?f j k xs ?A [] (opened_at c f j k (of_nat i) s1)" by blast
  let ?s2 = "opened_at c f j k (of_nat i) s1"
  have z: "taken 4 = 0" "taken 8 = 0" by (simp_all add: taken_def grow_cost_def)
  from growing_write [OF p(5), of "u32_bytes e"] z obtain s3 where
    w1: "fwrite ?f (u32_bytes e) 4 ?s2 = Some (0, s3)" "growing ?s2 ?f j k xs ?A (u32_bytes e) s3" by auto
  from growing_write [OF w1(2), of "u32_bytes 1"] z obtain s4 where
    w2: "fwrite ?f (u32_bytes 1) 4 s3 = Some (0, s4)" "growing ?s2 ?f j k xs ?A (u32_bytes e @ u32_bytes 1) s4" by auto
  from close_growing [OF cc s1 p(1-4) w2(2)] z obtain s' where
    c: "close ?f s4 = Some (0, s')" "tables_kept k s s'" "root_inv s' (Suc n) xs" "named name i n ?A s s'"
      "content (itab s' i) s' = u32_bytes e @ u32_bytes 1" "ic_mode (itab s' i) = IFREG" "ic_size (itab s' i) = 8"
      "ic_db (itab s' i) ! 0 = x" "file_inv s' (itab s' i) 1 xs" by auto
  have run: "create_obj name e s = Some s'" using op w1(1) w2(1) c(1) by (simp add: create_obj_def)
  from c(4) obtain d where "entries s' (itab s' 0) (Suc n) = entries s (itab s 0) n @ [d]" "d_ino d = of_nat i"
    "unat (d_namlen d) = length name" "take (length name) (d_name d) = name" unfolding named_def by blast
  with run c show ?thesis by (intro exI [of _ s'] exI [of _ d]) (simp add: named_def)
qed

lemma desk_create:
  "\<exists>s' d. create_obj [80, 49] 7 desk = Some s' \<and> tables_kept 0 desk s' \<and> root_inv s' 3 (tl (tl wipe_order))
    \<and> entries s' (itab s' 0) 3 = entries desk (itab desk 0) 2 @ [d] \<and> d_ino d = 2 \<and> matches [80, 49] d
    \<and> content (itab s' 2) s' = u32_bytes 7 @ u32_bytes 1 \<and> ic_size (itab s' 2) = 8 \<and> file_inv s' (itab s' 2) 1 (tl (tl wipe_order))"
proof -
  have wo: "tl wipe_order = 2046 # tl (tl wipe_order)" using wipe_order_hd by (metis list.sel(3))
  have fs: "free_slots desk 0 0 0 0" using desk_finds(3-5) by (simp add: free_slots_def) (simp add: desk_def inode_local_def)
  have ri: "root_inv desk 2 (2046 # tl (tl wipe_order))" using desk_finds(1) wo by metis
  have ent: "entries desk (itab desk 0) 2 = [bytes_dir (replicate 32 0), P0_dir]"
    by (simp add: desk_as_rooted rooted_itab rooted_entries)
  have new: "\<forall>e \<in> set (entries desk (itab desk 0) 2). \<not> matches [80, 49] e"
    by (simp add: ent matches_def P0_dir_def bytes_dir_def)
  have free: "find (\<lambda>k. ic_mode (itab desk k) = IFZERO) [0..<512] = Some 2"
  proof (rule find_upt_SomeI)
    show "\<forall>j<2. \<not> ic_mode (itab desk j) = IFZERO"
      using rooted_itab by (auto simp: less_2_cases_iff root_ic_def P0_ic_def desk_as_rooted)
  qed (use rooted_itab(3) [of 2] in \<open>simp_all add: desk_as_rooted\<close>)
  have no: "\<forall>y \<in> set (ai desk). i_number y = of_nat 2 \<longrightarrow> ic_mode (i_ic y) = IFZERO"
    by (simp add: desk_def inode_local_def)
  have gn: "good_name [80, 49]" by (simp add: good_name_def)
  have n: "(2 :: nat) < 16 * 11" "(2 :: nat) mod 16 \<noteq> 0" "Suc 2 = 3" by simp_all
  from create_obj_ok [OF desk_tables fs ri gn new free no n(1,2), of 7, unfolded n(3)] obtain s' d where
    "create_obj [80, 49] 7 desk = Some s'" "tables_kept 0 desk s'" "root_inv s' 3 (tl (tl wipe_order))"
    "entries s' (itab s' 0) 3 = entries desk (itab desk 0) 2 @ [d]" "d_ino d = 2" "unat (d_namlen d) = length [80 :: byte, 49]"
    "take (length [80 :: byte, 49]) (d_name d) = [80, 49]" "content (itab s' 2) s' = u32_bytes 7 @ u32_bytes 1" "ic_size (itab s' 2) = 8"
    "file_inv s' (itab s' 2) 1 (tl (tl wipe_order))" unfolding of_nat_numeral by blast
  then show ?thesis using matches_new [of d "[80, 49]"] by blast
qed

theorem exec_spec_witness:
  "\<exists>s1 s2. create_obj [80, 49] 7 desk = Some s1
     \<and> exec 0x70000000 zero_ctx [80, 49] s1 = Some (0, ctx (started 0x70000000 0 7 1), s2)"
proof -
  from desk_create obtain s1 d where s1: "create_obj [80, 49] 7 desk = Some s1" "tables_kept 0 desk s1"
    "root_inv s1 3 (tl (tl wipe_order))" "entries s1 (itab s1 0) 3 = entries desk (itab desk 0) 2 @ [d]" "d_ino d = 2"
    "matches [80, 49] d" "content (itab s1 2) s1 = u32_bytes 7 @ u32_bytes 1" "ic_size (itab s1 2) = 8"
    "file_inv s1 (itab s1 2) 1 (tl (tl wipe_order))" by blast
  have fs: "free_slots desk 0 0 0 0" using desk_finds(3-5) by (simp add: free_slots_def) (simp add: desk_def inode_local_def)
  note t = tables_keptD [OF s1(2) fs]
  have ent: "entries desk (itab desk 0) 2 = [bytes_dir (replicate 32 0), P0_dir]"
    by (simp add: desk_as_rooted rooted_itab rooted_entries)
  have hit: "find (matches [80, 49]) (take (visible 3) (entries s1 (itab s1 0) 3)) = Some d"
    using s1(4,6) by (simp add: ent visible_def) (simp add: matches_def P0_dir_def bytes_dir_def)
  obtain y q g where y: "s1 = desk\<lparr>dsk := q, fs := g, ai := (ai desk)[0 := y]\<rparr>" "ic_mode (i_ic y) = IFZERO"
    using s1(2) unfolding tables_kept_def by blast
  have no: "\<forall>z \<in> set (ai s1). i_number z = d_ino d \<longrightarrow> ic_mode (i_ic z) = IFZERO"
    using y(2) set_update_subset_insert [of "ai desk" 0 y] unfolding y(1) by (auto simp: desk_def inode_local_def)
  have p: "pid (pcb s1 ! 0) = 0" by (simp add: y(1)) (simp add: desk_def zero_pcb_def)
  have fi: "file_inv s1 (itab s1 (unat (d_ino d))) (nblocks (ic_size (itab s1 (unat (d_ino d))))) (tl (tl wipe_order))"
    using s1(5,8,9) by (simp add: word_sizes)
  have "content (itab s1 (unat (d_ino d))) s1 = u32_bytes 7 @ u32_bytes 1 @ []" using s1(5,7) by simp
  from exec_spec [OF t(2) [OF desk_tables] t(1) s1(3) _ hit _ no fi this, where tos_init = "0x70000000" and cx = zero_ctx] p s1(1,5)
  show ?thesis by (auto simp: good_name_def)
qed

end
