(* ===== verification/Format.thy ===== *)
theory Format
  imports Programs
begin

text \<open>
  What \<open>wipe\<close> leaves on the disk: the inode table with the root directory as its only file, and
  the program files \<open>createObjFiles\<close> adds.
\<close>

section \<open>The inode blocks\<close>

definition unused :: "icommon_t \<Rightarrow> icommon_t" where
  "unused x = x\<lparr>ic_mode := IFZERO, ic_size := 0\<rparr>"

lemma wf_unused [simp]: "wf_ic (unused x) = wf_ic x"
  by (simp add: unused_def wf_ic_def)

lemma wipe_rest:
  assumes "length ic = 512" and "\<forall>j \<in> set js. j < 8 \<and> (0 < i \<or> 0 < j)"
  shows "\<exists>ic'. for_each js (wipe_inode junk i) (ic, s) = Some (ic', s) \<and> length ic' = 512
    \<and> (\<forall>m<8. ic_at ic' m = (if m \<in> set js then unused (ic_at ic m) else ic_at ic m))"
  using assms
proof (induction js arbitrary: ic)
  case (Cons j js)
  let ?ic = "put_ic ic j (unused (ic_at ic j))"
  have j: "j < 8" "\<not> (i = 0 \<and> of_nat j = (0 :: u32))"
    using Cons.prems(2) unat_of_nat_u32 [of j] by (auto simp: unat_eq_0 [symmetric] simp del: unat_eq_0)
  have one: "wipe_inode junk i j (ic, s) = Some (?ic, s)" using j(2) by (auto simp: wipe_inode_def unused_def)
  have len: "length ?ic = 512" using Cons.prems(1) j(1) by simp
  from Cons.IH [OF len] Cons.prems(2) obtain ic' where
    ic': "for_each js (wipe_inode junk i) (?ic, s) = Some (ic', s)" "length ic' = 512"
      "\<forall>m<8. ic_at ic' m = (if m \<in> set js then unused (ic_at ?ic m) else ic_at ?ic m)" by auto
  have "unused (unused x) = unused x" for x by (simp add: unused_def)
  then have "ic_at ic' m = (if m \<in> set (j # js) then unused (ic_at ic m) else ic_at ic m)" if "m < 8" for m
    using ic'(3) that j(1) Cons.prems(1) by (auto simp: ic_at_put_ic)
  with one ic' show ?case by auto
qed simp

lemma inode_block:
  assumes "formatted s" and "i < 64"
  shows "of_nat i + fs_iblkno (fs s) = iblock (8 * i)" and "valid s (iblock (8 * i))"
    and "kread s (iblock (8 * i)) = Some (blk s (iblock (8 * i)))" and "length (blk s (iblock (8 * i))) = 512"
proof -
  show "of_nat i + fs_iblkno (fs s) = iblock (8 * i)" using assms(1) by (simp add: formatted_def iblock_def add.commute)
  show v: "valid s (iblock (8 * i))" using assms by (intro iblock_valid) auto
  show "kread s (iblock (8 * i)) = Some (blk s (iblock (8 * i)))" using v by simp
  show "length (blk s (iblock (8 * i))) = 512" using assms(1) v by simp
qed

text \<open>A new inode block.\<close>

lemma write_inode_block:
  assumes al: "alloc_inv s xs" and i: "i < 64" and len: "length ic = 512"
  shows "\<exists>s'. kwrite (iblock (8 * i)) ic s = Some s' \<and> alloc_inv s' xs \<and> only_inodes s s'
    \<and> (\<forall>m<512. itab s' m = (if m div 8 = i then ic_at ic (m mod 8) else itab s m))"
proof -
  have f: "formatted s" using al by (simp add: alloc_inv_def)
  note b = inode_block [OF f i]
  let ?s = "s\<lparr>dsk := (dsk s)\<lparr>dblk := (blk s)(iblock (8 * i) := ic)\<rparr>\<rparr>"
  have w: "kwrite (iblock (8 * i)) ic s = Some ?s" using b f len by (intro kwrite_full) simp_all
  have f': "formatted ?s" using f len by (intro formatted_write) simp_all
  have o: "only_inodes s ?s" using i by (auto simp: only_inodes_def)
  have "itab ?s m = (if m div 8 = i then ic_at ic (m mod 8) else itab s m)" if "m < 512" for m
    using iblock_eq [of m "8 * i"] that i by (auto simp: itab_def)
  with w only_inodes_alloc_inv [OF al o f'] o show ?thesis by blast
qed


definition wipe_block :: "byte list \<Rightarrow> nat \<Rightarrow> 'a store_scheme \<Rightarrow> 'a store_scheme option" where
  "wipe_block junk i s = do {
     ic \<leftarrow> kread s (of_nat i + fs_iblkno (fs s));
     (ic, s) \<leftarrow> for_each [0..<8] (wipe_inode junk i) (ic, s);
     kwrite (of_nat i + fs_iblkno (fs s)) ic s
   }"

lemma wipe_inodes_eq: "wipe_inodes junk s = for_each [0..<64] (wipe_block junk) s"
  unfolding wipe_inodes_def wipe_block_def by simp

lemma only_inodes_trans: "only_inodes s t \<Longrightarrow> only_inodes t u \<Longrightarrow> only_inodes s u"
  by (simp add: only_inodes_def)

lemma wipe_blocks:
  assumes "alloc_inv s xs" and "\<forall>i \<in> set is. 0 < i \<and> i < 64"
  shows "\<exists>s'. for_each is (wipe_block junk) s = Some s' \<and> alloc_inv s' xs \<and> only_inodes s s'
    \<and> (\<forall>m<512. itab s' m = (if m div 8 \<in> set is then unused (itab s m) else itab s m))"
  using assms
proof (induction "is" arbitrary: s)
  case Nil
  then show ?case by (simp add: only_inodes_def)
next
  case (Cons i "is")
  have f: "formatted s" and i: "i < 64" "0 < i" using Cons.prems by (simp_all add: alloc_inv_def formatted_def)
  note b = inode_block [OF f i(1)]
  from wipe_rest [OF b(4), of "[0..<8]" i junk s] i(2) obtain ic where
    ic: "for_each [0..<8] (wipe_inode junk i) (blk s (iblock (8 * i)), s) = Some (ic, s)" "length ic = 512"
      "\<forall>m<8. ic_at ic m = unused (ic_at (blk s (iblock (8 * i))) m)" by (auto simp del: upt_rec_numeral)
  from write_inode_block [OF Cons.prems(1) i(1) ic(2)] obtain s1 where
    s1: "kwrite (iblock (8 * i)) ic s = Some s1" "alloc_inv s1 xs" "only_inodes s s1"
      "\<forall>m<512. itab s1 m = (if m div 8 = i then ic_at ic (m mod 8) else itab s m)" by blast
  have one: "wipe_block junk i s = Some s1" using b ic(1) s1(1) by (simp add: wipe_block_def del: upt_rec_numeral)
  have t1: "itab s1 m = (if m div 8 = i then unused (itab s m) else itab s m)" if "m < 512" for m
  proof (cases "m div 8 = i")
    case True
    then have "iblock (8 * i) = iblock m" using that i by (simp add: iblock_eq)
    then show ?thesis using True s1(4) ic(3) that by (simp add: itab_def)
  qed (use s1(4) that in simp)
  from Cons.IH [OF s1(2)] Cons.prems(2) obtain s' where s': "for_each is (wipe_block junk) s1 = Some s'" "alloc_inv s' xs"
    "only_inodes s1 s'" "\<forall>m<512. itab s' m = (if m div 8 \<in> set is then unused (itab s1 m) else itab s1 m)" by auto
  have "unused (unused x) = unused x" for x by (simp add: unused_def)
  then have "\<forall>m<512. itab s' m = (if m div 8 \<in> set (i # is) then unused (itab s m) else itab s m)" using s'(4) t1 by simp
  with one s' only_inodes_trans [OF s1(3)] show ?case by auto
qed

text \<open>The first block: the root directory, with the entry \<open>.\<close> in a block of its own.\<close>

definition dot :: "byte list \<Rightarrow> dir_t" where
  "dot junk = (dir_at junk 0)\<lparr>d_ino := 0, d_namlen := 1, d_name := (d_name (dir_at junk 0))[0 := 46]\<rparr>"

definition root_of :: "u32 \<Rightarrow> icommon_t \<Rightarrow> icommon_t" where
  "root_of a x = x\<lparr>ic_mode := IFDIR, ic_size := 32, ic_db := (ic_db x)[0 := a]\<rparr>"

lemma wf_dot: "length junk = 512 \<Longrightarrow> wf_dir (dot junk)"
  by (simp add: dot_def wf_dir_def dir_at_def bytes_dir_def)

lemma wipe_block_root:
  assumes al: "alloc_inv s (x # xs)" and junk: "length junk = 512"
  shows "\<exists>s'. wipe_block junk 0 s = Some s' \<and> alloc_inv s' xs \<and> store.more s' = store.more s
    \<and> blk s' x = put_dir junk 0 (dot junk) \<and> itab s' 0 = root_of x (itab s 0)
    \<and> (\<forall>m<512. m \<noteq> 0 \<longrightarrow> itab s' m = (if m div 8 = 0 then unused (itab s m) else itab s m))"
proof -
  have f: "formatted s" using al by (simp add: alloc_inv_def)
  note b = inode_block [OF f, of 0, simplified]
  let ?ic = "blk s (iblock 0)"
  from balloc_Cons [OF al] obtain s1 where s1: "balloc s = Some (x, s1)" "alloc_inv s1 xs" "same_data s s1" by blast
  have x: "data_addr x" "x \<notin> set xs" using al by (auto simp: alloc_inv_def)
  note wd = wf_dot [OF junk]
  let ?s2 = "s1\<lparr>dsk := (dsk s1)\<lparr>dblk := (blk s1)(x := put_dir junk 0 (dot junk))\<rparr>\<rparr>"
  have lj: "length (put_dir junk 0 (dot junk)) = 512" using junk wd by simp
  note w = data_write [OF s1(2) x lj]
  have f2: "formatted ?s2" using w(2) by (simp add: alloc_inv_def)
  let ?ic1 = "put_ic ?ic 0 (root_of x (ic_at ?ic 0))"
  have wr: "wf_ic (root_of x (ic_at ?ic 0))" using wf_ic_at [of ?ic 0] by (simp add: root_of_def wf_ic_def)
  have one: "wipe_inode junk 0 0 (?ic, s) = Some (?ic1, ?s2)"
    using s1(1) w(1) by (simp add: wipe_inode_def root_of_def dot_def Let_def)
  have l1: "length ?ic1 = 512" using b(4) wr by simp
  from wipe_rest [OF l1, of "[1..<8]" 0 junk ?s2] obtain ic where
    ic: "for_each [1..<8] (wipe_inode junk 0) (?ic1, ?s2) = Some (ic, ?s2)" "length ic = 512"
      "\<forall>m<8. ic_at ic m = (if m = 0 then root_of x (ic_at ?ic 0) else unused (ic_at ?ic m))"
    using b(4) wr by (auto simp: ic_at_put_ic simp del: upt_rec_numeral)
  have eight: "[0..<8] = 0 # [1..<8]" by (simp add: upt_conv_Cons)
  from write_inode_block [OF w(2), of 0 ic] ic(2) obtain s' where
    s': "kwrite (iblock 0) ic ?s2 = Some s'" "alloc_inv s' xs" "only_inodes ?s2 s'"
      "\<forall>m<512. itab s' m = (if m div 8 = 0 then ic_at ic (m mod 8) else itab ?s2 m)" by auto
  have run: "wipe_block junk 0 s = Some s'"
    using b one ic(1) s'(1) inode_block(1) [OF f2, of 0] unfolding wipe_block_def eight by simp
  have i2: "itab ?s2 m = itab s m" if "m < 512" for m using w(3) [OF that] balloc_meta(2) [OF s1(3) that] by simp
  have "ic_at ?ic m = itab s m" if "m < 8" for m
  proof -
    have "iblock m = iblock 0" using that by (simp add: iblock_def)
    then show ?thesis using that by (simp add: itab_def)
  qed
  then have "itab s' 0 = root_of x (itab s 0)"
    "\<forall>m<512. m \<noteq> 0 \<longrightarrow> itab s' m = (if m div 8 = 0 then unused (itab s m) else itab s m)"
    using s'(4) ic(3) i2 by auto
  moreover have "store.more s' = store.more s" using s'(3) s1(3) by (simp add: only_inodes_def same_data_def)
  moreover have "\<forall>n<512. x \<noteq> iblock n" using x(1) iblock_not_data by blast
  then have "blk s' x = put_dir junk 0 (dot junk)" using s'(3) by (simp add: only_inodes_def)
  ultimately show ?thesis using run s'(2) by blast
qed


lemma wipe_inodes_ok:
  fixes s :: "'a store_scheme"
  assumes al: "alloc_inv s (x # xs)" and junk: "length junk = 512"
  shows "\<exists>s'. wipe_inodes junk s = Some s' \<and> root_inv s' 1 xs \<and> entries s' (itab s' 0) 1 = [dot junk]
    \<and> (\<forall>m<512. m \<noteq> 0 \<longrightarrow> ic_mode (itab s' m) = IFZERO) \<and> store.more s' = store.more s"
proof -
  from wipe_block_root [OF assms] obtain s1 where s1: "wipe_block junk 0 s = Some s1" "alloc_inv s1 xs"
    "store.more s1 = store.more s" "blk s1 x = put_dir junk 0 (dot junk)" "itab s1 0 = root_of x (itab s 0)"
    "\<forall>m<512. m \<noteq> 0 \<longrightarrow> itab s1 m = (if m div 8 = 0 then unused (itab s m) else itab s m)" by blast
  from wipe_blocks [OF s1(2), of "[1..<64]" junk] obtain s' where
    s': "for_each [1..<64] (wipe_block junk) s1 = Some s'" "alloc_inv s' xs" "only_inodes s1 s'"
      "\<forall>m<512. itab s' m = (if m div 8 \<in> set [1..<64] then unused (itab s1 m) else itab s1 m)" by (auto simp del: upt_rec_numeral)
  have run: "wipe_inodes junk s = Some s'"
    using s1(1) s'(1) by (simp add: wipe_inodes_eq upt_conv_Cons [of 0 64] del: upt_rec_numeral)
  have x: "data_addr x" "x \<notin> set xs" and f: "formatted s" using al by (auto simp: alloc_inv_def)
  let ?r = "root_of x (itab s 0)"
  have r: "itab s' 0 = ?r" using s'(4) s1(5) by simp
  have "ic_mode (itab s' m) = IFZERO" if "m < 512" "m \<noteq> 0" for m
    using s'(4) s1(6) that by (cases "m div 8 = 0") (auto simp: unused_def simp del: upt_rec_numeral)
  moreover have wr: "wf_ic ?r" using wf_ic_at by (simp add: root_of_def itab_def wf_ic_def)
  have db: "ic_db ?r ! 0 = x" using wr by (simp add: root_of_def wf_ic_def)
  have "distinct xs" using al by (simp add: alloc_inv_def)
  then have "file_inv s' ?r 1 xs" using wr db x by (simp add: file_inv_def file_blocks_def fblk_def)
  then have "root_inv s' 1 xs" using s'(2) r by (simp add: root_inv_def dir_inv_def dir_nblocks_def root_of_def)
  moreover have "\<forall>n<512. x \<noteq> iblock n" using x(1) iblock_not_data by blast
  then have "blk s' x = put_dir junk 0 (dot junk)" using s'(3) s1(4) by (simp add: only_inodes_def)
  then have "dirent s' ?r 0 = dot junk"
    using db junk wf_dot [OF junk] by (simp add: dirent_def fblk_def dir_at_put_dir)
  then have "entries s' (itab s' 0) 1 = [dot junk]" using r by (simp add: entries_def)
  moreover have "store.more s' = store.more s" using s'(3) s1(3) by (simp add: only_inodes_def)
  ultimately show ?thesis using run by blast
qed

section \<open>The program files\<close>

text \<open>An entry written under a name matches no other name, unless one is a prefix of the other.\<close>

lemma not_matches:
  assumes "unat (d_namlen d) = length m" and "take (length m) (d_name d) = m"
    and "take (min (length name) (length m)) name \<noteq> take (min (length name) (length m)) m"
  shows "\<not> matches name d"
proof
  assume "matches name d"
  then have n: "take (length name) (d_name d) = name" by (simp add: matches_def)
  have "take (min (length name) (length m)) name = take (min (length name) (length m)) (d_name d)"
    using n by (metis min.cobounded1 min_def take_take)
  moreover have "take (min (length name) (length m)) m = take (min (length name) (length m)) (d_name d)"
    using assms(2) by (metis min.cobounded2 min.absorb1 take_take)
  ultimately show False using assms(3) by simp
qed

text \<open>The disk after some of the program files have been created: file \<open>i\<close> has inode \<open>i + 1\<close> and
  entry \<open>i + 1\<close> of the root directory.\<close>

definition has_objs :: "(byte list \<Rightarrow> u32) \<Rightarrow> byte list list \<Rightarrow> u32 list \<Rightarrow> byte list \<Rightarrow> ('h, 'a) kernel_scheme \<Rightarrow> bool" where
  "has_objs entry names xs junk s \<longleftrightarrow> root_inv s (Suc (length names)) xs
     \<and> (\<forall>m<512. ic_mode (itab s m) = IFZERO \<longleftrightarrow> length names < m)
     \<and> (\<exists>ds. entries s (itab s 0) (Suc (length names)) = dot junk # ds \<and> length ds = length names
          \<and> (\<forall>i<length names. d_ino (ds ! i) = of_nat (Suc i) \<and> unat (d_namlen (ds ! i)) = length (names ! i)
               \<and> take (length (names ! i)) (d_name (ds ! i)) = names ! i))
     \<and> (\<forall>i<length names. content (itab s (Suc i)) s = u32_bytes (entry (names ! i)) @ u32_bytes 1
          \<and> ic_size (itab s (Suc i)) = 8 \<and> file_inv s (itab s (Suc i)) 1 xs \<and> ic_db (itab s (Suc i)) ! 0 \<noteq> ic_db (itab s 0) ! 0)"


lemma dot_not_matches: "hd name \<noteq> 46 \<Longrightarrow> name \<noteq> [] \<Longrightarrow> length junk = 512 \<Longrightarrow> \<not> matches name (dot junk)"
proof
  assume a: "hd name \<noteq> 46" "name \<noteq> []" "length junk = 512" "matches name (dot junk)"
  then have "take (length name) (d_name (dot junk)) = name" by (simp add: matches_def)
  moreover have "d_name (dot junk) \<noteq> []" using wf_dot [OF a(3)] by (auto simp: wf_dir_def)
  ultimately have "hd name = hd (d_name (dot junk))" using a(2) by (metis hd_take length_greater_0_conv)
  moreover have "hd (d_name (dot junk)) = 46"
    using \<open>d_name (dot junk) \<noteq> []\<close> by (simp add: dot_def hd_conv_nth)
  ultimately show False using a(1) by simp
qed

text \<open>Names that can be told apart from each other in every directory block.\<close>

definition apart :: "byte list \<Rightarrow> byte list \<Rightarrow> bool" where
  "apart m n \<longleftrightarrow> take (min (length m) (length n)) m \<noteq> take (min (length m) (length n)) n"

definition obj_name :: "byte list \<Rightarrow> bool" where
  "obj_name n \<longleftrightarrow> good_name n \<and> hd n \<noteq> 46"

lemma create_obj_step:
  fixes s :: "('h, 'a) kernel_scheme"
  assumes inv: "tables_inv s" and fs: "free_slots s c f j k" and idle: "\<forall>y \<in> set (ai s). ic_mode (i_ic y) = IFZERO"
    and ho: "has_objs entry names (x # xs) junk s" and nm: "obj_name name" "\<forall>m \<in> set names. apart name m"
    and n: "length names < 14" and junk: "length junk = 512"
  shows "\<exists>s'. create_obj name (entry name) s = Some s' \<and> tables_kept k s s' \<and> has_objs entry (names @ [name]) xs junk s'"
proof -
  let ?n = "length names"
  obtain ds where ri: "root_inv s (Suc ?n) (x # xs)" and modes: "\<forall>m<512. ic_mode (itab s m) = IFZERO \<longleftrightarrow> ?n < m"
    and ent: "entries s (itab s 0) (Suc ?n) = dot junk # ds" "length ds = ?n"
      "\<forall>i<?n. d_ino (ds ! i) = of_nat (Suc i) \<and> unat (d_namlen (ds ! i)) = length (names ! i)
               \<and> take (length (names ! i)) (d_name (ds ! i)) = names ! i"
    and old: "\<forall>i<?n. content (itab s (Suc i)) s = u32_bytes (entry (names ! i)) @ u32_bytes 1
          \<and> ic_size (itab s (Suc i)) = 8 \<and> file_inv s (itab s (Suc i)) 1 (x # xs) \<and> ic_db (itab s (Suc i)) ! 0 \<noteq> ic_db (itab s 0) ! 0"
    using ho unfolding has_objs_def by blast
  have gn: "good_name name" and h: "hd name \<noteq> 46" "name \<noteq> []" using nm(1) by (simp_all add: obj_name_def good_name_def)
  have "\<not> matches name (ds ! i)" if "i < ?n" for i
  proof -
    have "apart name (names ! i)" using nm(2) that by simp
    then show ?thesis using not_matches [of "ds ! i" "names ! i" name] ent(3) that by (simp add: apart_def)
  qed
  then have new: "\<forall>e \<in> set (entries s (itab s 0) (Suc ?n)). \<not> matches name e"
    using dot_not_matches [OF h junk] ent(1,2) by (auto simp: in_set_conv_nth)
  have free: "find (\<lambda>k. ic_mode (itab s k) = IFZERO) [0..<512] = Some (Suc ?n)"
    using modes n by (intro find_upt_SomeI) auto
  have no: "\<forall>y \<in> set (ai s). i_number y = of_nat (Suc ?n) \<longrightarrow> ic_mode (i_ic y) = IFZERO" using idle by blast
  have nn: "Suc ?n < 16 * 11" "Suc ?n mod 16 \<noteq> 0" using n by simp_all
  from create_obj_ok [OF inv fs ri gn new free no nn] obtain s' d where
    c: "create_obj name (entry name) s = Some s'" "tables_kept k s s'" "root_inv s' (Suc (Suc ?n)) xs"
      "entries s' (itab s' 0) (Suc (Suc ?n)) = entries s (itab s 0) (Suc ?n) @ [d]" "d_ino d = of_nat (Suc ?n)"
      "unat (d_namlen d) = length name" "take (length name) (d_name d) = name"
      "content (itab s' (Suc ?n)) s' = u32_bytes (entry name) @ u32_bytes 1" "ic_mode (itab s' (Suc ?n)) = IFREG"
      "ic_size (itab s' (Suc ?n)) = 8" "ic_db (itab s' (Suc ?n)) ! 0 = x" "file_inv s' (itab s' (Suc ?n)) 1 xs"
      "ic_db (itab s' 0) = ic_db (itab s 0)" "\<forall>m<512. m \<noteq> 0 \<and> m \<noteq> Suc ?n \<longrightarrow> itab s' m = itab s m"
      "\<forall>a. data_addr a \<and> a \<notin> set (x # xs) \<and> a \<notin> set (file_blocks s (itab s 0) (dir_nblocks (Suc ?n))) \<longrightarrow> blk s' a = blk s a"
    by blast
  have dirm: "ic_mode (itab s' 0) = IFDIR" using c(3) by (simp add: root_inv_def)
  have nb: "dir_nblocks (Suc ?n) = 1" using n by (simp add: dir_nblocks_def)
  have R: "set (file_blocks s (itab s 0) (dir_nblocks (Suc ?n))) = {ic_db (itab s 0) ! 0}"
    unfolding nb by (simp add: set_file_blocks fblk_def)
  have "file_inv s (itab s 0) (dir_nblocks (Suc ?n)) (x # xs)" using ri by (simp add: root_inv_def dir_inv_def)
  then have x0: "x \<noteq> ic_db (itab s 0) ! 0" using R unfolding nb file_inv_def by auto
  have modes': "\<forall>m<512. ic_mode (itab s' m) = IFZERO \<longleftrightarrow> length (names @ [name]) < m"
  proof (intro allI impI)
    fix m :: nat assume "m < 512"
    then show "ic_mode (itab s' m) = IFZERO \<longleftrightarrow> length (names @ [name]) < m"
      using modes c(9,14) dirm by (cases "m = 0"; cases "m = Suc ?n") auto
  qed
  have keep: "content (itab s' (Suc i)) s' = u32_bytes (entry (names ! i)) @ u32_bytes 1 \<and> ic_size (itab s' (Suc i)) = 8
      \<and> file_inv s' (itab s' (Suc i)) 1 xs \<and> ic_db (itab s' (Suc i)) ! 0 \<noteq> ic_db (itab s' 0) ! 0" if i: "i < ?n" for i
  proof -
    have it: "itab s' (Suc i) = itab s (Suc i)" using c(14) i n by simp
    have fi: "file_inv s (itab s (Suc i)) 1 (x # xs)" and o: "ic_size (itab s (Suc i)) = 8"
      "ic_db (itab s (Suc i)) ! 0 \<noteq> ic_db (itab s 0) ! 0" using old i by blast+
    let ?a = "ic_db (itab s (Suc i)) ! 0"
    have "data_addr ?a" "?a \<notin> set (x # xs)" using file_inv_fblk(1,2) [OF fi, of 0] by (simp_all add: fblk_def)
    then have "blk s' ?a = blk s ?a" using c(15) R o(2) by simp
    then have "content (itab s (Suc i)) s' = content (itab s (Suc i)) s"
      using o(1) by (simp add: content_def fbyte_def fblk_def)
    moreover have "file_inv s' (itab s (Suc i)) 1 xs"
      using file_inv_same(1) [OF file_inv_drop [OF fi, of 1], of s'] by simp
    ultimately show ?thesis using old i o it c(13) by simp
  qed
  have "content (itab s' (Suc i)) s' = u32_bytes (entry ((names @ [name]) ! i)) @ u32_bytes 1 \<and> ic_size (itab s' (Suc i)) = 8
      \<and> file_inv s' (itab s' (Suc i)) 1 xs \<and> ic_db (itab s' (Suc i)) ! 0 \<noteq> ic_db (itab s' 0) ! 0" if "i < Suc ?n" for i
    using keep [of i] that c(8,10-13) x0 by (cases "i = ?n") (simp_all add: nth_append)
  moreover have "entries s' (itab s' 0) (Suc (Suc ?n)) = dot junk # ds @ [d]" using c(4) ent(1) by simp
  moreover have "d_ino ((ds @ [d]) ! i) = of_nat (Suc i) \<and> unat (d_namlen ((ds @ [d]) ! i)) = length ((names @ [name]) ! i)
      \<and> take (length ((names @ [name]) ! i)) (d_name ((ds @ [d]) ! i)) = (names @ [name]) ! i" if "i < Suc ?n" for i
    using ent(2,3) c(5-7) that by (cases "i = ?n") (simp_all add: nth_append)
  ultimately have "has_objs entry (names @ [name]) xs junk s'"
    unfolding has_objs_def using c(3) modes' ent(2) by (intro conjI exI [of _ "ds @ [d]"]) simp_all
  with c(1,2) show ?thesis by blast
qed


lemma create_objs:
  fixes s :: "('h, 'a) kernel_scheme"
  assumes "tables_inv s" and "free_slots s c f j k" and "\<forall>y \<in> set (ai s). ic_mode (i_ic y) = IFZERO"
    and "has_objs entry names xs junk s" and "\<forall>n \<in> set new. obj_name n" and "sorted_wrt (\<lambda>m n. apart n m) (names @ new)"
    and "length names + length new \<le> 14" and "length junk = 512" and "length new \<le> length xs"
  shows "\<exists>s'. for_each new (\<lambda>n. create_obj n (entry n)) s = Some s' \<and> tables_inv s' \<and> free_slots s' c f j k \<and> pcb s' = pcb s
    \<and> (\<forall>y \<in> set (ai s'). ic_mode (i_ic y) = IFZERO) \<and> has_objs entry (names @ new) (drop (length new) xs) junk s'"
  using assms
proof (induction new arbitrary: s names xs)
  case (Cons n new)
  obtain x ys where xs: "xs = x # ys" using Cons.prems(9) by (cases xs) auto
  have ho: "has_objs entry names (x # ys) junk s" using Cons.prems(4) by (simp add: xs)
  have n: "obj_name n" "\<forall>m \<in> set names. apart n m" "length names < 14" using Cons.prems(5-7) by (simp_all add: sorted_wrt_append)
  from create_obj_step [OF Cons.prems(1-3) ho n Cons.prems(8)] obtain s1 where
    s1: "create_obj n (entry n) s = Some s1" "tables_kept k s s1" "has_objs entry (names @ [n]) ys junk s1" by blast
  note t = tables_keptD [OF s1(2) Cons.prems(2)]
  obtain d g y where y: "s1 = s\<lparr>dsk := d, fs := g, ai := (ai s)[k := y]\<rparr>" "ic_mode (i_ic y) = IFZERO"
    using s1(2) unfolding tables_kept_def by blast
  have idle: "\<forall>y \<in> set (ai s1). ic_mode (i_ic y) = IFZERO"
    using Cons.prems(3) y(2) set_update_subset_insert [of "ai s" k y] unfolding y(1) by auto
  have "sorted_wrt (\<lambda>m n. apart n m) ((names @ [n]) @ new)" "\<forall>n \<in> set new. obj_name n"
    "length (names @ [n]) + length new \<le> 14" "length new \<le> length ys" using Cons.prems(5-9) by (simp_all add: xs)
  from Cons.IH [OF t(2) [OF Cons.prems(1)] t(1) idle s1(3) this(2,1,3) Cons.prems(8) this(4)] obtain s' where
    "for_each new (\<lambda>n. create_obj n (entry n)) s1 = Some s'" "tables_inv s'" "free_slots s' c f j k" "pcb s' = pcb s1"
    "\<forall>y \<in> set (ai s'). ic_mode (i_ic y) = IFZERO" "has_objs entry ((names @ [n]) @ new) (drop (length new) ys) junk s'" by blast
  moreover have "pcb s1 = pcb s" by (simp add: y(1))
  ultimately show ?case using s1(1) by (simp add: xs)
qed simp

text \<open>Every program file can be started.\<close>

lemma has_objs_exec:
  fixes s :: "('h, 'a) kernel_scheme"
  assumes inv: "tables_inv s" and fs: "free_slots s c f j k" and idle: "\<forall>y \<in> set (ai s). ic_mode (i_ic y) = IFZERO"
    and ho: "has_objs entry names xs junk s" and nm: "\<forall>n \<in> set names. obj_name n" "sorted_wrt (\<lambda>m n. apart n m) names"
    and len: "length names < 15" "length junk = 512" and name: "name \<in> set names"
  shows "\<exists>s'. exec tos_init cx name s = Some (0, ctx (started tos_init (pid (pcb s ! c)) (entry name) 1), s')"
proof -
  let ?n = "length names"
  obtain ds where ri: "root_inv s (Suc ?n) xs" and ent: "entries s (itab s 0) (Suc ?n) = dot junk # ds" "length ds = ?n"
      "\<forall>i<?n. d_ino (ds ! i) = of_nat (Suc i) \<and> unat (d_namlen (ds ! i)) = length (names ! i)
               \<and> take (length (names ! i)) (d_name (ds ! i)) = names ! i"
    and old: "\<forall>i<?n. content (itab s (Suc i)) s = u32_bytes (entry (names ! i)) @ u32_bytes 1
          \<and> ic_size (itab s (Suc i)) = 8 \<and> file_inv s (itab s (Suc i)) 1 xs"
    using ho unfolding has_objs_def by blast
  obtain i where i: "i < ?n" "name = names ! i" using name by (metis in_set_conv_nth)
  have gn: "good_name name" and h: "hd name \<noteq> 46" "name \<noteq> []" using nm(1) name by (auto simp: obj_name_def good_name_def)
  have miss: "\<not> matches name (ds ! q)" if "q < i" for q
  proof -
    have "apart name (names ! q)" using nm(2) that i by (simp add: sorted_wrt_iff_nth_less)
    then show ?thesis using not_matches [of "ds ! q" "names ! q" name] ent(3) that i(1) by (simp add: apart_def)
  qed
  have hit: "matches name (ds ! i)" using matches_new ent(3) i by blast
  have "visible (Suc ?n) = Suc ?n" using len(1) by (simp add: visible_def)
  moreover have "find (matches name) (dot junk # ds) = Some (ds ! i)"
    using dot_not_matches [OF h len(2)] hit miss i(1) ent(2)
    by (auto simp: find_Some_iff less_Suc_eq_0_disj intro!: exI [of _ i])
  ultimately have f: "find (matches name) (take (visible (Suc ?n)) (entries s (itab s 0) (Suc ?n))) = Some (ds ! i)"
    using ent(1,2) by simp
  have ino: "d_ino (ds ! i) = of_nat (Suc i)" using ent(3) i(1) by blast
  have "unat (of_nat (Suc i) :: u32) = Suc i" using i(1) len(1) by (intro unat_of_nat_u32) simp
  then have u: "unat (d_ino (ds ! i)) = Suc i" by (simp only: ino)
  have fi: "file_inv s (itab s (Suc i)) (nblocks (ic_size (itab s (Suc i)))) xs" using old i(1) by (simp add: word_sizes)
  have ct: "content (itab s (Suc i)) s = u32_bytes (entry name) @ u32_bytes 1 @ []" using old i by simp
  have "unat (d_ino (ds ! i)) < 512" using u i(1) len(1) by simp
  moreover have "\<forall>x \<in> set (ai s). i_number x = d_ino (ds ! i) \<longrightarrow> ic_mode (i_ic x) = IFZERO" using idle by blast
  ultimately show ?thesis
    using exec_started [OF inv fs ri gn f, of "entry name" 1 "[]" tos_init cx] fi ct u by auto
qed

section \<open>Formatting\<close>

definition obj_names :: "byte list list" where
  "obj_names = [str ''P0'', str ''P1'', str ''P2'', str ''het'', str ''ping'', str ''pong'', str ''blanks'', str ''hashs'']"

lemma obj_names_ok: "\<forall>n \<in> set obj_names. obj_name n" "sorted_wrt (\<lambda>m n. apart n m) obj_names" "length obj_names = 8"
  by (simp_all add: obj_names_def obj_name_def good_name_def apart_def str_def)

text \<open>C36. Formatting the disk. On any disk of 2048 blocks, whatever it holds and whatever the
  uninitialised locals of \<open>wipe\<close> hold, and with no file open, \<open>wipe\<close> succeeds. The disk then has
  a root directory with nine entries, the first nine blocks of the free list are in use, and
  each of the eight programs can be started by name: \<open>exec\<close> continues the current process at
  the program's address with priority 1.\<close>

theorem wipe_spec:
  fixes s :: "('h, 'a) kernel_scheme"
  assumes "wf_store s" and "dnum (dsk s) = 2048" and "tables_inv s" and "free_slots s c f j k"
    and "\<forall>y \<in> set (ai s). ic_mode (i_ic y) = IFZERO" and "length junk = 512"
  shows "\<exists>s'. wipe junk entry s = Some s' \<and> root_inv s' 9 (drop 9 wipe_order) \<and> pcb s' = pcb s
    \<and> (\<forall>name \<in> set obj_names. \<forall>tos_init cx. \<exists>s''.
        exec tos_init cx name s' = Some (0, ctx (started tos_init (pid (pcb s ! c)) (entry name) 1), s''))"
proof -
  from wipe_super_inv [OF assms(1,2)] obtain s1 where s1: "wipe_super s = Some s1" "alloc_inv s1 wipe_order" "store.more s1 = store.more s"
    by blast
  have wo: "wipe_order = 2047 # drop 1 wipe_order" using wipe_order_hd by (metis One_nat_def drop0 drop_Suc_Cons)
  have al: "alloc_inv s1 (2047 # drop 1 wipe_order)" using s1(2) wo by metis
  from wipe_inodes_ok [OF al assms(6)] obtain s2 where s2: "wipe_inodes junk s1 = Some s2" "root_inv s2 1 (drop 1 wipe_order)"
    "entries s2 (itab s2 0) 1 = [dot junk]" "\<forall>m<512. m \<noteq> 0 \<longrightarrow> ic_mode (itab s2 m) = IFZERO" "store.more s2 = store.more s1" by blast
  obtain d g where eq: "s2 = s\<lparr>dsk := d, fs := g\<rparr>" using store_eq [of s2 s] s1(3) s2(5) by metis
  have "ic_mode (itab s2 0) \<noteq> IFZERO" using s2(2) by (simp add: root_inv_def)
  then have "\<forall>m<512. ic_mode (itab s2 m) = IFZERO \<longleftrightarrow> 0 < m" using s2(4) by (metis neq0_conv)
  then have ho: "has_objs entry [] (drop 1 wipe_order) junk s2" using s2(2,3) by (simp add: has_objs_def)
  have t: "tables_inv s2" "free_slots s2 c f j k" "\<forall>y \<in> set (ai s2). ic_mode (i_ic y) = IFZERO"
    using assms(3-5) by (simp_all add: eq tables_inv_def free_slots_def)
  have "length wipe_order = 1981" by (rule length_wipe_order)
  then have l: "length [] + length obj_names \<le> 14" "length obj_names \<le> length (drop 1 wipe_order)" by (simp_all add: obj_names_ok)
  from create_objs [OF t ho obj_names_ok(1) _ l(1) assms(6) l(2)] obtain s3 where
    s3: "for_each obj_names (\<lambda>n. create_obj n (entry n)) s2 = Some s3" "tables_inv s3" "free_slots s3 c f j k" "pcb s3 = pcb s2"
      "\<forall>y \<in> set (ai s3). ic_mode (i_ic y) = IFZERO" "has_objs entry obj_names (drop 8 (drop 1 wipe_order)) junk s3"
    by (auto simp: obj_names_ok)
  have "wipe junk entry s = Some s3" using s1(1) s2(1) s3(1) by (simp add: wipe_def createObjFiles_def obj_names_def)
  moreover have "root_inv s3 9 (drop 9 wipe_order)" using s3(6) by (simp add: has_objs_def obj_names_ok(3))
  moreover have p: "pcb s3 = pcb s" using s3(4) by (simp add: eq)
  moreover have "\<exists>s''. exec tos_init cx name s3 = Some (0, ctx (started tos_init (pid (pcb s ! c)) (entry name) 1), s'')"
    if "name \<in> set obj_names" for name tos_init cx
    using has_objs_exec [OF s3(2,3,5,6) obj_names_ok(1,2) _ assms(6) that] p by (simp add: obj_names_ok(3))
  ultimately show ?thesis by blast
qed

theorem wipe_spec_witness:
  "\<exists>s'. wipe (replicate 512 0) (\<lambda>n. 7) desk = Some s' \<and> root_inv s' 9 (drop 9 wipe_order)
    \<and> (\<exists>s''. exec 4096 zero_ctx (str ''het'') s' = Some (0, ctx (started 4096 0 7 1), s''))"
proof -
  have fs: "free_slots desk 0 0 0 0" using desk_finds(3-5) by (simp add: free_slots_def) (simp add: desk_def inode_local_def)
  have idle: "\<forall>y \<in> set (ai desk). ic_mode (i_ic y) = IFZERO" by (simp add: desk_def inode_local_def)
  have "alloc_inv desk (tl wipe_order)" using rooted_root by (simp add: desk_as_rooted root_inv_def)
  then have "wf_store desk" "dnum (dsk desk) = 2048" by (simp_all add: alloc_inv_def formatted_def)
  moreover have "str ''het'' \<in> set obj_names" by (simp add: obj_names_def)
  moreover have "pid (pcb desk ! 0) = 0" by (simp add: desk_def zero_pcb_def)
  ultimately show ?thesis
    using wipe_spec [OF _ _ desk_tables fs idle, of "replicate 512 0" "\<lambda>n. 7"] by fastforce
qed

end
