(* ===== verification/Handlers.thy ===== *)
theory Handlers
  imports Format
begin

text \<open>
  The entry points of the kernel: \<open>kernel_handler_rst\<close>, \<open>kernel_handler_irq\<close> and
  \<open>kernel_handler_svc\<close> of \<open>src/kernel/kernel.c\<close>, with the device registers of
  \<open>src/device/SP804.h\<close>, \<open>GIC.h\<close> and \<open>PL011.h\<close> they use.

  A handler works on the interrupted context, which \<open>src/kernel/interrupt.s\<close> has saved and
  from which it resumes. Pointers in registers are addresses of the flat memory \<open>mem\<close>; a
  string runs to its first zero byte. A device register holds what was last stored in it;
  the interrupt acknowledge register holds the number of the pending interrupt.
\<close>

section \<open>Device registers\<close>

record SP804_t =
  Timer1Load :: u32
  Timer1Value :: u32
  Timer1Ctrl :: u32
  Timer1IntClr :: u32
  Timer1RIS :: u32
  Timer1MIS :: u32
  Timer1BGLoad :: u32
  Timer2Load :: u32
  Timer2Value :: u32
  Timer2Ctrl :: u32
  Timer2IntClr :: u32
  Timer2RIS :: u32
  Timer2MIS :: u32
  Timer2BGLoad :: u32
  TimerITCR :: u32
  TimerITOP :: u32
  timer_PeriphID :: "u32 list"
  timer_PCellID :: "u32 list"

record GICC_t =
  gicc_CTLR :: u32
  PMR :: u32
  BPR :: u32
  IAR :: u32
  EOIR :: u32
  RPR :: u32
  HPPIR :: u32

record GICD_t =
  gicd_CTLR :: u32
  TYPER :: u32
  ISENABLER :: "u32 list"
  ICENABLER :: "u32 list"
  ISPENDR :: "u32 list"
  ICPENDR :: "u32 list"
  ISACTIVER :: "u32 list"
  IPRIORITYR :: "u32 list"
  ITARGETSR :: "u32 list"
  ICFGR :: "u32 list"
  SGIR :: u32

text \<open>The control registers of the UART; its data and flag registers are the queues of
  \<open>uart\<close>.\<close>

record uart_ctrl =
  CR :: u32
  IFLS :: u32
  IMSC :: u32
  RIS :: u32
  MIS :: u32
  ICR :: u32

abbreviation (input) GIC_SOURCE_TIMER0 :: u32 where "GIC_SOURCE_TIMER0 \<equiv> 36"
abbreviation (input) GIC_SOURCE_UART0 :: u32 where "GIC_SOURCE_UART0 \<equiv> 44"

record 'h machine = "'h kernel" +
  TIMER0 :: SP804_t
  GICC0 :: GICC_t
  GICD0 :: GICD_t
  UART0_ctrl :: uart_ctrl
  irq_on :: bool

text \<open>What the linker, the stack and the user at the console decide: the address of the first
  program and the top of its stack, the addresses of the programs \<open>wipe\<close> installs, the
  contents of uninitialised locals, and the other end of the console line.\<close>

record 'h env =
  entry_init :: u32
  tos_init :: u32
  prog_entry :: "byte list \<Rightarrow> u32"
  stack_dir :: "byte list"
  stack_inode :: inode_t
  console :: "'h peer"

section \<open>Registers and strings of the caller\<close>

abbreviation (input) STDIO :: u32 where "STDIO \<equiv> 0x7FFFFFFF"

definition arg :: "nat \<Rightarrow> ctx_t \<Rightarrow> u32 option" where
  "arg i c = arr (gpr c) i"

definition set_r0 :: "u32 \<Rightarrow> ctx_t \<Rightarrow> ctx_t option" where
  "set_r0 r c = do {
     g \<leftarrow> arr_upd (gpr c) 0 r;
     Some (c\<lparr>gpr := g\<rparr>)
   }"

text \<open>The string at an address; \<open>None\<close> when no zero byte ends it.\<close>

partial_function (option) cstr :: "(u32 \<Rightarrow> byte) \<Rightarrow> u32 \<Rightarrow> byte list option" where
  "cstr m a = (if m a = 0 then Some []
     else do {
       r \<leftarrow> cstr m (a + 1);
       Some (m a # r)
     })"

text \<open>The characters of a string after \<open>strtok\<close> has returned \<open>n\<close> tokens: the separator behind
  each of them has become a zero byte. The flag tells that a token has begun.\<close>

fun cut_tokens :: "nat \<Rightarrow> bool \<Rightarrow> byte list \<Rightarrow> byte list" where
  "cut_tokens n b [] = []"
| "cut_tokens n False (c # cs) = (if c = 47 then c # cut_tokens n False cs
     else if n = 0 then c # cs else c # cut_tokens n True cs)"
| "cut_tokens n True (c # cs) = (if c = 47 then 0 # cut_tokens (n - 1) False cs else c # cut_tokens n True cs)"

text \<open>What the loop over the components of a path leaves in memory: \<open>strtok\<close> has been called
  until there was no token or, after a name that was not found, once more.\<close>

definition cut_path :: "u32 \<Rightarrow> byte list \<Rightarrow> u32 \<Rightarrow> 'a chans_scheme \<Rightarrow> 'a chans_scheme option" where
  "cut_path p path dir s = do {
     (rest, _) \<leftarrow> walk (tokens path) inode_local 0 [] dir s;
     let n = length (tokens path) - length rest + (if rest = [] then 0 else 1);
     Some (mem_write p (cut_tokens n False path) s)
   }"

section \<open>The console\<close>

definition put_con :: "byte \<Rightarrow> ('h, 'a) kernel_scheme \<Rightarrow> ('h, 'a) kernel_scheme" where
  "put_con x s = s\<lparr>uart0 := PL011_putc x (uart0 s)\<rparr>"

definition write_con :: "u32 \<Rightarrow> nat \<Rightarrow> ('h, 'a) kernel_scheme \<Rightarrow> ('h, 'a) kernel_scheme" where
  "write_con x n s = fold (\<lambda>i s. put_con (mem s (x + of_nat i)) s) [0..<n] s"

text \<open>Characters are echoed; a carriage return ends the loop and is echoed as a newline.\<close>

fun read_con :: "'h peer \<Rightarrow> nat \<Rightarrow> u32 \<Rightarrow> ('h, 'a) kernel_scheme \<Rightarrow> ('h, 'a) kernel_scheme option" where
  "read_con peer 0 x s = Some s"
| "read_con peer (Suc n) x s = do {
     (b, u) \<leftarrow> PL011_getc peer (uart0 s);
     let s = mem_write x [b] (s\<lparr>uart0 := u\<rparr>);
     (if b = 13 then Some (put_con 10 s) else read_con peer n (x + 1) (put_con b s))
   }"

section \<open>Supervisor calls\<close>

definition svc_write :: "ctx_t \<Rightarrow> ('h, 'a) kernel_scheme \<Rightarrow> (ctx_t \<times> ('h, 'a) kernel_scheme) option" where
  "svc_write c s = do {
     f \<leftarrow> arg 0 c;
     x \<leftarrow> arg 1 c;
     n \<leftarrow> arg 2 c;
     (if f = STDIO then do {
        c \<leftarrow> set_r0 n c;
        Some (c, write_con x (nat (sint n)) s)
      }
      else do {
        (r, s) \<leftarrow> fwrite f (mem_read s x (nat (sint n))) n s;
        c \<leftarrow> set_r0 r c;
        Some (c, s)
      })
   }"

definition svc_read :: "'h env \<Rightarrow> ctx_t \<Rightarrow> ('h, 'a) kernel_scheme \<Rightarrow> (ctx_t \<times> ('h, 'a) kernel_scheme) option" where
  "svc_read e c s = do {
     f \<leftarrow> arg 0 c;
     x \<leftarrow> arg 1 c;
     n \<leftarrow> arg 2 c;
     (if f = STDIO then do {
        s \<leftarrow> read_con (console e) (nat (sint n)) x s;
        c \<leftarrow> set_r0 n c;
        Some (c, s)
      }
      else do {
        (r, bytes, s) \<leftarrow> fread f n s;
        c \<leftarrow> set_r0 r c;
        Some (c, mem_write x bytes s)
      })
   }"

definition svc_exec :: "'h env \<Rightarrow> ctx_t \<Rightarrow> ('h, 'a) kernel_scheme \<Rightarrow> (ctx_t \<times> ('h, 'a) kernel_scheme) option" where
  "svc_exec e c s = do {
     p \<leftarrow> arg 0 c;
     path \<leftarrow> cstr (mem s) p;
     s \<leftarrow> cut_path p path ROOT_DIR s;
     (r, c, s) \<leftarrow> exec (tos_init e) c path s;
     c \<leftarrow> set_r0 r c;
     Some (c, s)
   }"

text \<open>The message queue calls: a call that has to wait gives up the processor.\<close>

definition or_wait :: "u32 \<Rightarrow> ctx_t \<Rightarrow> 'a procs_scheme \<Rightarrow> (ctx_t \<times> 'a procs_scheme) option" where
  "or_wait r c s = do {
     c \<leftarrow> set_r0 r c;
     (if r = -1 then scheduler c s else Some (c, s))
   }"

definition svc_send :: "ctx_t \<Rightarrow> 'a chans_scheme \<Rightarrow> (ctx_t \<times> 'a chans_scheme) option" where
  "svc_send c s = do {
     d \<leftarrow> arg 0 c;
     x \<leftarrow> arg 1 c;
     n \<leftarrow> arg 2 c;
     (r, s) \<leftarrow> mq_send d x n s;
     or_wait r c s
   }"

definition svc_receive :: "ctx_t \<Rightarrow> 'a chans_scheme \<Rightarrow> (ctx_t \<times> 'a chans_scheme) option" where
  "svc_receive c s = do {
     d \<leftarrow> arg 0 c;
     x \<leftarrow> arg 1 c;
     n \<leftarrow> arg 2 c;
     (r, s) \<leftarrow> mq_receive d x n s;
     or_wait r c s
   }"

definition svc_open :: "ctx_t \<Rightarrow> ('h, 'a) kernel_scheme \<Rightarrow> (ctx_t \<times> ('h, 'a) kernel_scheme) option" where
  "svc_open c s = do {
     p \<leftarrow> arg 0 c;
     oflag \<leftarrow> arg 1 c;
     f \<leftarrow> getFD s;
     (if f = -1 then do {
        c \<leftarrow> set_r0 (-1) c;
        Some (c, s)
      }
      else do {
        path \<leftarrow> cstr (mem s) p;
        s \<leftarrow> cut_path p path ROOT_DIR s;
        (r, s) \<leftarrow> open_file path oflag s;
        c \<leftarrow> set_r0 r c;
        Some (c, s)
      })
   }"

text \<open>\<open>ls\<close> reads the direct blocks of the working directory: the first bytes of \<open>d_name\<close>, as many
  as \<open>d_namlen\<close> says, and a newline for each entry.\<close>

definition print_entry :: "dir_t \<Rightarrow> ('h, 'a) kernel_scheme \<Rightarrow> ('h, 'a) kernel_scheme option" where
  "print_entry d s = do {
     s \<leftarrow> for_each [0..<unat (d_namlen d)] (\<lambda>k s. do {
            x \<leftarrow> arr (d_name d) k;
            Some (put_con x s)
          }) s;
     Some (put_con 10 s)
   }"

definition ls_visits :: "u32 \<Rightarrow> (nat \<times> nat) list" where
  "ls_visits sz =
     (let dirs = int (unat (sz div 32));
          blks = c_div (dirs - 1) 16 + 1
      in map (\<lambda>i. (i, 16)) [0..<nat (blks - 1)] @ [(nat (blks - 1), nat (dirs mod 16))])"

text \<open>The loop over the blocks, with the buffer \<open>dir\<close>.\<close>

fun ls_blocks :: "icommon_t \<Rightarrow> (nat \<times> nat) list \<Rightarrow> byte list option \<Rightarrow> ('h, 'a) kernel_scheme \<Rightarrow> ('h, 'a) kernel_scheme option" where
  "ls_blocks ic [] buf s = Some s"
| "ls_blocks ic ((i, n) # vs) buf s = do {
     a \<leftarrow> arr (ic_db ic) i;
     block \<leftarrow> (case buf of None \<Rightarrow> kread s a | Some b \<Rightarrow> kread_into s a b);
     s \<leftarrow> for_each [0..<n] (\<lambda>j. print_entry (dir_at block j)) s;
     ls_blocks ic vs (Some block) s
   }"

definition svc_ls :: "'h env \<Rightarrow> ('h, 'a) kernel_scheme \<Rightarrow> ('h, 'a) kernel_scheme option" where
  "svc_ls e s = do {
     inode \<leftarrow> readInode (stack_inode e) (cwd s) s;
     ls_blocks (i_ic inode) (ls_visits (ic_size (i_ic inode))) None s
   }"

text \<open>The block of a new directory, in a local array that starts with arbitrary bytes.\<close>

definition dot_entries :: "byte list \<Rightarrow> u32 \<Rightarrow> u32 \<Rightarrow> byte list" where
  "dot_entries b self par =
     (let d = dir_at b 0;
          b = put_dir b 0 (d\<lparr>d_ino := self, d_namlen := 1, d_name := (d_name d)[0 := 46]\<rparr>);
          d = dir_at b 1
      in put_dir b 1 (d\<lparr>d_ino := par, d_namlen := 2, d_name := (d_name d)[0 := 46, 1 := 46]\<rparr>))"

definition svc_mkdir :: "'h env \<Rightarrow> ctx_t \<Rightarrow> ('h, 'a) kernel_scheme \<Rightarrow> (ctx_t \<times> ('h, 'a) kernel_scheme) option" where
  "svc_mkdir e c s = do {
     r \<leftarrow> getFreeInode (stack_inode e) s;
     (case r of
        None \<Rightarrow> do {
          c \<leftarrow> set_r0 (-1) c;
          Some (c, s)
        }
      | Some child \<Rightarrow> do {
          parent \<leftarrow> readInode (stack_inode e) (cwd s) s;
          (a, s) \<leftarrow> balloc s;
          db \<leftarrow> arr_upd (ic_db (i_ic child)) 0 a;
          let child = child\<lparr>i_ic := (i_ic child)\<lparr>ic_mode := IFDIR, ic_size := 64, ic_db := db\<rparr>\<rparr>;
          s \<leftarrow> kwrite a (dot_entries (stack_dir e) (i_number child) (i_number parent)) s;
          s \<leftarrow> writeInode child s;
          p \<leftarrow> arg 0 c;
          name \<leftarrow> cstr (mem s) p;
          (_, s) \<leftarrow> addInodeToDirectory parent (i_number child) name s;
          c \<leftarrow> set_r0 0 c;
          Some (c, s)
        })
   }"

definition svc_cd :: "ctx_t \<Rightarrow> ('h, 'a) kernel_scheme \<Rightarrow> (ctx_t \<times> ('h, 'a) kernel_scheme) option" where
  "svc_cd c s = do {
     p \<leftarrow> arg 0 c;
     path \<leftarrow> cstr (mem s) p;
     ino \<leftarrow> path_to_ino path (cwd s) s;
     s \<leftarrow> cut_path p path (cwd s) s;
     (if ino = -1 then do {
        c \<leftarrow> set_r0 (-1) c;
        Some (c, s)
      }
      else do {
        c \<leftarrow> set_r0 0 c;
        Some (c, s\<lparr>cwd := ino\<rparr>)
      })
   }"

text \<open>\<open>mv\<close> passes \<open>d_name\<close> of the removed entry on as a string: it ends at the first zero byte
  of the field, if there is one.\<close>

definition field_str :: "byte list \<Rightarrow> byte list option" where
  "field_str xs = (if 0 \<in> set xs then Some (takeWhile (\<lambda>c. c \<noteq> 0) xs) else None)"

definition mv_entry :: "inode_t \<Rightarrow> inode_t \<Rightarrow> byte list \<Rightarrow> ('h, 'a) kernel_scheme \<Rightarrow> ('h, 'a) kernel_scheme option" where
  "mv_entry dest inode name s = do {
     (r, d, _, s) \<leftarrow> remove inode name s;
     s \<leftarrow> (if r \<noteq> -1 then do {
             d \<leftarrow> d;
             name \<leftarrow> field_str (d_name d);
             (_, s) \<leftarrow> addInodeToDirectory dest (d_ino d) name s;
             Some s
           }
           else Some s);
     write_sb s
   }"

definition svc_mv :: "'h env \<Rightarrow> ctx_t \<Rightarrow> ('h, 'a) kernel_scheme \<Rightarrow> (ctx_t \<times> ('h, 'a) kernel_scheme) option" where
  "svc_mv e c s = do {
     p \<leftarrow> arg 0 c;
     q \<leftarrow> arg 1 c;
     (if mem s p = 46 then do {
        c \<leftarrow> set_r0 (-1) c;
        Some (c, s)
      }
      else do {
        path \<leftarrow> cstr (mem s) q;
        ino \<leftarrow> path_to_ino path ROOT_DIR s;
        s \<leftarrow> cut_path q path ROOT_DIR s;
        (if ino = -1 then Some (c, s)
         else do {
           dest \<leftarrow> readInode (stack_inode e) ino s;
           (if ic_mode (i_ic dest) \<noteq> IFDIR then Some (c, s)
            else do {
              inode \<leftarrow> readInode (stack_inode e) (cwd s) s;
              name \<leftarrow> cstr (mem s) p;
              s \<leftarrow> mv_entry dest inode name s;
              Some (c, s)
            })
         })
      })
   }"

text \<open>\<open>cp\<close> does not look at the result of \<open>copyInode\<close>: without a free inode the new entry gets
  whatever number the local variable holds.\<close>

definition svc_cp :: "'h env \<Rightarrow> ctx_t \<Rightarrow> ('h, 'a) kernel_scheme \<Rightarrow> (ctx_t \<times> ('h, 'a) kernel_scheme) option" where
  "svc_cp e c s = do {
     p \<leftarrow> arg 0 c;
     q \<leftarrow> arg 1 c;
     (if mem s p = 46 then do {
        c \<leftarrow> set_r0 (-1) c;
        Some (c, s)
      }
      else do {
        path \<leftarrow> cstr (mem s) p;
        ino \<leftarrow> path_to_ino path (cwd s) s;
        s \<leftarrow> cut_path p path (cwd s) s;
        (if ino = -1 then Some (c, s)
         else do {
           src \<leftarrow> readInode (stack_inode e) ino s;
           (if ic_mode (i_ic src) = IFZERO then Some (c, s)
            else do {
              (dest, s) \<leftarrow> copyInode (stack_inode e) src s;
              let dest = (case dest of None \<Rightarrow> stack_inode e | Some x \<Rightarrow> x);
              src \<leftarrow> readInode src (cwd s) s;
              name \<leftarrow> cstr (mem s) q;
              (_, s) \<leftarrow> addInodeToDirectory src (i_number dest) name s;
              s \<leftarrow> write_sb s;
              Some (c, s)
            })
         })
      })
   }"

text \<open>A call whose result goes to \<open>r0\<close>.\<close>

definition ret :: "(u32 \<times> 's) option \<Rightarrow> ctx_t \<Rightarrow> (ctx_t \<times> 's) option" where
  "ret f c = do {
     (r, s) \<leftarrow> f;
     c \<leftarrow> set_r0 r c;
     Some (c, s)
   }"

definition kernel_handler_svc :: "'h env \<Rightarrow> u32 \<Rightarrow> ctx_t \<Rightarrow> ('h, 'a) kernel_scheme \<Rightarrow> (ctx_t \<times> ('h, 'a) kernel_scheme) option" where
  "kernel_handler_svc e i c s =
     (if i = 0x00 then scheduler c s
      else if i = 0x01 then svc_write c s
      else if i = 0x02 then svc_read e c s
      else if i = 0x03 then ret (fork c s) c
      else if i = 0x04 then svc_exec e c s
      else if i = 0x05 then do {
        f \<leftarrow> arg 0 c;
        off \<leftarrow> arg 1 c;
        whence \<leftarrow> arg 2 c;
        ret (lseek f off whence s) c
      }
      else if i = 0x06 then do {
        p \<leftarrow> arg 0 c;
        sig \<leftarrow> arg 1 c;
        s \<leftarrow> kill p sig s;
        Some (c, s)
      }
      else if i = 0x07 then do {
        me \<leftarrow> current_pid s;
        sig \<leftarrow> arg 0 c;
        s \<leftarrow> kill me sig s;
        scheduler c s
      }
      else if i = 0x08 then do {
        name \<leftarrow> arg 0 c;
        ret (mq_open name s) c
      }
      else if i = 0x09 then svc_send c s
      else if i = 0x0a then svc_receive c s
      else if i = 0x0b then do {
        s \<leftarrow> wipe (stack_dir e) (prog_entry e) s;
        Some (c, s)
      }
      else if i = 0x0c then svc_open c s
      else if i = 0x0d then do {
        f \<leftarrow> arg 0 c;
        ret (close f s) c
      }
      else if i = 0x0e then Some (c, put_con 47 s)
      else if i = 0x0f then do {
        s \<leftarrow> svc_ls e s;
        Some (c, s)
      }
      else if i = 0x10 then svc_mkdir e c s
      else if i = 0x11 then svc_cd c s
      else if i = 0x12 then do {
        p \<leftarrow> arg 0 c;
        name \<leftarrow> cstr (mem s) p;
        ret (unlink name s) c
      }
      else if i = 0x13 then svc_mv e c s
      else if i = 0x14 then svc_cp e c s
      else if i = 0x15 then do {
        f \<leftarrow> arg 0 c;
        r \<leftarrow> tell f s;
        ret (Some (r, s)) c
      }
      else if i = 0x16 then do {
        d \<leftarrow> arg 0 c;
        ret (mq_unlink d s) c
      }
      else Some (c, s))"

section \<open>Interrupts and reset\<close>

definition kernel_handler_irq :: "ctx_t \<Rightarrow> ('h, 'a) machine_scheme \<Rightarrow> (ctx_t \<times> ('h, 'a) machine_scheme) option" where
  "kernel_handler_irq c s = do {
     let i = IAR (GICC0 s);
     (c, s) \<leftarrow>
       (if i = GIC_SOURCE_TIMER0 then do {
          (c, s) \<leftarrow> scheduler c s;
          Some (c, s\<lparr>TIMER0 := (TIMER0 s)\<lparr>Timer1IntClr := 0x01\<rparr>\<rparr>)
        }
        else if i = GIC_SOURCE_UART0 then do {
          me \<leftarrow> current_pid s;
          (c, s) \<leftarrow> (if me \<noteq> 0 then do {
                        s \<leftarrow> upd_pcb 0 (\<lambda>x. x\<lparr>defp := 0x7FFFFFFF, prio := 0x7FFFFFFF\<rparr>) s;
                        scheduler c s
                      }
                      else Some (c, s));
          Some (c, s\<lparr>UART0_ctrl := (UART0_ctrl s)\<lparr>ICR := 0x10\<rparr>\<rparr>)
        }
        else Some (c, s));
     Some (c, s\<lparr>GICC0 := (GICC0 s)\<lparr>EOIR := i\<rparr>\<rparr>)
   }"

text \<open>The device registers \<open>kernel_handler_rst\<close> sets: receive interrupts of the UART, the timer
  as a periodic 32-bit timer with interrupts, both sources enabled at the interrupt
  controller.\<close>

definition set_timer :: "SP804_t \<Rightarrow> SP804_t" where
  "set_timer t =
     (let t = t\<lparr>Timer1Load := 0x00001000\<rparr>;
          t = t\<lparr>Timer1Ctrl := 0x00000002\<rparr>;
          t = t\<lparr>Timer1Ctrl := Timer1Ctrl t OR 0x00000040\<rparr>;
          t = t\<lparr>Timer1Ctrl := Timer1Ctrl t OR 0x00000020\<rparr>
      in t\<lparr>Timer1Ctrl := Timer1Ctrl t OR 0x00000080\<rparr>)"

definition enable_source :: "u32 \<Rightarrow> GICD_t \<Rightarrow> GICD_t option" where
  "enable_source m g = do {
     x \<leftarrow> arr (ISENABLER g) 1;
     t \<leftarrow> arr_upd (ISENABLER g) 1 (x OR m);
     Some (g\<lparr>ISENABLER := t\<rparr>)
   }"

definition set_devices :: "('h, 'a) machine_scheme \<Rightarrow> ('h, 'a) machine_scheme option" where
  "set_devices s = do {
     let s = s\<lparr>UART0_ctrl := (UART0_ctrl s)\<lparr>IMSC := IMSC (UART0_ctrl s) OR 0x00000010, CR := 0x00000301\<rparr>\<rparr>;
     let s = s\<lparr>TIMER0 := set_timer (TIMER0 s)\<rparr>;
     let s = s\<lparr>GICC0 := (GICC0 s)\<lparr>PMR := 0x000000F0\<rparr>\<rparr>;
     g \<leftarrow> enable_source 0x00000010 (GICD0 s);
     g \<leftarrow> enable_source 0x00001000 g;
     let s = s\<lparr>GICC0 := (GICC0 s)\<lparr>gicc_CTLR := 0x00000001\<rparr>\<rparr>;
     Some (s\<lparr>GICD0 := g\<lparr>gicd_CTLR := 0x00000001\<rparr>\<rparr>)
   }"

definition kernel_handler_rst :: "'h env \<Rightarrow> ('h, 'a) machine_scheme \<Rightarrow> (ctx_t \<times> ('h, 'a) machine_scheme) option" where
  "kernel_handler_rst e s = do {
     s \<leftarrow> upd_pcb 0 (\<lambda>_. zero_pcb) s;
     s \<leftarrow> upd_pcb 0 (\<lambda>x. x\<lparr>pid := 0, prt := 0,
            ctx := (ctx x)\<lparr>cpsr := 0x50, pc := entry_init e, sp := tos_init e\<rparr>,
            pst := EXECUTING, defp := 1, prio := 1\<rparr>) s;
     let s = s\<lparr>current := Some 0\<rparr>;
     x \<leftarrow> arr (pcb s) 0;
     let c = ctx x;
     s \<leftarrow> rq_add 0 (s\<lparr>rq_size := 0\<rparr>);
     b \<leftarrow> kread_into s 1 (fs_bytes (fs s));
     let s = s\<lparr>fs := bytes_fs b, cwd := ROOT_DIR\<rparr>;
     s \<leftarrow> set_devices s;
     Some (c, s\<lparr>irq_on := True\<rparr>)
   }"

end
