(* ===== verification/Frames.thy ===== *)
theory Frames
  imports Format
begin

text \<open>
  What operations leave alone: operations on processes do not touch descriptors and files
  (\<open>fd_view\<close>), operations on files do not touch processes, queues and memory
  (\<open>proc_view\<close>). The two collections of these facts carry the invariant of the whole kernel.
\<close>

section \<open>Process operations keep the files\<close>

definition fd_view :: "'a procs_scheme \<Rightarrow> nat option list list \<times> disk \<times> fs_t \<times> 'a" where
  "fd_view s = (map fd (pcb s), dsk s, fs s, procs.more s)"

named_theorems fds
  \<open>an operation on processes leaves descriptors and the rest of the state\<close>

lemma upd_pcb_fds:
  assumes "upd_pcb p f s = Some s'" and "\<And>x. fd (f x) = fd x"
  shows "fd_view s' = fd_view s"
proof -
  have p: "p < length (pcb s)" and s': "s' = s\<lparr>pcb := (pcb s)[p := f (pcb s ! p)]\<rparr>"
    using assms(1) by (auto simp: upd_pcb_def arr_def arr_upd_def split: if_splits)
  have "(map fd (pcb s))[p := fd (pcb s ! p)] = map fd (pcb s)" by (metis list_update_id map_update)
  then show ?thesis by (simp add: fd_view_def s' map_update assms(2))
qed

lemma fd_view_rq [simp]: "fd_view (s\<lparr>rq := r\<rparr>) = fd_view s" "fd_view (s\<lparr>rq_size := n\<rparr>) = fd_view s"
    "fd_view (s\<lparr>current := c\<rparr>) = fd_view s"
  by (simp_all add: fd_view_def)

lemma for_each_view:
  assumes "\<And>i s s'. f i s = Some s' \<Longrightarrow> v s' = v s"
  shows "for_each is f s = Some s' \<Longrightarrow> v s' = v s"
  by (induction "is" arbitrary: s) (auto simp: bind_eq_Some_conv dest!: assms)

lemma rq_add_fds [fds]: "rq_add p s = Some s' \<Longrightarrow> fd_view s' = fd_view s"
  by (auto simp: rq_add_def bind_eq_Some_conv split: if_splits)

lemma rq_move_fds [fds]: "rq_move i s = Some s' \<Longrightarrow> fd_view s' = fd_view s"
  by (auto simp: rq_move_def bind_eq_Some_conv)

lemma rq_moves_fds [fds]: "for_each is rq_move s = Some s' \<Longrightarrow> fd_view s' = fd_view s"
  by (rule for_each_view [of rq_move fd_view]) (auto dest: rq_move_fds)

lemma rq_rm_turn_fds [fds]: "rq_rm_turn i p s = Some s' \<Longrightarrow> fd_view s' = fd_view s"
  by (auto simp: rq_rm_turn_def bind_eq_Some_conv split: if_splits dest!: fds)

lemma rq_rm_fds [fds]: "rq_rm i s = Some s' \<Longrightarrow> fd_view s' = fd_view s"
  unfolding rq_rm_def by (rule for_each_view [of "rq_rm_turn i" fd_view, OF rq_rm_turn_fds])

lemma rq_shift_fds [fds]: "rq_shift s = Some s' \<Longrightarrow> fd_view s' = fd_view s"
  by (auto simp: rq_shift_def Let_def bind_eq_Some_conv dest!: fds)

lemma rq_rotate_fds [fds]:
  assumes "rq_rotate s = Some s'"
  shows "fd_view s' = fd_view s"
proof (rule rq_rotate.raw_induct [of "\<lambda>s s'. fd_view s' = fd_view s", OF _ assms])
  fix f :: "'a procs_scheme \<Rightarrow> 'a procs_scheme option" and s s'
  assume "\<And>s s'. f s = Some s' \<Longrightarrow> fd_view s' = fd_view s"
    and "do { s \<leftarrow> rq_shift s; h \<leftarrow> arr (rq s) 0; p \<leftarrow> h; x \<leftarrow> arr (pcb s) p; if pst x \<noteq> EXECUTING then f s else Some s } = Some s'"
  then show "fd_view s' = fd_view s" by (auto simp: bind_eq_Some_conv split: if_splits dest!: fds)
qed

lemma kill_fds [fds]: "kill i sig s = Some s' \<Longrightarrow> fd_view s' = fd_view s"
  by (auto simp: kill_def bind_eq_Some_conv split: if_splits dest!: fds upd_pcb_fds
      elim!: for_each_view [of _ fd_view, rotated])

lemma fork_at_fds [fds]: "fork_at p c s = Some (r, s') \<Longrightarrow> fd_view s' = fd_view s"
  by (auto simp: fork_at_def bind_eq_Some_conv dest!: fds upd_pcb_fds)

lemma fork_loop_fds [fds]: "fork_loop ps c s = Some (r, s') \<Longrightarrow> fd_view s' = fd_view s"
  by (induction ps) (auto simp: bind_eq_Some_conv split: if_splits dest!: fds)

lemma fork_fds [fds]: "fork c s = Some (r, s') \<Longrightarrow> fd_view s' = fd_view s"
  unfolding fork_def by (rule fork_loop_fds)

lemma renew_prios_fds [fds]: "renew_prios h s = Some s' \<Longrightarrow> fd_view s' = fd_view s"
  by (auto simp: renew_prios_def bind_eq_Some_conv split: if_splits dest!: upd_pcb_fds elim!: for_each_view [of _ fd_view, rotated])

lemma switch_to_fds [fds]: "switch_to c h s = Some (c', s') \<Longrightarrow> fd_view s' = fd_view s"
  by (auto simp: switch_to_def bind_eq_Some_conv split: if_splits dest!: upd_pcb_fds)

lemma scheduler_fds [fds]: "scheduler c s = Some (c', s') \<Longrightarrow> fd_view s' = fd_view s"
  by (auto simp: scheduler_def bind_eq_Some_conv split: option.splits dest!: fds)

section \<open>File operations keep the processes\<close>

definition proc_view :: "('h, 'a) kernel_scheme \<Rightarrow> pcb_t list \<times> nat option \<times> nat option list \<times> u32 \<times> mqueue list \<times> (u32 \<Rightarrow> byte)" where
  "proc_view s = (map (fd_update (\<lambda>_. [])) (pcb s), current s, rq s, rq_size s, mq s, mem s)"

named_theorems views
  \<open>an operation on files leaves processes, queues and memory\<close>

lemma proc_view_more [views]: "store.more s' = store.more s \<Longrightarrow> proc_view s' = proc_view s"
  using more_fields [of s' s] by (simp add: proc_view_def)

lemma proc_view_simps [simp]: "proc_view (s\<lparr>oft := t\<rparr>) = proc_view s" "proc_view (s\<lparr>ai := a\<rparr>) = proc_view s"
    "proc_view (s\<lparr>cwd := w\<rparr>) = proc_view s" "proc_view (s\<lparr>uart0 := u\<rparr>) = proc_view s"
  by (simp_all add: proc_view_def)

lemma set_fd_view [views]:
  fixes s :: "('h, 'a) kernel_scheme"
  assumes "set_fd f v s = Some s'"
  shows "proc_view s' = proc_view s"
proof -
  have "map (fd_update (\<lambda>_. [])) (xs[p := (xs ! p)\<lparr>fd := g\<rparr>]) = map (fd_update (\<lambda>_. [])) xs" if "p < length xs" for xs p g
    using that by (simp add: map_update list_update_same_conv)
  then show ?thesis using assms by (auto simp: arr_Some set_fd_def upd_pcb_def arr_upd_def proc_view_def bind_eq_Some_conv split: if_splits)
qed

lemma upd_ai_view [views]: "upd_ai k f s = Some s' \<Longrightarrow> proc_view s' = proc_view s"
  by (auto simp: upd_ai_def bind_eq_Some_conv)

lemma upd_oft_view [views]: "upd_oft k f s = Some s' \<Longrightarrow> proc_view s' = proc_view s"
  by (auto simp: upd_oft_def bind_eq_Some_conv)

lemma getAIT_view [views]: "getAIT ino s = Some (k, s') \<Longrightarrow> proc_view s' = proc_view s"
  by (auto simp: getAIT_def bind_eq_Some_conv split: if_splits option.splits dest!: views)

lemma open_ino_view [views]: "open_ino f ino s = Some (r, s') \<Longrightarrow> proc_view s' = proc_view s"
  by (auto simp: open_ino_def bind_eq_Some_conv split: if_splits option.splits dest!: views)

lemma open_file_view [views]: "open_file path oflag s = Some (r, s') \<Longrightarrow> proc_view s' = proc_view s"
  by (auto simp: open_file_def bind_eq_Some_conv split: if_splits option.splits dest!: keeps views)

lemma close_view [views]: "close f s = Some (r, s') \<Longrightarrow> proc_view s' = proc_view s"
  by (auto simp: close_def bind_eq_Some_conv split: if_splits option.splits dest!: keeps views)

lemma fwrite_view [views]: "fwrite f data n s = Some (r, s') \<Longrightarrow> proc_view s' = proc_view s"
  by (auto simp: fwrite_def fwrite_room_def bind_eq_Some_conv split: if_splits option.splits dest!: keeps views)

lemma fread_view [views]: "fread f n s = Some (r, b, s') \<Longrightarrow> proc_view s' = proc_view s"
  by (auto simp: fread_def bind_eq_Some_conv split: if_splits option.splits dest!: keeps views)

lemma lseek_view [views]: "lseek f off whence s = Some (r, s') \<Longrightarrow> proc_view s' = proc_view s"
  by (auto simp: lseek_def bind_eq_Some_conv split: if_splits option.splits dest!: keeps views)

end
