(* ===== verification/Kinv.thy ===== *)
theory Kinv
  imports Handlers Frames
begin

text \<open>
  The invariant of the whole kernel: the process table and the ready queue (\<open>sched_inv\<close>), the
  message queues (\<open>mq_inv\<close>) and the tables of open files (\<open>tables_inv\<close>) together, kept by every
  handler.
\<close>

definition kernel_inv :: "('h, 'a) kernel_scheme \<Rightarrow> bool" where
  "kernel_inv s \<longleftrightarrow> (\<exists>q. sched_inv s q) \<and> mq_inv s \<and> tables_inv s"

section \<open>Two ways to keep it\<close>

lemma tables_ok_fds:
  assumes "map fd ps' = map fd ps"
  shows "tables_ok ps' t a = tables_ok ps t a"
proof -
  have len: "length ps' = length ps" using assms by (metis length_map)
  then have "fd (ps' ! p) = fd (ps ! p)" if "p < length ps" for p using assms that by (metis nth_map)
  with len show ?thesis unfolding tables_ok_def by auto
qed

lemma pcbs_view:
  assumes "map (fd_update (\<lambda>_. [])) ps' = map (fd_update (\<lambda>_. [])) ps"
  shows "length ps' = length ps" and "p < length ps \<Longrightarrow> pid (ps' ! p) = pid (ps ! p) \<and> pst (ps' ! p) = pst (ps ! p)"
proof -
  show len: "length ps' = length ps" using assms by (metis length_map)
  assume p: "p < length ps"
  then have "(ps' ! p)\<lparr>fd := []\<rparr> = (ps ! p)\<lparr>fd := []\<rparr>" using assms len by (metis nth_map)
  then show "pid (ps' ! p) = pid (ps ! p) \<and> pst (ps' ! p) = pst (ps ! p)"
    by (metis pcb_t.select_convs(1,4) pcb_t.surjective pcb_t.update_convs(7))
qed

lemma inv_proc_view:
  assumes "proc_view s' = proc_view s"
  shows "sched_inv s' q = sched_inv s q" and "mq_inv s' = mq_inv s"
proof -
  have v: "map (fd_update (\<lambda>_. [])) (pcb s') = map (fd_update (\<lambda>_. [])) (pcb s)" "current s' = current s"
    "rq s' = rq s" "rq_size s' = rq_size s" "mq s' = mq s" using assms by (simp_all add: proc_view_def)
  show "mq_inv s' = mq_inv s" by (simp add: mq_inv_def v)
  have "ready s' q = ready s q"
    using pcbs_view [OF v(1)] by (auto simp: ready_def v(3,4))
  moreover have "running s' = running s" if "ready s q"
    using pcbs_view(2) [OF v(1)] that by (simp add: running_def ready_def v(2)) metis
  moreover have "(\<forall>p \<in> set q. pst (pcb s' ! p) \<noteq> TERMINATED) = (\<forall>p \<in> set q. pst (pcb s ! p) \<noteq> TERMINATED)" if "ready s q"
    using pcbs_view(2) [OF v(1)] that by (simp add: ready_def)
  ultimately show "sched_inv s' q = sched_inv s q" by (auto simp: sched_inv_def)
qed

lemma kernel_inv_files:
  assumes "kernel_inv s" and "proc_view s' = proc_view s" and "tables_inv s'"
  shows "kernel_inv s'"
  using assms inv_proc_view [OF assms(2)] by (auto simp: kernel_inv_def)

lemma kernel_inv_file_step:
  assumes "kernel_inv s" and "proc_view s' = proc_view s" and "file_step s s'"
  shows "kernel_inv s'"
  using assms file_step_inv by (blast intro: kernel_inv_files dest: kernel_inv_def [THEN iffD1])

lemma kernel_inv_keeps:
  assumes "kernel_inv s" and "store.more s' = store.more s"
  shows "kernel_inv s'"
  using assms kernel_inv_files [OF assms(1) proc_view_more [OF assms(2)]] tables_inv_more [OF assms(2)]
  by (simp add: kernel_inv_def)

lemma kernel_inv_simps [simp]:
  "kernel_inv (s\<lparr>mem := m\<rparr>) = kernel_inv s" "kernel_inv (s\<lparr>cwd := w\<rparr>) = kernel_inv s"
  "kernel_inv (s\<lparr>uart0 := u\<rparr>) = kernel_inv s" "kernel_inv (mem_write a x s) = kernel_inv s"
  by (simp_all add: kernel_inv_def tables_inv_def mq_inv_def sched_inv_def ready_def running_def mem_write_def)

lemma kernel_inv_procs:
  assumes "kernel_inv s" and "sched_inv s' q" and "mq_inv s'" and "map fd (pcb s') = map fd (pcb s)"
    and "oft s' = oft s" and "ai s' = ai s"
  shows "kernel_inv s'"
proof -
  have "\<exists>p<8. current s' = Some p" using assms(2) by (auto simp: sched_inv_def running_def)
  moreover have "tables_ok (pcb s') (oft s') (ai s')"
    using assms(1) tables_ok_fds [OF assms(4)] by (simp add: kernel_inv_def tables_inv_def assms(5,6))
  ultimately show ?thesis using assms(2,3) by (auto simp: kernel_inv_def tables_inv_def)
qed

lemma kernel_inv_fds:
  assumes "kernel_inv s" and "sched_inv s' q" and "fd_view s' = fd_view s"
  shows "kernel_inv s'"
proof -
  have m: "procs.more s' = procs.more s" using assms(3) by (simp add: fd_view_def)
  have "mq s' = mq s" "oft s' = oft s" "ai s' = ai s" using m by (cases s; cases s'; simp)+
  with assms show ?thesis by (intro kernel_inv_procs [OF assms(1,2)]) (simp_all add: kernel_inv_def mq_inv_def fd_view_def)
qed

section \<open>Processes and queues\<close>

lemma scheduler_kernel_inv:
  assumes "kernel_inv s" and "scheduler c s = Some (c', s')"
  shows "kernel_inv s'"
proof -
  obtain q where "sched_inv s q" using assms(1) by (auto simp: kernel_inv_def)
  from scheduler_inv [OF this assms(2)] kernel_inv_fds [OF assms(1) _ scheduler_fds [OF assms(2)]] show ?thesis by blast
qed

lemma sched_step_kernel_inv:
  assumes "kernel_inv s" and "sched_step (c, s) (c', s')" and "fd_view s' = fd_view s"
  shows "kernel_inv s'"
proof -
  obtain q where "sched_inv s q" using assms(1) by (auto simp: kernel_inv_def)
  from sched_step_inv [OF assms(2) this] kernel_inv_fds [OF assms(1) _ assms(3)] show ?thesis by blast
qed

text \<open>The rest of the development uses these facts as implications, which automation chains along
  the calls of a handler.\<close>

named_theorems kinv
  \<open>an operation keeps the invariant of the kernel\<close>

lemma scheduler_kinv [kinv]: "scheduler c s = Some (c', s') \<Longrightarrow> kernel_inv s \<longrightarrow> kernel_inv s'"
  using scheduler_kernel_inv by blast

lemma fork_kinv [kinv]: "fork c s = Some (r, s') \<Longrightarrow> kernel_inv s \<longrightarrow> kernel_inv s'"
  using sched_step_kernel_inv [OF _ step_fork fork_fds] by blast

lemma kill_kernel_inv:
  "kill i sig s = Some s' \<Longrightarrow> \<not> (i = 9 \<and> sig = SIGKILL) \<Longrightarrow> kernel_inv s \<longrightarrow> kernel_inv s'"
  using sched_step_kernel_inv [OF _ step_kill kill_fds] by blast

definition chan_view :: "'a chans_scheme \<Rightarrow> nat option list list \<times> 'a" where
  "chan_view s = (map fd (pcb s), chans.more s)"

lemma fds_chan_view: "fd_view s' = fd_view s \<Longrightarrow> chan_view s' = chan_view (s :: 'a chans_scheme)"
  by (cases s; cases s'; simp add: fd_view_def chan_view_def)

lemma upd_mq_chan_view: "upd_mq d f s = Some s' \<Longrightarrow> chan_view s' = chan_view s"
  by (auto simp: upd_mq_def bind_eq_Some_conv chan_view_def)

lemma mem_write_chan_view [simp]: "chan_view (mem_write a x s) = chan_view s"
  by (simp add: mem_write_def chan_view_def)

lemmas chan_views = kill_fds [THEN fds_chan_view] upd_mq_chan_view

lemma mq_open_chan_view: "mq_open n s = Some (r, s') \<Longrightarrow> chan_view s' = chan_view s"
  by (auto simp: mq_open_def bind_eq_Some_conv split: option.splits dest!: chan_views simp del: upt_rec_numeral)

lemma mq_unlink_chan_view: "mq_unlink n s = Some (r, s') \<Longrightarrow> chan_view s' = chan_view s"
  by (auto simp: mq_unlink_def bind_eq_Some_conv split: if_splits dest!: chan_views)

lemma mq_send_chan_view: "mq_send d x n s = Some (r, s') \<Longrightarrow> chan_view s' = chan_view s"
  unfolding mq_send_def Let_def
  by (clarsimp split: Option.bind_split_asm if_split_asm simp del: upd_mq_Some) (auto dest!: chan_views simp del: upd_mq_Some)

lemma mq_receive_chan_view: "mq_receive d x n s = Some (r, s') \<Longrightarrow> chan_view s' = chan_view s"
  unfolding mq_receive_def Let_def
  by (clarsimp split: Option.bind_split_asm if_split_asm simp del: upd_mq_Some) (auto dest!: chan_views simp del: upd_mq_Some)

lemma kernel_inv_chans:
  assumes "kernel_inv s" and "sched_inv s' q \<and> mq_inv s'" and "chan_view s' = chan_view s"
  shows "kernel_inv s'"
proof -
  have m: "chans.more s' = chans.more s" using assms(3) by (simp add: chan_view_def)
  have "oft s' = oft s" "ai s' = ai s" using m by (cases s; cases s'; simp)+
  with assms show ?thesis by (intro kernel_inv_procs [OF assms(1), of s' q]) (simp_all add: chan_view_def)
qed

lemma kernel_inv_chans_step:
  assumes "chan_view s' = chan_view s"
    and "\<And>q. mq_inv s \<Longrightarrow> sched_inv s q \<Longrightarrow> sched_inv s' q \<and> mq_inv s'"
  shows "kernel_inv s \<longrightarrow> kernel_inv s'"
  using kernel_inv_chans [OF _ _ assms(1)] assms(2) unfolding kernel_inv_def [of s] by blast

lemma mq_kinv [kinv]:
  "mq_open n s = Some (r, s') \<Longrightarrow> kernel_inv s \<longrightarrow> kernel_inv s'"
  "mq_unlink n s = Some (r, s') \<Longrightarrow> kernel_inv s \<longrightarrow> kernel_inv s'"
  "mq_send d x m s = Some (r, s') \<Longrightarrow> kernel_inv s \<longrightarrow> kernel_inv s'"
  "mq_receive d x m s = Some (r, s') \<Longrightarrow> kernel_inv s \<longrightarrow> kernel_inv s'"
  using mq_open_chan_view mq_unlink_chan_view mq_send_chan_view mq_receive_chan_view mq_open_inv mq_unlink_inv mq_send_inv mq_receive_inv
  by (metis kernel_inv_chans_step)+

section \<open>Files\<close>

lemma keeps_kinv [kinv]: "store.more s' = store.more s \<Longrightarrow> kernel_inv s \<longrightarrow> kernel_inv s'"
  using kernel_inv_keeps by blast

lemma file_kinv [kinv]:
  "open_file path oflag s = Some (r, s') \<Longrightarrow> kernel_inv s \<longrightarrow> kernel_inv s'"
  "close f s = Some (r, s') \<Longrightarrow> kernel_inv s \<longrightarrow> kernel_inv s'"
  "fwrite f xs n s = Some (r, s') \<Longrightarrow> kernel_inv s \<longrightarrow> kernel_inv s'"
  "fread f n s = Some (r, ys, s') \<Longrightarrow> kernel_inv s \<longrightarrow> kernel_inv s'"
  "lseek f off w s = Some (r, s') \<Longrightarrow> kernel_inv s \<longrightarrow> kernel_inv s'"
  by (blast intro: kernel_inv_file_step views file_step.intros)+

lemma getProgramEntry_kinv [kinv]: "getProgramEntry path s = Some (r, a, b, s') \<Longrightarrow> kernel_inv s \<longrightarrow> kernel_inv s'"
  by (auto simp: getProgramEntry_def bind_eq_Some_conv split: if_splits dest!: kinv)

lemma kernel_inv_started:
  assumes "kernel_inv s" and "current s = Some c" and "pid x = pid (pcb s ! c)" and "pst x = EXECUTING" and "fd x = replicate 16 None"
  shows "kernel_inv (s\<lparr>pcb := (pcb s)[c := x]\<rparr>)"
proof -
  obtain q where q: "sched_inv s q" "mq_inv s" "tables_inv s" using assms(1) by (auto simp: kernel_inv_def)
  have c: "c < 8" "length (pcb s) = 8" using q(1) assms(2) by (auto simp: sched_inv_def running_def ready_def)
  have "ready (s\<lparr>pcb := (pcb s)[c := x]\<rparr>) q" "running (s\<lparr>pcb := (pcb s)[c := x]\<rparr>)"
    using ready_upd_pcb running_upd_pcb q(1) assms(3) by (auto simp: sched_inv_def)
  moreover have "\<forall>p \<in> set q. pst ((pcb s)[c := x] ! p) \<noteq> TERMINATED"
    using q(1) c assms(4) by (auto simp: sched_inv_def nth_list_update)
  ultimately have si: "sched_inv (s\<lparr>pcb := (pcb s)[c := x]\<rparr>) q" by (simp add: sched_inv_def)
  have fds: "fd ((pcb s)[c := x] ! p) ! f = Some j \<Longrightarrow> fd (pcb s ! p) ! f = Some j" if "f < 16" for p f j
    using that c assms(5) by (cases "p = c") auto
  have "tables_ok ((pcb s)[c := x]) (oft s) (ai s)"
    using q(3) c assms(5) unfolding tables_inv_def tables_ok_def by (auto simp: nth_list_update dest!: fds)
  with q(2) si assms(2) c show ?thesis by (auto simp: kernel_inv_def tables_inv_def mq_inv_def)
qed

lemma exec_kinv [kinv]: "exec tos c path s = Some (r, c', s') \<Longrightarrow> kernel_inv s \<longrightarrow> kernel_inv s'"
  by (auto simp: exec_def bind_eq_Some_conv upd_pcb_def arr_Some arr_upd_def zero_pcb_def Let_def split: if_splits
      dest!: kinv intro!: kernel_inv_started)

lemma create_obj_kinv [kinv]: "create_obj name entry s = Some s' \<Longrightarrow> kernel_inv s \<longrightarrow> kernel_inv s'"
  by (auto simp: create_obj_def bind_eq_Some_conv Let_def dest!: kinv)

lemma wipe_super_keeps [keeps]: "wipe_super s = Some s' \<Longrightarrow> store.more s' = store.more s"
  by (auto simp: wipe_super_def bind_eq_Some_conv Let_def simp del: upt_rec_numeral
      dest!: keeps for_each_keeps [rotated])

lemma wipe_inode_keeps: "wipe_inode junk i j b = Some b' \<Longrightarrow> store.more (snd b') = store.more (snd b)"
  by (cases b; auto simp: wipe_inode_def bind_eq_Some_conv Let_def split: if_splits dest!: keeps)

lemma wipe_inodes_keeps [keeps]: "wipe_inodes junk s = Some s' \<Longrightarrow> store.more s' = store.more s"
  unfolding wipe_inodes_def
  by (erule for_each_keeps [rotated])
    (auto simp: bind_eq_Some_conv simp del: upt_rec_numeral
      dest!: keeps for_each_view [of _ "\<lambda>b. store.more (snd b)", rotated] wipe_inode_keeps)

lemma for_each_kinv:
  assumes "\<And>i s s'. f i s = Some s' \<Longrightarrow> kernel_inv s \<longrightarrow> kernel_inv s'"
  shows "for_each is f s = Some s' \<Longrightarrow> kernel_inv s \<longrightarrow> kernel_inv s'"
  by (induction "is" arbitrary: s) (auto simp: bind_eq_Some_conv dest!: assms)

lemma createObjFiles_kinv [kinv]: "createObjFiles entry s = Some s' \<Longrightarrow> kernel_inv s \<longrightarrow> kernel_inv s'"
  unfolding createObjFiles_def by (rule for_each_kinv [of "\<lambda>n. create_obj n (entry n)"]) (rule create_obj_kinv)

lemma wipe_kinv [kinv]: "wipe junk entry s = Some s' \<Longrightarrow> kernel_inv s \<longrightarrow> kernel_inv s'"
  by (auto simp: wipe_def bind_eq_Some_conv dest!: keeps kinv)

lemma copy_loop_keeps [keeps]: "copy_loop copy inode bs buf s = Some s' \<Longrightarrow> store.more s' = store.more s"
  by (induction bs arbitrary: buf s) (auto simp: bind_eq_Some_conv Let_def dest!: keeps)

lemma copyInode_keeps [keeps]: "copyInode copy inode s = Some (r, s') \<Longrightarrow> store.more s' = store.more s"
  by (auto simp: copyInode_def bind_eq_Some_conv split: option.splits dest!: keeps)

section \<open>Calls\<close>

lemma put_con_inv [simp]: "kernel_inv (put_con x s) = kernel_inv s"
  by (simp add: put_con_def)

lemma write_con_inv [simp]: "kernel_inv (write_con x n s) = kernel_inv s"
proof -
  have "kernel_inv (fold (\<lambda>i s. put_con (mem s (x + of_nat i)) s) is s) = kernel_inv s" for "is"
    by (induction "is" arbitrary: s) simp_all
  then show ?thesis by (simp add: write_con_def)
qed

lemma read_con_kinv [kinv]: "read_con peer n x s = Some s' \<Longrightarrow> kernel_inv s \<longrightarrow> kernel_inv s'"
  by (induction n arbitrary: x s) (auto simp: bind_eq_Some_conv Let_def split: if_splits)

lemma cut_path_kinv [kinv]: "cut_path p path dir s = Some s' \<Longrightarrow> kernel_inv s \<longrightarrow> kernel_inv s'"
  by (auto simp: cut_path_def bind_eq_Some_conv Let_def)

lemma print_entry_kinv [kinv]: "print_entry d s = Some s' \<Longrightarrow> kernel_inv s \<longrightarrow> kernel_inv s'"
  by (auto simp: print_entry_def bind_eq_Some_conv dest!: for_each_kinv [rotated])

lemma print_entries_kinv [kinv]:
  "for_each js (\<lambda>j. print_entry (g j)) s = Some s' \<Longrightarrow> kernel_inv s \<longrightarrow> kernel_inv s'"
  by (rule for_each_kinv [of "\<lambda>j. print_entry (g j)"]) (rule print_entry_kinv)

lemma ls_blocks_kinv [kinv]: "ls_blocks ic vs buf s = Some s' \<Longrightarrow> kernel_inv s \<longrightarrow> kernel_inv s'"
  by (induction vs arbitrary: buf s) (auto simp: bind_eq_Some_conv dest!: kinv)

lemma svc_write_kinv [kinv]: "svc_write c s = Some (c', s') \<Longrightarrow> kernel_inv s \<longrightarrow> kernel_inv s'"
  by (auto simp: svc_write_def bind_eq_Some_conv split: if_splits dest!: kinv)

lemma svc_read_kinv [kinv]: "svc_read e c s = Some (c', s') \<Longrightarrow> kernel_inv s \<longrightarrow> kernel_inv s'"
  by (auto simp: svc_read_def bind_eq_Some_conv split: if_splits dest!: kinv)

lemma svc_exec_kinv [kinv]: "svc_exec e c s = Some (c', s') \<Longrightarrow> kernel_inv s \<longrightarrow> kernel_inv s'"
  by (auto simp: svc_exec_def bind_eq_Some_conv dest!: kinv)

lemma svc_message_kinv [kinv]:
  "svc_send c s = Some (c', s') \<Longrightarrow> kernel_inv s \<longrightarrow> kernel_inv s'"
  "svc_receive c s = Some (c', s') \<Longrightarrow> kernel_inv s \<longrightarrow> kernel_inv s'"
  by (auto simp: svc_send_def svc_receive_def or_wait_def bind_eq_Some_conv split: if_splits dest!: kinv)

lemma svc_open_kinv [kinv]: "svc_open c s = Some (c', s') \<Longrightarrow> kernel_inv s \<longrightarrow> kernel_inv s'"
  by (auto simp: svc_open_def bind_eq_Some_conv split: if_splits dest!: kinv)

lemma svc_ls_kinv [kinv]: "svc_ls e s = Some s' \<Longrightarrow> kernel_inv s \<longrightarrow> kernel_inv s'"
  by (auto simp: svc_ls_def bind_eq_Some_conv dest!: kinv)

lemma svc_mkdir_kinv [kinv]: "svc_mkdir e c s = Some (c', s') \<Longrightarrow> kernel_inv s \<longrightarrow> kernel_inv s'"
  by (auto simp: svc_mkdir_def bind_eq_Some_conv Let_def split: option.splits dest!: keeps kinv)

lemma svc_cd_kinv [kinv]: "svc_cd c s = Some (c', s') \<Longrightarrow> kernel_inv s \<longrightarrow> kernel_inv s'"
  by (auto simp: svc_cd_def bind_eq_Some_conv split: if_splits dest!: kinv)

lemma mv_entry_keeps [keeps]: "mv_entry dest inode name s = Some s' \<Longrightarrow> store.more s' = store.more s"
  by (auto simp: mv_entry_def bind_eq_Some_conv split: if_splits dest!: keeps)

lemma svc_mv_kinv [kinv]: "svc_mv e c s = Some (c', s') \<Longrightarrow> kernel_inv s \<longrightarrow> kernel_inv s'"
  by (auto simp: svc_mv_def bind_eq_Some_conv split: if_splits dest!: keeps kinv)

lemma svc_cp_kinv [kinv]: "svc_cp e c s = Some (c', s') \<Longrightarrow> kernel_inv s \<longrightarrow> kernel_inv s'"
  by (auto simp: svc_cp_def bind_eq_Some_conv Let_def split: if_splits dest!: keeps kinv)

lemma unlink_kinv [kinv]: "unlink name s = Some (r, s') \<Longrightarrow> kernel_inv s \<longrightarrow> kernel_inv s'"
  by (auto dest!: keeps kinv)

lemma ret_Some: "ret f c = Some (c', s') \<Longrightarrow> \<exists>r. f = Some (r, s')"
  by (auto simp: ret_def bind_eq_Some_conv)

text \<open>A process that raises a signal raises it for itself, so the number is never 9.\<close>

lemma raise_kernel_inv:
  assumes "current_pid s = Some me" and "kill me sig s = Some s1" and "kernel_inv s"
  shows "kernel_inv s1"
proof -
  obtain q where q: "sched_inv s q" using assms(3) by (auto simp: kernel_inv_def)
  obtain k where k: "current s = Some k" using q by (auto simp: sched_inv_def running_def)
  have "unat me = k" "k < 8" using current_pid_eq [OF q k] assms(1) by simp_all
  then have "me \<noteq> 9" by auto
  then show ?thesis using kill_kernel_inv [OF assms(2)] assms(3) by blast
qed

lemma raise_kinv [kinv]:
  "do { me \<leftarrow> current_pid s; sig \<leftarrow> arg 0 c; s \<leftarrow> kill me sig s; scheduler c s } = Some (c', s') \<Longrightarrow> kernel_inv s \<longrightarrow> kernel_inv s'"
  using raise_kernel_inv by (auto simp: bind_eq_Some_conv dest!: scheduler_kinv)

text \<open>The call that kills all processes, which leaves them in the ready queue.\<close>

definition kills_all :: "u32 \<Rightarrow> ctx_t \<Rightarrow> bool" where
  "kills_all i c \<longleftrightarrow> i = 0x06 \<and> arg 0 c = Some 9 \<and> arg 1 c = Some SIGKILL"

lemma svc_kernel_inv:
  assumes "kernel_handler_svc e i c s = Some (c', s')" and "kernel_inv s" and "\<not> kills_all i c"
  shows "kernel_inv s'"
proof (cases "i = 0x07")
  case True
  with assms raise_kinv [of s c] show ?thesis by (simp add: kernel_handler_svc_def)
next
  case False
  with assms show ?thesis unfolding kernel_handler_svc_def kills_all_def
    by (auto simp: bind_eq_Some_conv split: if_split_asm dest!: ret_Some kill_kernel_inv kinv)
qed

section \<open>Interrupts and reset\<close>

lemma kernel_inv_regs [simp]:
  "kernel_inv (s\<lparr>TIMER0 := x\<rparr>) = kernel_inv s" "kernel_inv (s\<lparr>GICC0 := y\<rparr>) = kernel_inv s"
  "kernel_inv (s\<lparr>UART0_ctrl := z\<rparr>) = kernel_inv s"
  by (simp_all add: kernel_inv_def tables_inv_def mq_inv_def sched_inv_def ready_def running_def)

lemma shell_first_kinv [kinv]:
  assumes "upd_pcb 0 (\<lambda>x. x\<lparr>defp := a, prio := b\<rparr>) s = Some s'"
  shows "kernel_inv s \<longrightarrow> kernel_inv s'"
proof
  assume inv: "kernel_inv s"
  then obtain q where q: "sched_inv s q" by (auto simp: kernel_inv_def)
  then have len: "length (pcb s) = 8" by (simp add: sched_inv_def ready_def)
  have s': "s' = s\<lparr>pcb := (pcb s)[0 := (pcb s ! 0)\<lparr>defp := a, prio := b\<rparr>]\<rparr>" using assms len by simp
  let ?x = "(pcb s ! 0)\<lparr>defp := a, prio := b\<rparr>"
  have "ready s' q" "running s'"
    using ready_upd_pcb [of s q ?x 0] running_upd_pcb [of s ?x 0] q by (simp_all add: sched_inv_def s')
  moreover have "\<forall>p \<in> set q. pst (pcb s' ! p) \<noteq> TERMINATED"
    using q len by (auto simp: sched_inv_def s' nth_list_update)
  ultimately have "sched_inv s' q" by (simp add: sched_inv_def)
  then show "kernel_inv s'" using kernel_inv_fds [OF inv] upd_pcb_fds [OF assms] by simp
qed

lemma irq_kernel_inv:
  assumes "kernel_handler_irq c s = Some (c', s')" and "kernel_inv s"
  shows "kernel_inv s'"
  using assms unfolding kernel_handler_irq_def
  by (auto simp: bind_eq_Some_conv Let_def split: if_split_asm dest!: kinv)

text \<open>The machine before reset: the tables of the kernel, which the loader clears, and the three
  registers \<open>ISENABLER\<close> of the interrupt controller. The disk, the memory and all other
  registers hold anything.\<close>

definition power_on :: "('h, 'a) machine_scheme \<Rightarrow> bool" where
  "power_on s \<longleftrightarrow> pcb s = replicate PROCESS_LIMIT zero_pcb \<and> rq s = replicate PROCESS_LIMIT None
     \<and> mq s = replicate MSGCHAN_LIMIT zero_mq \<and> oft s = replicate OFT_LIMIT \<lparr>o_inptr = None, o_head = 0\<rparr>
     \<and> ai s = replicate AIT_LIMIT inode_local \<and> length (ISENABLER (GICD0 s)) = 3"

definition first_pcb :: "'h env \<Rightarrow> pcb_t" where
  "first_pcb e = zero_pcb\<lparr>ctx := zero_ctx\<lparr>cpsr := 0x50, pc := entry_init e, sp := tos_init e\<rparr>, pst := EXECUTING, defp := 1, prio := 1\<rparr>"

lemma rst_result:
  fixes s :: "('h, 'a) machine_scheme"
  assumes "length (pcb s) = 8" and "length (rq s) = 8" and "length (ISENABLER (GICD0 s)) = 3"
  shows "\<exists>s'. kernel_handler_rst e s = Some (ctx (first_pcb e), s') \<and> pcb s' = (pcb s)[0 := first_pcb e]
    \<and> current s' = Some 0 \<and> rq s' = (rq s)[0 := Some 0] \<and> rq_size s' = 1 \<and> mq s' = mq s \<and> oft s' = oft s \<and> ai s' = ai s
    \<and> dsk s' = dsk s \<and> (1 < dnum (dsk s) \<longrightarrow> fs s' = bytes_fs (blk s 1)) \<and> cwd s' = ROOT_DIR
    \<and> Timer1Load (TIMER0 s') = 0x1000 \<and> Timer1Ctrl (TIMER0 s') = 0xE2 \<and> bit (IMSC (UART0_ctrl s')) 4
    \<and> bit (ISENABLER (GICD0 s') ! 1) (36 - 32) \<and> bit (ISENABLER (GICD0 s') ! 1) (44 - 32) \<and> irq_on s'"
proof -
  let ?b = "if 1 < dnum (dsk s) then blk s 1 else fs_bytes (fs s)"
  have rd: "kread_into t 1 (fs_bytes (fs s)) = Some ?b" if "dsk t = dsk s" for t :: "('h, 'a) machine_scheme"
    using that by (simp add: kread_into_def blk_rd_into_def)
  let ?g = "(GICD0 s)\<lparr>ISENABLER := (ISENABLER (GICD0 s))[1 := ISENABLER (GICD0 s) ! 1 OR 0x10]\<rparr>"
  have g: "enable_source 0x10 (GICD0 s) = Some ?g" using assms(3) by (simp add: enable_source_def)
  let ?h = "?g\<lparr>ISENABLER := (ISENABLER ?g)[1 := ISENABLER ?g ! 1 OR 0x1000]\<rparr>"
  have h: "enable_source 0x1000 ?g = Some ?h" using assms(3) by (simp add: enable_source_def)
  have b: "bit (ISENABLER ?h ! 1) 4" "bit (ISENABLER ?h ! 1) 12" "bit (IMSC x OR 0x10) 4" for x
    using assms(3) by (simp_all add: bit_or_iff bit_numeral_word_iff)
  have t: "Timer1Load (set_timer x) = 0x1000" "Timer1Ctrl (set_timer x) = 0xE2" for x by (simp_all add: set_timer_def)
  show ?thesis
    using assms(1,2) rd g h b t by (simp add: kernel_handler_rst_def set_devices_def rq_add_def first_pcb_def zero_pcb_def Let_def)
qed

lemma rst_boot:
  assumes "power_on s" and "kernel_handler_rst e s = Some (c, s')" and "pcb s' = (pcb s)[0 := first_pcb e]"
    and "current s' = Some 0" and "rq s' = (rq s)[0 := Some 0]" and "rq_size s' = 1" and "mq s' = mq s" and "oft s' = oft s"
    and "ai s' = ai s"
  shows "pcb s' = first_pcb e # replicate 7 zero_pcb" and "sched_inv s' [0]" and "kernel_inv s'"
proof -
  show p: "pcb s' = first_pcb e # replicate 7 zero_pcb"
    using assms(1,3) by (simp add: power_on_def numeral_eq_Suc)
  have r: "rq s' = rq_of [0]" using assms(1,5) by (simp add: power_on_def rq_of_def numeral_eq_Suc)
  show si: "sched_inv s' [0]"
    by (simp add: sched_inv_def ready_def running_def assms(4,6) p r first_pcb_def zero_pcb_def)
  have "mq_inv s'" using assms(1,7) by (simp add: power_on_def mq_inv_def zero_mq_def)
  moreover have "map fd (pcb s') = map fd (pcb desk)" by (simp add: p desk_def first_pcb_def zero_pcb_def)
  then have "tables_ok (pcb s') (oft s') (ai s')"
    using desk_tables tables_ok_fds [of "pcb s'" "pcb desk"] assms(1,8,9) by (simp add: tables_inv_def power_on_def desk_def)
  ultimately show "kernel_inv s'" using si assms(4) by (auto simp: kernel_inv_def tables_inv_def)
qed

lemma rst_kernel_inv:
  assumes "power_on s"
  shows "\<exists>s'. kernel_handler_rst e s = Some (ctx (first_pcb e), s') \<and> kernel_inv s'"
  using rst_result [of s e] rst_boot(3) [OF assms] assms by (auto simp: power_on_def)

section \<open>Runs of the kernel\<close>

text \<open>What can happen between reset and any later moment: a supervisor call, an interrupt of some
  number \<open>i\<close> at the interrupt controller, the running program changing its registers and the
  memory outside the kernel's data, and bytes arriving at the console.\<close>

inductive kernel_step :: "'h env \<Rightarrow> ctx_t \<times> ('h, 'a) machine_scheme \<Rightarrow> ctx_t \<times> ('h, 'a) machine_scheme \<Rightarrow> bool" for e where
  k_svc: "kernel_handler_svc e i c s = Some (c', s') \<Longrightarrow> \<not> kills_all i c \<Longrightarrow> kernel_step e (c, s) (c', s')"
| k_irq: "kernel_handler_irq c (s\<lparr>GICC0 := (GICC0 s)\<lparr>IAR := i\<rparr>\<rparr>) = Some (c', s') \<Longrightarrow> kernel_step e (c, s) (c', s')"
| k_user: "kernel_step e (c, s) (c', s\<lparr>mem := m\<rparr>)"
| k_console: "kernel_step e (c, s) (c, s\<lparr>uart0 := u\<rparr>)"

lemma kernel_step_inv: "kernel_step e (c, s) (c', s') \<Longrightarrow> kernel_inv s \<Longrightarrow> kernel_inv s'"
  by (erule kernel_step.cases) (auto dest: svc_kernel_inv irq_kernel_inv)

interpretation kst: transition_invariant "kernel_step e" "\<lambda>(c, s). kernel_inv s" for e
  by unfold_locales (auto intro: kernel_step_inv)



text \<open>A board with a formatted disk, before reset.\<close>

definition timer0 :: SP804_t where
  "timer0 = \<lparr>Timer1Load = 0, Timer1Value = 0, Timer1Ctrl = 0x20, Timer1IntClr = 0, Timer1RIS = 0, Timer1MIS = 0, Timer1BGLoad = 0,
     Timer2Load = 0, Timer2Value = 0, Timer2Ctrl = 0x20, Timer2IntClr = 0, Timer2RIS = 0, Timer2MIS = 0, Timer2BGLoad = 0,
     TimerITCR = 0, TimerITOP = 0, timer_PeriphID = replicate 4 0, timer_PCellID = replicate 4 0\<rparr>"

definition gicc0 :: GICC_t where
  "gicc0 = \<lparr>gicc_CTLR = 0, PMR = 0, BPR = 0, IAR = 1023, EOIR = 0, RPR = 0, HPPIR = 0\<rparr>"

definition gicd0 :: GICD_t where
  "gicd0 = \<lparr>gicd_CTLR = 0, TYPER = 0, ISENABLER = replicate 3 0, ICENABLER = replicate 3 0, ISPENDR = replicate 3 0,
     ICPENDR = replicate 3 0, ISACTIVER = replicate 3 0, IPRIORITYR = replicate 24 0, ITARGETSR = replicate 24 0,
     ICFGR = replicate 6 0, SGIR = 0\<rparr>"

definition board :: "unit machine" where
  "board = (kernel.extend (kernel.truncate desk) \<lparr>TIMER0 = timer0, GICC0 = gicc0, GICD0 = gicd0,
     UART0_ctrl = \<lparr>CR = 0, IFLS = 0, IMSC = 0, RIS = 0, MIS = 0, ICR = 0\<rparr>, irq_on = False\<rparr>)
     \<lparr>pcb := replicate 8 zero_pcb, current := None, rq := replicate 8 None, rq_size := 0\<rparr>"

lemma board_power_on: "power_on board" "dsk board = dsk rooted"
  by (simp_all add: power_on_def board_def kernel.defs desk_def gicd0_def)

definition board_env :: "unit env" where
  "board_env = \<lparr>entry_init = 0x8000, tos_init = 0x70000000, prog_entry = (\<lambda>_. 0x9000), stack_dir = replicate 512 0,
     stack_inode = inode_local, console = (\<lambda>h xs. ([], xs, h))\<rparr>"

lemma fork_returns:
  assumes "sched_inv s q" and "gpr c \<noteq> []"
  shows "\<exists>r s'. fork c s = Some (r, s')"
proof -
  have len: "length (pcb s) = 8" using assms(1) by (simp add: sched_inv_def ready_def)
  obtain k where k: "current s = Some k" using assms(1) by (auto simp: sched_inv_def running_def)
  show ?thesis
  proof (cases "find (\<lambda>p. pst (pcb s ! p) = TERMINATED) [0..<8]")
    case None
    then show ?thesis by (simp add: fork_find [OF len] del: upt_rec_numeral)
  next
    case (Some p)
    then show ?thesis using find_upt_Some [OF Some] fork_at_inv(1) [OF assms(1) _ _ assms(2) k]
      by (auto simp: fork_find [OF len] simp del: upt_rec_numeral)
  qed
qed



end
