(* ===== verification/Userprog.thy ===== *)
theory Userprog
  imports Kinv
begin

text \<open>
  User programs and the system they form with the kernel. A program is a tree of its actions on
  what it shares with others: looking at memory, storing bytes, making a supervisor call. What
  the compiler keeps in registers and private locals is in the branches of the tree, so a
  program can be interrupted between any two actions and goes on where it was. Every process
  has a thread, the rest of its tree. The steps of the system are those of the running
  process, interrupts and console input; they refine the kernel steps of \<open>Kinv\<close>.
\<close>

section \<open>Programs as trees\<close>

text \<open>\<open>Fault\<close> is behaviour the C standard leaves undefined. The branch after an action gets the result
  of the call and the memory.\<close>

datatype act = Look | Store u32 "byte list" | Call u32 "u32 list" | Fault

codatatype 'r prog =
    Ret 'r
  | Do act "u32 \<Rightarrow> (u32 \<Rightarrow> byte) \<Rightarrow> 'r prog"

text \<open>One statement after the other.\<close>

primcorec seq :: "'a prog \<Rightarrow> ('a \<Rightarrow> 'b prog) \<Rightarrow> 'b prog" where
  "seq t f = (case t of Ret x \<Rightarrow> f x | Do a k \<Rightarrow> Do a (\<lambda>r m. seq (k r m) f))"

text \<open>A loop: the body is run again for every \<open>Inl\<close> it returns and left with an \<open>Inr\<close>. The tree
  \<open>t\<close> is the rest of the iteration under way.\<close>

primcorec loop_from :: "('l \<Rightarrow> ('l + 'r) prog) \<Rightarrow> ('l + 'r) prog \<Rightarrow> 'r prog" where
  "loop_from body t = (case t of
      Ret (Inl l) \<Rightarrow> Do Look (\<lambda>_ _. loop_from body (body l))
    | Ret (Inr r) \<Rightarrow> Ret r
    | Do a k \<Rightarrow> Do a (\<lambda>r m. loop_from body (k r m)))"

definition loop :: "('l \<Rightarrow> ('l + 'r) prog) \<Rightarrow> 'l \<Rightarrow> 'r prog" where
  "loop body l = loop_from body (body l)"

primrec for_prog :: "'i list \<Rightarrow> ('i \<Rightarrow> unit prog) \<Rightarrow> unit prog" where
  "for_prog [] f = Ret ()"
| "for_prog (i # is) f = seq (f i) (\<lambda>_. for_prog is f)"

lemma seq_simps [simp]: "seq (Ret x) f = f x" "seq (Do a k) f = Do a (\<lambda>r m. seq (k r m) f)"
  by (subst seq.code, simp)+

lemma loop_from_simps [simp]: "loop_from b (Ret (Inr r)) = Ret r" "loop_from b (Do a k) = Do a (\<lambda>r m. loop_from b (k r m))"
  by (subst loop_from.code, simp)+

lemma loop_from_again: "loop_from b (Ret (Inl l)) = Do Look (\<lambda>_ _. loop_from b (b l))"
  by (subst loop_from.code) simp

lemma seq_Ret [simp]: "seq t Ret = t"
proof (coinduction arbitrary: t rule: prog.coinduct_strong)
  case Eq_prog
  then show ?case by (cases t) (auto simp: rel_fun_def)
qed

lemma seq_assoc: "seq (seq t f) g = seq t (\<lambda>x. seq (f x) g)"
proof (coinduction arbitrary: t rule: prog.coinduct_strong)
  case Eq_prog
  then show ?case by (cases t) (auto simp: rel_fun_def)
qed

text \<open>The iteration under way up to the end of \<open>t\<close>.\<close>

lemma loop_from_seq: "loop_from b (seq t f) = seq t (\<lambda>x. loop_from b (f x))"
proof (coinduction arbitrary: t rule: prog.coinduct_strong)
  case Eq_prog
  then show ?case by (cases t) (auto simp: rel_fun_def)
qed

lemma seq_for_append: "for_prog (xs @ ys) f = seq (for_prog xs f) (\<lambda>_. for_prog ys f)"
  by (induction xs) (simp_all add: seq_assoc)

section \<open>Processes\<close>

datatype thread = Going "unit prog" | Called "u32 \<Rightarrow> (u32 \<Rightarrow> byte) \<Rightarrow> unit prog"

text \<open>The registers at a supervisor call: the arguments are in \<open>r0\<close> and up.\<close>

definition load_args :: "u32 list \<Rightarrow> ctx_t \<Rightarrow> ctx_t" where
  "load_args xs c = c\<lparr>gpr := splice_at 0 xs (gpr c)\<rparr>"

text \<open>Where processes go on after the call \<open>i\<close> of process \<open>p\<close>, which returns to \<open>c\<close>: a new
  process behind the call of \<open>fork\<close>, as its parent, and a process that has become another
  program at its entry, whose code is \<open>code\<close>.\<close>

definition after_call :: "(u32 \<Rightarrow> unit prog) \<Rightarrow> nat \<Rightarrow> u32 \<Rightarrow> (u32 \<Rightarrow> (u32 \<Rightarrow> byte) \<Rightarrow> unit prog) \<Rightarrow> ctx_t \<Rightarrow>
    (nat \<Rightarrow> thread) \<Rightarrow> nat \<Rightarrow> thread" where
  "after_call code p i k c T =
     (if i = 0x03 \<and> arg 0 c \<noteq> Some (-1) then T(p := Called k, unat (the (arg 0 c)) := Called k)
      else if i = 0x04 \<and> arg 0 c = Some 0 then T(p := Going (code (pc c)))
      else T(p := Called k))"

text \<open>A step of the process that has the processor. \<open>None\<close>: its function returns to nowhere, it
  does something C leaves undefined, or the kernel does.\<close>

definition prog_step :: "'h env \<Rightarrow> (u32 \<Rightarrow> unit prog) \<Rightarrow> ctx_t \<times> ('h, 'a) kernel_scheme \<times> (nat \<Rightarrow> thread) \<Rightarrow>
    (ctx_t \<times> ('h, 'a) kernel_scheme \<times> (nat \<Rightarrow> thread)) option" where
  "prog_step e code st = (case st of (c, s, T) \<Rightarrow> do {
     p \<leftarrow> current s;
     (case T p of
        Called k \<Rightarrow> do {
          r \<leftarrow> arg 0 c;
          Some (c, s, T(p := Going (k r (mem s))))
        }
      | Going (Ret _) \<Rightarrow> None
      | Going (Do Look k) \<Rightarrow> Some (c, s, T(p := Going (k 0 (mem s))))
      | Going (Do (Store a xs) k) \<Rightarrow> do {
          let s = mem_write a xs s;
          Some (c, s, T(p := Going (k 0 (mem s))))
        }
      | Going (Do (Call i xs) k) \<Rightarrow> do {
          (c, s) \<leftarrow> kernel_handler_svc e i (load_args xs c) s;
          Some (c, s, after_call code p i k c T)
        }
      | Going (Do Fault k) \<Rightarrow> None)
   })"

text \<open>The steps of the whole system: the running process, an interrupt, input at the console.\<close>

fun asks_kill_all :: "ctx_t \<Rightarrow> thread \<Rightarrow> bool" where
  "asks_kill_all c (Going (Do (Call i xs) k)) = kills_all i (load_args xs c)"
| "asks_kill_all c _ = False"

inductive sys_step :: "'h env \<Rightarrow> (u32 \<Rightarrow> unit prog) \<Rightarrow> ctx_t \<times> ('h, 'a) machine_scheme \<times> (nat \<Rightarrow> thread) \<Rightarrow>
    ctx_t \<times> ('h, 'a) machine_scheme \<times> (nat \<Rightarrow> thread) \<Rightarrow> bool" for e code where
  sys_prog: "prog_step e code (c, s, T) = Some (c', s', T') \<Longrightarrow> current s = Some p \<Longrightarrow> \<not> asks_kill_all c (T p) \<Longrightarrow>
     sys_step e code (c, s, T) (c', s', T')"
| sys_irq: "kernel_handler_irq c (s\<lparr>GICC0 := (GICC0 s)\<lparr>IAR := i\<rparr>\<rparr>) = Some (c', s') \<Longrightarrow> sys_step e code (c, s, T) (c', s', T)"
| sys_console: "sys_step e code (c, s, T) (c, s\<lparr>uart0 := u\<rparr>, T)"

section \<open>Programs only do what the kernel allows\<close>

lemma user_step: "(kernel_step e)\<^sup>*\<^sup>* (c, s) (c', s)" for s :: "('h, 'a) machine_scheme"
  using k_user [of e c s c' "mem s"] by (simp add: r_into_rtranclp)

lemma prog_step_kernel:
  fixes s :: "('h, 'a) machine_scheme"
  assumes "prog_step e code (c, s, T) = Some (c', s', T')" and "current s = Some p" and "\<not> asks_kill_all c (T p)"
  shows "(kernel_step e)\<^sup>*\<^sup>* (c, s) (c', s')"
proof (cases "T p")
  case (Called k)
  with assms(1,2) show ?thesis by (auto simp: prog_step_def bind_eq_Some_conv)
next
  case (Going t)
  show ?thesis
  proof (cases t)
    case (Ret x)
    with assms(1,2) Going show ?thesis by (simp add: prog_step_def)
  next
    case (Do a k)
    show ?thesis
    proof (cases a)
      case (Store x xs)
      with assms(1,2) Going Do have "s' = mem_write x xs s" "c' = c" by (simp_all add: prog_step_def Let_def)
      with k_user [of e c s c] show ?thesis by (auto simp: mem_write_def intro: r_into_rtranclp)
    next
      case (Call i xs)
      with assms(1,2) Going Do have h: "kernel_handler_svc e i (load_args xs c) s = Some (c', s')"
        by (auto simp: prog_step_def bind_eq_Some_conv)
      from assms(3) Going Do Call have "\<not> kills_all i (load_args xs c)" by simp
      with k_svc [OF h] user_step [of e c s "load_args xs c"] show ?thesis by (meson rtranclp.rtrancl_into_rtrancl)
    qed (use assms(1,2) Going Do in \<open>simp_all add: prog_step_def\<close>)
  qed
qed

lemma sys_step_kernel: "sys_step e code (c, s, T) (c', s', T') \<Longrightarrow> (kernel_step e)\<^sup>*\<^sup>* (c, s) (c', s')"
  by (erule sys_step.cases) (auto intro: prog_step_kernel k_irq k_console)

interpretation sys: refined_steps "kernel_step e" "\<lambda>(c, s). kernel_inv s" "sys_step e code" "\<lambda>(c, s, T). (c, s)" for e code
  by unfold_locales (auto intro: sys_step_kernel)


end
