(* ===== verification/Userlib.thy ===== *)
theory Userlib
  imports Kprelude "HOL-Library.Signed_Division"
begin

text \<open>
  The computations of the user programs: the conversions \<open>int2str\<close> and \<open>str2int\<close> and the
  length search of \<open>write_int\<close> in \<open>src/user/libc.c\<close>, and the functions the three demo
  programs \<open>P0\<close>, \<open>P1\<close> and \<open>P2\<close> print: \<open>is_prime\<close>, \<open>gcd\<close> and \<open>weight\<close>.

  A C \<open>int\<close> is an integer here, and \<open>c_int\<close> is the check that the result of an arithmetic
  operation fits it: where it does not, the C code is undefined. \<open>char\<close> is unsigned on the
  target.
\<close>

definition c_int :: "int \<Rightarrow> int option" where
  "c_int v = (if - (2 ^ 31) \<le> v \<and> v < 2 ^ 31 then Some v else None)"

section \<open>Decimal strings\<close>

text \<open>The \<open>do\<close> loop of \<open>int2str\<close>: the digits, last one first. It stops at the end of the
  caller's array, where the C code is no longer defined.\<close>

function digit_loop :: "int \<Rightarrow> nat \<Rightarrow> int \<Rightarrow> byte list \<Rightarrow> (nat \<times> byte list) option" where
  "digit_loop base c value str =
     (if c < length str \<and> base \<noteq> 0 then
        let str = str[c := of_int (value smod base + 48)];
            value = value sdiv base
        in if value \<noteq> 0 then digit_loop base (c + 1) value str else Some (c + 1, str)
      else None)"
  by pat_completeness auto
termination by (relation "measure (\<lambda>(base, c, value, str). length str - c)") auto

declare digit_loop.simps [simp del]

text \<open>One exchange of the reversal, and \<open>int2str\<close>; the result is the caller's array.\<close>

definition swap_ends :: "nat \<Rightarrow> nat \<Rightarrow> byte list \<Rightarrow> byte list option" where
  "swap_ends c i str = do {
     t \<leftarrow> arr str i;
     x \<leftarrow> arr str (c - i - 1);
     str \<leftarrow> arr_upd str i x;
     arr_upd str (c - i - 1) t
   }"

definition int2str :: "int \<Rightarrow> byte list \<Rightarrow> int \<Rightarrow> byte list option" where
  "int2str value str base = do {
     (c, str) \<leftarrow>
       (if value = 0 then do {
          str \<leftarrow> arr_upd str 0 48;
          Some (1, str)
        }
        else do {
          let negative = value < 0;
          value \<leftarrow> (if negative then c_int (value * -1) else Some value);
          (c, str) \<leftarrow> digit_loop base 0 value str;
          (c, str) \<leftarrow> (if negative then do {
                         str \<leftarrow> arr_upd str c 45;
                         Some (c + 1, str)
                       }
                       else Some (c, str));
          str \<leftarrow> for_each [0..<(c - 1) div 2 + 1] (swap_ends c) str;
          Some (c, str)
        });
     arr_upd str c 0
   }"

text \<open>\<open>str2int\<close> reads from the right; the first list has the indices still to visit.\<close>

fun str_loop :: "nat list \<Rightarrow> byte list \<Rightarrow> int \<Rightarrow> int \<Rightarrow> int \<Rightarrow> int option" where
  "str_loop [] str base e value = Some value"
| "str_loop (i # is) str base e value = do {
     x \<leftarrow> arr str i;
     (if x = 45 then c_int (- value)
      else do {
        t \<leftarrow> c_int (e * (int (unat x) - 48));
        value \<leftarrow> c_int (value + t);
        e \<leftarrow> c_int (e * base);
        str_loop is str base e value
      })
   }"

definition str2int :: "byte list \<Rightarrow> nat \<Rightarrow> int \<Rightarrow> int option" where
  "str2int str n base = str_loop (rev [0..<n]) str base 1 0"

text \<open>The search of \<open>write_int\<close>: the bytes it passes to \<open>write\<close>, or none when the first
  twelve have no terminator.\<close>

fun nul_at :: "byte list \<Rightarrow> nat list \<Rightarrow> nat option option" where
  "nul_at buf [] = Some None"
| "nul_at buf (n # ns) = do {
     x \<leftarrow> arr buf n;
     (if x = 0 then Some (Some n) else nul_at buf ns)
   }"

definition write_int_bytes :: "byte list \<Rightarrow> int \<Rightarrow> byte list option option" where
  "write_int_bytes buf x = do {
     buf \<leftarrow> int2str x buf 10;
     r \<leftarrow> nul_at buf [0..<12];
     Some (map_option (\<lambda>n. take n buf) r)
   }"

section \<open>The demo programs\<close>

partial_function (option) prime_loop :: "u32 \<Rightarrow> u32 \<Rightarrow> u32 option" where
  "prime_loop x d =
     (if d * d \<le> x then if x mod d = 0 then Some 0 else prime_loop x (d + 2)
      else Some 1)"

definition is_prime :: "u32 \<Rightarrow> u32 option" where
  "is_prime x = (if x AND 1 = 0 \<or> x < 2 then Some (if x = 2 then 1 else 0) else prime_loop x 3)"

partial_function (option) gcd_sub :: "u32 \<Rightarrow> u32 \<Rightarrow> u32 option" where
  "gcd_sub x y =
     (if x = y then Some x
      else if x > y then gcd_sub (x - y) y
      else gcd_sub x (y - x))"

definition weight :: "u32 \<Rightarrow> u32" where
  "weight x =
     (let x = (x AND 0x55555555) + (drop_bit 1 x AND 0x55555555);
          x = (x AND 0x33333333) + (drop_bit 2 x AND 0x33333333);
          x = (x AND 0x0F0F0F0F) + (drop_bit 4 x AND 0x0F0F0F0F);
          x = (x AND 0x00FF00FF) + (drop_bit 8 x AND 0x00FF00FF);
          x = (x AND 0x0000FFFF) + (drop_bit 16 x AND 0x0000FFFF)
      in x)"

section \<open>Greatest common divisor\<close>

lemma gcd_sub_gcd:
  assumes "0 < x" and "0 < y"
  shows "gcd_sub x y = Some (of_nat (gcd (unat x) (unat y)))"
  using assms
proof (induction "unat x + unat y" arbitrary: x y rule: less_induct)
  case less
  consider "x = y" | "y < x" | "x < y" by fastforce
  then show ?case
  proof cases
    case 1
    then show ?thesis by (subst gcd_sub.simps) simp
  next
    case 2
    then have "unat (x - y) = unat x - unat y" "unat y < unat x"
      using unat_sub [of y x] by (simp_all add: word_less_nat_alt less_imp_le)
    moreover have "gcd (unat x - unat y) (unat y) = gcd (unat x) (unat y)" using \<open>unat y < unat x\<close> by (simp add: gcd_diff1_nat)
    moreover have "0 < unat y" "0 < x - y" using less.prems 2 by (simp_all add: unat_gt_0 word_neq_0_conv [symmetric])
    ultimately show ?thesis using less.hyps [of "x - y" y] less.prems 2 by (subst gcd_sub.simps) simp
  next
    case 3
    then have "unat (y - x) = unat y - unat x" "unat x < unat y"
      using unat_sub [of x y] by (simp_all add: word_less_nat_alt less_imp_le)
    moreover have "gcd (unat x) (unat y - unat x) = gcd (unat x) (unat y)" using \<open>unat x < unat y\<close>
      by (metis gcd.commute gcd_diff1_nat less_or_eq_imp_le)
    moreover have "0 < unat x" "0 < y - x" using less.prems 3 by (simp_all add: unat_gt_0 word_neq_0_conv [symmetric])
    ultimately show ?thesis using less.hyps [of x "y - x"] less.prems 3 by (subst gcd_sub.simps) (auto dest: order.asym)
  qed
qed

lemma gcd_sub_zero:
  assumes "gcd_sub x y = Some r"
  shows "x = 0 \<longleftrightarrow> y = 0"
proof -
  have step: "(x = 0) = (y = 0)"
    if IH: "\<And>x y r. f x y = Some r \<Longrightarrow> (x = 0) = (y = 0)"
      and r: "(if x = y then Some x else if y < x then f (x - y) y else f x (y - x)) = Some r"
    for f :: "u32 \<Rightarrow> u32 \<Rightarrow> u32 option" and x y r
  proof -
    consider "x = y" | "y < x" "f (x - y) y = Some r" | "x < y" "f x (y - x) = Some r"
      using r by (cases x y rule: linorder_cases) (auto split: if_splits dest: order.asym)
    then show "(x = 0) = (y = 0)"
    proof cases
      case 2
      then have "(x - y = 0) = (y = 0)" by (intro IH)
      with 2(1) show ?thesis by auto
    next
      case 3
      then have "(x = 0) = (y - x = 0)" by (intro IH)
      with 3(1) show ?thesis by auto
    qed simp
  qed
  show ?thesis
    by (rule gcd_sub.raw_induct [of "\<lambda>x y r. (x = 0) = (y = 0)" "(x, y)" r, unfolded split_conv, OF step assms])
qed

text \<open>C39. The recursion of \<open>gcd\<close> by subtraction ends exactly when both arguments are zero or
  neither is, and then returns the greatest common divisor; with exactly one argument zero it
  never returns.\<close>

theorem gcd_sub_spec:
  "gcd_sub x y = (if (x = 0) = (y = 0) then Some (of_nat (gcd (unat x) (unat y))) else None)"
proof (cases "(x = 0) = (y = 0)")
  case True
  show ?thesis
  proof (cases "x = 0")
    case True
    with \<open>(x = 0) = (y = 0)\<close> show ?thesis by (subst gcd_sub.simps) simp
  next
    case False
    with True have "0 < x" "0 < y" by (simp_all add: word_gt_0)
    then show ?thesis using True by (simp add: gcd_sub_gcd)
  qed
next
  case False
  then show ?thesis using gcd_sub_zero by (cases "gcd_sub x y") auto
qed


section \<open>Primes\<close>

definition prime_num :: "nat \<Rightarrow> bool" where
  "prime_num p \<longleftrightarrow> 1 < p \<and> (\<forall>d. d dvd p \<longrightarrow> d = 1 \<or> d = p)"

text \<open>A number with no divisor up to its square root has none.\<close>

lemma prime_num_small_divisors:
  assumes "1 < n" and "\<And>d. 1 < d \<Longrightarrow> d * d \<le> n \<Longrightarrow> \<not> d dvd n"
  shows "prime_num n"
  unfolding prime_num_def
proof (intro conjI allI impI)
  fix d assume "d dvd n"
  then obtain e where n: "n = d * e" by (elim dvdE)
  show "d = 1 \<or> d = n"
  proof (rule ccontr)
    assume "\<not> (d = 1 \<or> d = n)"
    moreover from this have "d \<noteq> 0" "e \<noteq> 0" "e \<noteq> 1" using n assms(1) by (auto intro: Nat.gr0I)
    ultimately have "1 < d" "1 < e" by linarith+
    moreover have "d * d \<le> n \<or> e * e \<le> n" using n by (metis mult_le_mono nat_le_linear mult.commute order_refl)
    moreover have "d dvd n" "e dvd n" using n by simp_all
    ultimately show False using assms(2) by blast
  qed
qed (fact assms(1))

lemma u32_square:
  assumes "d \<le> 65535"
  shows "unat (of_nat d * of_nat d :: u32) = d * d"
proof -
  have "d * d \<le> 65535 * 65535" using assms by (intro mult_le_mono) simp_all
  then have "unat (of_nat (d * d) :: u32) = d * d" by (intro unat_of_nat_u32) simp
  then show ?thesis by simp
qed

lemma prime_loop_correct:
  assumes "odd n \<and> 1 < n" and "n < 65535 * 65535" and "odd d" and "3 \<le> d" and "d \<le> 65535"
    and "\<And>k. 1 < k \<Longrightarrow> k < d \<Longrightarrow> \<not> k dvd n"
  shows "prime_loop (of_nat n) (of_nat d) = Some (if prime_num n then 1 else 0)"
  using assms(3-)
proof (induction "65537 - d" arbitrary: d rule: less_induct)
  case less
  have n: "unat (of_nat n :: u32) = n" using assms(2) by (intro unat_of_nat_u32) simp
  have d: "unat (of_nat d :: u32) = d" using less.prems(3) by (intro unat_of_nat_u32) simp
  have le: "(of_nat d * of_nat d \<le> (of_nat n :: u32)) \<longleftrightarrow> d * d \<le> n"
    unfolding word_le_nat_alt u32_square [OF less.prems(3)] n ..
  have dv: "((of_nat n :: u32) mod of_nat d = 0) \<longleftrightarrow> d dvd n"
    using unat_mod [of "of_nat n :: u32" "of_nat d"] by (simp add: n d dvd_eq_mod_eq_0 unat_eq_0 [symmetric] del: unat_eq_0)
  consider "\<not> d * d \<le> n" | "d * d \<le> n" "d dvd n" | "d * d \<le> n" "\<not> d dvd n" by blast
  then show ?case
  proof cases
    case 1
    have "\<not> k dvd n" if "1 < k" "k * k \<le> n" for k
      using less.prems(4) [of k] that 1 by (metis leI le_trans mult_le_mono)
    then have "prime_num n" using assms(1) by (intro prime_num_small_divisors) simp_all
    with 1 show ?thesis by (subst prime_loop.simps) (simp add: le)
  next
    case 2
    have "2 * d \<le> d * d" using less.prems(2) by (intro mult_le_mono1) simp
    then have "d \<noteq> 1" "d < n" using 2 less.prems(2) by linarith+
    then have "\<not> prime_num n" using 2 by (auto simp: prime_num_def)
    with 2 show ?thesis by (subst prime_loop.simps) (simp add: le dv)
  next
    case 3
    have "d < 65535" using 3(1) assms(2) by (metis leI le_less_trans less_irrefl mult_le_mono less.prems(3))
    then have d2: "odd (d + 2)" "3 \<le> d + 2" "d + 2 \<le> 65535" using less.prems(1) by (auto elim!: oddE)
    have nd: "\<not> k dvd n" if k: "1 < k" "k < d + 2" for k
    proof -
      consider "k < d" | "k = d" | "k = d + 1" using k(2) by linarith
      then show ?thesis
      proof cases
        case 3
        then have "even k" using less.prems(1) by simp
        then show ?thesis using assms(1) by (meson dvd_trans)
      qed (use less.prems(4) k(1) \<open>\<not> d dvd n\<close> in auto)
    qed
    have "prime_loop (of_nat n) (of_nat (d + 2)) = Some (if prime_num n then 1 else 0)"
      using d2 less.prems(3) by (intro less.hyps nd) simp_all
    then show ?thesis using 3 by (subst prime_loop.simps) (simp add: le dv add.commute)
  qed
qed


lemma even_u32: "(x :: u32) AND 1 = 0 \<longleftrightarrow> even (unat x)"
proof -
  have "x AND 1 = 0 \<longleftrightarrow> \<not> bit x 0" by (simp add: and_one_eq bit_0 even_iff_mod_2_eq_zero)
  also have "\<dots> \<longleftrightarrow> \<not> bit (unat x) 0" by (simp only: bit_unsigned_iff) simp
  finally show ?thesis by (simp add: bit_0)
qed

text \<open>Below the square of 65535, \<open>is_prime\<close> returns 1 for the prime numbers and 0 for the
  others.\<close>

lemma is_prime_correct:
  assumes "unat x < 65535 * 65535"
  shows "is_prime x = Some (if prime_num (unat x) then 1 else 0)"
proof (cases "even (unat x) \<or> x < 2")
  case True
  have "prime_num (unat x) \<longleftrightarrow> unat x = 2"
  proof (cases "x < 2")
    case True
    then have "unat x < 2" by (simp add: word_less_nat_alt)
    then show ?thesis by (auto simp: prime_num_def)
  next
    case False
    with True have d: "2 dvd unat x" by simp
    have "d = 1 \<or> d = 2" if "d dvd 2" for d :: nat
    proof -
      have "d \<noteq> 0" "d \<le> 2" using that by (auto dest: dvd_imp_le intro: Nat.gr0I)
      then show ?thesis by linarith
    qed
    then have "prime_num 2" by (simp add: prime_num_def)
    moreover have "unat x = 2" if "prime_num (unat x)"
    proof -
      have "(2 :: nat) = 1 \<or> 2 = unat x" using that d unfolding prime_num_def by blast
      then show ?thesis by simp
    qed
    ultimately show ?thesis by auto
  qed
  moreover have "unat (2 :: u32) = 2" by simp
  then have "unat x = 2 \<longleftrightarrow> x = 2" by (metis unsigned_word_eqI)
  ultimately show ?thesis using True by (simp add: is_prime_def even_u32)
next
  case False
  then have "odd (unat x) \<and> 1 < unat x" by (auto simp: word_less_nat_alt intro: Suc_lessI)
  moreover have "\<not> k dvd unat x" if "1 < k" "k < 3" for k
  proof -
    have "k = 2" using that by simp
    then show ?thesis using False by simp
  qed
  ultimately have "prime_loop (of_nat (unat x)) (of_nat 3) = Some (if prime_num (unat x) then 1 else 0)"
    using assms by (intro prime_loop_correct) simp_all
  then show ?thesis using False by (simp add: is_prime_def even_u32)
qed

lemma odd_square_top:
  assumes "odd (unat d)"
  shows "(d :: u32) * d \<le> 0xFFFFFFF9"
proof -
  obtain k where k: "unat d = 2 * k + 1" using assms by (elim oddE)
  have "even (k * (k + 1))" by simp
  then obtain m where m: "k * (k + 1) = 2 * m" by (elim evenE)
  have "unat d * unat d = 4 * (k * (k + 1)) + 1" by (simp add: k algebra_simps)
  then have sq: "unat d * unat d = 8 * m + 1" unfolding m by simp
  have "unat (d * d) = (8 * m + 1) mod 2 ^ 32" by (simp only: unat_word_ariths sq) simp
  then have "unat (d * d) mod 8 = (8 * m + 1) mod 8" using mod_mod_cancel [of 8 "2 ^ 32" "8 * m + 1"] by simp
  then have "unat (d * d) mod 8 = 1" by (simp add: mod_Suc)
  moreover have "unat (d * d) < 2 ^ 32" using unsigned_less [of "d * d"] by simp
  moreover have "n \<le> 0xFFFFFFF9" if m: "n mod 8 = 1" "n < 2 ^ 32" for n :: nat
  proof -
    obtain q where n: "n = 8 * q + 1" using m(1) by (metis mult_div_mod_eq)
    then have "8 * q < 4294967295" using m(2) by simp
    then have "q \<le> 536870911" by linarith
    then show ?thesis using n by linarith
  qed
  ultimately have "unat (d * d) \<le> 0xFFFFFFF9" by blast
  then show ?thesis by (simp add: word_le_nat_alt)
qed

lemma prime_loop_ends:
  assumes "odd (unat x)" and "odd (unat d)" and "unat d \<le> unat x"
  shows "\<exists>r\<in>{0, 1}. prime_loop x d = Some r \<and> (0xFFFFFFF9 \<le> x \<longrightarrow> r = 0)"
  using assms(2-)
proof (induction "unat x - unat d" arbitrary: d rule: less_induct)
  case less
  show ?case
  proof (cases "d * d \<le> x \<and> x mod d \<noteq> 0")
    case True
    then have "d \<noteq> x" by auto
    then have "unat d < unat x" using less.prems(2) by (metis le_neq_implies_less unsigned_word_eqI)
    then have lt: "unat d + 2 \<le> unat x" using less.prems(1) assms(1) by presburger
    moreover have "unat x < 2 ^ 32" using unsigned_less [of x] by simp
    ultimately have "unat (d + 2) = unat d + 2" by (simp add: unat_word_ariths)
    with lt less.prems(1) less.hyps [of "d + 2"] show ?thesis
      using True by (subst prime_loop.simps) simp
  next
    case False
    have "d * d \<le> x" if "0xFFFFFFF9 \<le> x" using odd_square_top [OF less.prems(1)] that by (rule order_trans)
    with False show ?thesis by (subst prime_loop.simps) auto
  qed
qed

text \<open>\<open>is_prime\<close> returns for every input. From 4294967289 on it returns 0 for every input,
  primes or not: the square it compares with its argument wraps around.\<close>

lemma is_prime_returns: "\<exists>r\<in>{0, 1}. is_prime x = Some r \<and> (0xFFFFFFF9 \<le> x \<longrightarrow> r = 0)"
proof (cases "even (unat x) \<or> x < 2")
  case True
  then show ?thesis by (auto simp: is_prime_def even_u32)
next
  case False
  then have "3 \<le> unat x" by (cases "unat x = 2") (auto simp: word_less_nat_alt)
  then show ?thesis using False prime_loop_ends [of x 3] by (simp add: is_prime_def even_u32)
qed

section \<open>Hamming weight\<close>

text \<open>\<open>dig B i a\<close> is digit \<open>i\<close> of \<open>a\<close> in base \<open>B\<close>; without carries, digits add up.\<close>

definition dig :: "nat \<Rightarrow> nat \<Rightarrow> nat \<Rightarrow> nat" where
  "dig B i a = a div B ^ i mod B"

lemma dig_Suc: "dig B (Suc i) a = dig B i (a div B)"
  by (simp add: dig_def div_mult2_eq)

lemma dig_add:
  assumes "\<And>i. dig B i a + dig B i b < B"
  shows "dig B i (a + b) = dig B i a + dig B i b"
  using assms
proof (induction i arbitrary: a b)
  case 0
  from 0 [of 0] have "a mod B + b mod B < B" by (simp add: dig_def)
  then show ?case using mod_add_eq [of a B b] by (simp add: dig_def)
next
  case (Suc i)
  from Suc.prems [of 0] have "a mod B + b mod B < B" by (simp add: dig_def)
  then have "(a + b) div B = a div B + b div B" using div_add1_eq [of a b B] by simp
  moreover have "dig B j (a div B) + dig B j (b div B) < B" for j
    using Suc.prems [of "Suc j"] by (simp add: dig_Suc)
  ultimately show ?case using Suc.IH [of "a div B" "b div B"] by (simp add: dig_Suc)
qed

lemma dig_unat: "dig (2 ^ w) i (unat x) = unat (take_bit w (drop_bit (w * i) (x :: u32)))"
proof -
  have "unat (take_bit w (drop_bit (w * i) x)) = take_bit w (drop_bit (w * i) (unat x))"
    using take_bit_nat_eq_self [OF unsigned_less [of x]]
    by (simp only: unsigned_take_bit_eq unsigned_drop_bit_eq)
  then show ?thesis by (simp add: dig_def take_bit_eq_mod drop_bit_eq_div power_mult)
qed

text \<open>One line of \<open>weight\<close>: fields of \<open>w\<close> bits are added in pairs. \<open>mask\<close> selects the
  lower half of every field of \<open>2 * w\<close> bits.\<close>

lemma weight_line:
  fixes x mask :: u32
  assumes mask: "\<And>j. j < 32 \<Longrightarrow> bit mask j \<longleftrightarrow> j mod (2 * w) < w"
    and small: "2 * unat mask < 2 ^ 32"
    and room: "\<And>i. dig (2 ^ w) (2 * i) (unat x) + dig (2 ^ w) (2 * i + 1) (unat x) < 2 ^ (2 * w)"
  shows "dig (2 ^ (2 * w)) i (unat ((x AND mask) + (drop_bit w x AND mask)))
    = dig (2 ^ w) (2 * i) (unat x) + dig (2 ^ w) (2 * i + 1) (unat x)"
proof -
  have field: "take_bit (2 * w) (drop_bit (2 * w * k) (y AND mask)) = take_bit w (drop_bit (2 * w * k) y)"
    for k and y :: u32
  proof (rule bit_word_eqI)
    fix n assume "n < LENGTH(32)"
    show "bit (take_bit (2 * w) (drop_bit (2 * w * k) (y AND mask))) n \<longleftrightarrow> bit (take_bit w (drop_bit (2 * w * k) y)) n"
      using mask [of "2 * w * k + n"]
      by (auto simp: bit_take_bit_iff bit_drop_bit_eq bit_and_iff dest: bit_imp_le_length)
  qed
  have lo: "dig (2 ^ (2 * w)) k (unat (x AND mask)) = dig (2 ^ w) (2 * k) (unat x)" for k
    by (simp only: dig_unat field) (simp add: mult.assoc mult.left_commute)
  have hi: "dig (2 ^ (2 * w)) k (unat (drop_bit w x AND mask)) = dig (2 ^ w) (2 * k + 1) (unat x)" for k
    by (simp only: dig_unat field drop_bit_drop_bit) (simp add: algebra_simps)
  have le: "unat (y AND mask) \<le> unat mask" for y :: u32
    using word_and_le1 [of y mask] by (simp add: word_le_nat_alt)
  have "unat ((x AND mask) + (drop_bit w x AND mask)) = unat (x AND mask) + unat (drop_bit w x AND mask)"
    using small le [of x] le [of "drop_bit w x"] by (simp add: unat_word_ariths)
  moreover have "dig (2 ^ (2 * w)) k (unat (x AND mask)) + dig (2 ^ (2 * w)) k (unat (drop_bit w x AND mask)) < 2 ^ (2 * w)" for k
    unfolding lo hi by (rule room)
  note dig_add [OF this, of i]
  ultimately show ?thesis unfolding lo hi by simp
qed


text \<open>The number of bits set in the \<open>w\<close> bits from \<open>w * i\<close> on.\<close>

definition ones :: "nat \<Rightarrow> u32 \<Rightarrow> nat \<Rightarrow> nat" where
  "ones w x i = (\<Sum>j<w. of_bool (bit x (w * i + j)))"

lemma ones_le: "ones w x i \<le> w"
  unfolding ones_def using sum_bounded_above [of "{..<w}" "\<lambda>j. of_bool (bit x (w * i + j)) :: nat" 1] by simp

lemma ones_double: "ones (2 * w) x i = ones w x (2 * i) + ones w x (2 * i + 1)"
proof -
  have split: "(\<Sum>j<m + n. f j) = (\<Sum>j<m. f j) + (\<Sum>j<n. f (m + j))" for f :: "nat \<Rightarrow> nat" and m n
    by (induction n) simp_all
  have "w * (2 * i + 1) + j = 2 * w * i + (w + j)" for j by (simp add: algebra_simps)
  moreover have "w * (2 * i) + j = 2 * w * i + j" for j by simp
  ultimately show ?thesis using split [of "\<lambda>j. of_bool (bit x (2 * w * i + j))" w w]
    by (simp only: ones_def mult_2 [of w, symmetric])
qed

lemma ones_line:
  fixes x y mask :: u32
  assumes "\<And>i. dig (2 ^ w) i (unat y) = ones w x i" and "w \<in> {1, 2, 4, 8, 16}"
    and "\<And>j. j < 32 \<Longrightarrow> bit mask j \<longleftrightarrow> j mod (2 * w) < w" and "2 * unat mask < 2 ^ 32"
  shows "dig (2 ^ (2 * w)) i (unat ((y AND mask) + (drop_bit w y AND mask))) = ones (2 * w) x i"
proof -
  have "(2 * w) < 2 ^ (2 * w)" by simp
  then have "dig (2 ^ w) (2 * i) (unat y) + dig (2 ^ w) (2 * i + 1) (unat y) < 2 ^ (2 * w)" for i
    using ones_le [of w x "2 * i"] ones_le [of w x "2 * i + 1"] by (simp only: assms(1))
  from weight_line [of mask w, OF assms(3,4) this] show ?thesis by (simp only: assms(1) ones_double)
qed

lemma masks:
  "j < 32 \<Longrightarrow> bit (0x55555555 :: u32) j \<longleftrightarrow> j mod (2 * 1) < 1"
  "j < 32 \<Longrightarrow> bit (0x33333333 :: u32) j \<longleftrightarrow> j mod (2 * 2) < 2"
  "j < 32 \<Longrightarrow> bit (0x0F0F0F0F :: u32) j \<longleftrightarrow> j mod (2 * 4) < 4"
  "j < 32 \<Longrightarrow> bit (0x00FF00FF :: u32) j \<longleftrightarrow> j mod (2 * 8) < 8"
  "j < 32 \<Longrightarrow> bit (0x0000FFFF :: u32) j \<longleftrightarrow> j mod (2 * 16) < 16"
proof -
  have all: "P j" if "list_all P [0..<32]" "j < 32" for P using that by (auto simp: list_all_iff)
  show "j < 32 \<Longrightarrow> bit (0x55555555 :: u32) j \<longleftrightarrow> j mod (2 * 1) < 1" by (erule all [rotated]) code_simp
  show "j < 32 \<Longrightarrow> bit (0x33333333 :: u32) j \<longleftrightarrow> j mod (2 * 2) < 2" by (erule all [rotated]) code_simp
  show "j < 32 \<Longrightarrow> bit (0x0F0F0F0F :: u32) j \<longleftrightarrow> j mod (2 * 4) < 4" by (erule all [rotated]) code_simp
  show "j < 32 \<Longrightarrow> bit (0x00FF00FF :: u32) j \<longleftrightarrow> j mod (2 * 8) < 8" by (erule all [rotated]) code_simp
  show "j < 32 \<Longrightarrow> bit (0x0000FFFF :: u32) j \<longleftrightarrow> j mod (2 * 16) < 16" by (erule all [rotated]) code_simp
qed

lemma weight_count: "weight x = of_nat (card {i. i < 32 \<and> bit x i})"
proof -
  define x1 where "x1 = (x AND 0x55555555) + (drop_bit 1 x AND 0x55555555)"
  define x2 where "x2 = (x1 AND 0x33333333) + (drop_bit 2 x1 AND 0x33333333)"
  define x3 where "x3 = (x2 AND 0x0F0F0F0F) + (drop_bit 4 x2 AND 0x0F0F0F0F)"
  define x4 where "x4 = (x3 AND 0x00FF00FF) + (drop_bit 8 x3 AND 0x00FF00FF)"
  define x5 where "x5 = (x4 AND 0x0000FFFF) + (drop_bit 16 x4 AND 0x0000FFFF)"
  have "dig (2 ^ 1) i (unat x) = ones 1 x i" for i
    using bit_unsigned_iff [of x i, where ?'a = nat] by (auto simp: dig_def ones_def bit_iff_odd mod_2_eq_odd dest: bit_imp_le_length)
  then have "dig (2 ^ (2 * 1)) i (unat x1) = ones (2 * 1) x i" for i
    unfolding x1_def by (intro ones_line masks) simp_all
  then have "dig (2 ^ (2 * 2)) i (unat x2) = ones (2 * 2) x i" for i
    unfolding x2_def by (intro ones_line masks) simp_all
  then have "dig (2 ^ (2 * 4)) i (unat x3) = ones (2 * 4) x i" for i
    unfolding x3_def by (intro ones_line masks) simp_all
  then have "dig (2 ^ (2 * 8)) i (unat x4) = ones (2 * 8) x i" for i
    unfolding x4_def by (intro ones_line masks) simp_all
  then have "dig (2 ^ (2 * 16)) i (unat x5) = ones (2 * 16) x i" for i
    unfolding x5_def by (intro ones_line masks) simp_all
  moreover have "dig (2 ^ (2 * 16)) 0 (unat x5) = unat x5"
    using unsigned_less [of x5, where ?'a = nat] unfolding dig_def by simp
  ultimately have "unat x5 = ones 32 x 0" by simp
  also have "\<dots> = card {i. i < 32 \<and> bit x i}"
    using sum_of_bool_eq [of "{..<32}" "bit x"] by (simp only: ones_def) (simp add: Int_def)
  finally have "x5 = of_nat (card {i. i < 32 \<and> bit x i})" by (metis of_nat_unat ucast_id)
  then show ?thesis by (simp add: weight_def Let_def x1_def x2_def x3_def x4_def x5_def)
qed

text \<open>C40. \<open>weight\<close> counts the bits that are set in its argument.\<close>

theorem weight_spec: "weight x = of_nat (card {i. i < 32 \<and> bit x i})"
  by (rule weight_count)

section \<open>Decimal numerals\<close>

text \<open>The numeral of a number, and of an integer with its sign.\<close>

fun dec :: "nat \<Rightarrow> byte list" where
  "dec n = (if n < 10 then [] else dec (n div 10)) @ [of_nat (n mod 10 + 48)]"

declare dec.simps [simp del]

definition numeral_of :: "int \<Rightarrow> byte list" where
  "numeral_of v = (if v < 0 then [45] else []) @ dec (nat \<bar>v\<bar>)"

lemma digit_byte: "d < 10 \<Longrightarrow> unat (of_nat (d + 48) :: byte) = d + 48"
  using unat_of_nat [of "d + 48", where ?'a = 8] by (simp del: of_nat_add)

lemma digit_sdiv: "int n sdiv 10 = int (n div 10)" and digit_smod: "int n smod 10 = int (n mod 10)"
  by (simp_all add: signed_divide_int_def signed_modulo_int_def zdiv_int sgn_if minus_mult_div_eq_mod zmod_int)

lemma dec_bytes: "x \<in> set (dec n) \<Longrightarrow> 48 \<le> unat x \<and> unat x < 58"
proof (induction n rule: dec.induct)
  case (1 n)
  then show ?case
    by (subst (asm) (2) dec.simps) (auto simp: digit_byte split: if_splits simp del: of_nat_add)
qed

lemma dec_length: "n < 10 ^ Suc k \<Longrightarrow> length (dec n) \<le> Suc k"
proof (induction k arbitrary: n)
  case 0
  then show ?case by (simp add: dec.simps)
next
  case (Suc k)
  then have "n div 10 < 10 ^ Suc k" by (simp add: less_mult_imp_div_less mult.commute)
  then show ?case using Suc.IH by (subst dec.simps) auto
qed

lemma digit_loop_dec:
  "c + length (dec n) \<le> length str \<Longrightarrow>
    digit_loop 10 c (int n) str = Some (c + length (dec n), splice_at c (rev (dec n)) str)"
proof (induction n arbitrary: c str rule: dec.induct)
  case (1 n)
  let ?x = "of_nat (n mod 10 + 48) :: byte"
  have c: "c < length str" using 1(2) by (subst (asm) dec.simps) simp
  have x: "of_int (int n smod 10 + 48) = ?x" 
    unfolding digit_smod by (metis of_int_of_nat_eq of_nat_add of_nat_numeral)
  show ?case
  proof (cases "n < 10")
    case True
    then show ?thesis using c
      by (subst digit_loop.simps) (simp add: digit_sdiv x [simplified] dec.simps [of n] splice_at_def upd_conv_take_nth_drop)
  next
    case False
    then have d: "dec n = dec (n div 10) @ [?x]" by (simp add: dec.simps [of n])
    have v: "int n sdiv 10 \<noteq> 0" using False by (simp add: digit_sdiv)
    have "digit_loop 10 (c + 1) (int (n div 10)) (str[c := ?x])
        = Some (c + 1 + length (dec (n div 10)), splice_at (c + 1) (rev (dec (n div 10))) (str[c := ?x]))"
      using 1 False d by simp
    moreover have "splice_at (c + 1) (rev (dec (n div 10))) (str[c := ?x]) = splice_at c (rev (dec n)) str"
      using c by (simp add: splice_at_def d take_Suc_conv_app_nth)
    ultimately show ?thesis using c v by (subst digit_loop.simps) (simp add: digit_sdiv x [simplified] d Let_def)
  qed
qed

text \<open>The reversal.\<close>

lemma swap_ends_rev:
  assumes "0 < c" and "c \<le> length str"
  shows "for_each [0..<(c - 1) div 2 + 1] (swap_ends c) str = Some (rev (take c str) @ drop c str)"
proof -
  define P where "P k s \<longleftrightarrow> length s = length str \<and> (\<forall>j < length str. s ! j =
    (if j < c \<and> (j < k \<or> c - k \<le> j) then str ! (c - 1 - j) else str ! j))" for k and s :: "byte list"
  have "\<exists>s'. for_each [0..<(c - 1) div 2 + 1] (swap_ends c) str = Some s' \<and> P ((c - 1) div 2 + 1) s'"
  proof (rule for_each_upt)
    show "P 0 str" by (auto simp: P_def)
  next
    fix i s assume i: "i < (c - 1) div 2 + 1" and s: "P i s"
    then have ic: "i < c" "c - i - 1 < c" using assms(1) by linarith+
    then have b: "i < length str" "c - i - 1 < length str" using assms(2) by linarith+
    have "swap_ends c i s = Some (s[i := s ! (c - i - 1), c - i - 1 := s ! i])"
      using b s by (simp add: swap_ends_def P_def)
    moreover have "P (Suc i) (s[i := s ! (c - i - 1), c - i - 1 := s ! i])"
    proof -
      have si: "s ! i = str ! i" "s ! (c - i - 1) = str ! (c - i - 1)"
        using s b i ic by (auto simp: P_def)
      show ?thesis unfolding P_def si using s b i ic by (auto simp: P_def nth_list_update)
    qed
    ultimately show "\<exists>s'. swap_ends c i s = Some s' \<and> P (Suc i) s'" by blast
  qed
  then obtain s' where s': "for_each [0..<(c - 1) div 2 + 1] (swap_ends c) str = Some s'" "P ((c - 1) div 2 + 1) s'"
    by blast
  have "s' = rev (take c str) @ drop c str"
  proof (rule nth_equalityI)
    show "length s' = length (rev (take c str) @ drop c str)" using s'(2) assms by (simp add: P_def)
    fix j assume "j < length s'"
    then have "j < length str" using s'(2) by (simp add: P_def)
    moreover have "j < c \<Longrightarrow> j < (c - 1) div 2 + 1 \<or> c - ((c - 1) div 2 + 1) \<le> j" by linarith
    ultimately show "s' ! j = (rev (take c str) @ drop c str) ! j"
      using s'(2) assms by (auto simp: P_def nth_append rev_nth)
  qed
  with s'(1) show ?thesis by simp
qed


text \<open>\<open>int2str\<close> writes the numeral and a terminator.\<close>

lemma int2str_numeral:
  assumes v: "- (2 ^ 31) < v" "v < 2 ^ 31" and room: "length (numeral_of v) < length str"
  shows "int2str v str 10 = Some (numeral_of v @ 0 # drop (Suc (length (numeral_of v))) str)"
proof -
  let ?n = "nat \<bar>v\<bar>" and ?p = "numeral_of v"
  have fin: "arr_upd (?p @ drop (length ?p) str) (length ?p) 0 = Some (?p @ 0 # drop (Suc (length ?p)) str)"
    using room by (simp add: Cons_nth_drop_Suc [symmetric])
  have pos: "?p \<noteq> []" by (simp add: numeral_of_def dec.simps [of ?n])
  have turn: "for_each [0..<(c - 1) div 2 + 1] (swap_ends c) (rev ?p @ drop c str) = Some (?p @ drop c str)"
    if "c = length ?p" for c
  proof -
    have "0 < c" using that pos by simp
    then show ?thesis using that room swap_ends_rev [of c "rev ?p @ drop c str"] by simp
  qed
  have n: "0 < v \<Longrightarrow> v = int ?n" "v < 0 \<Longrightarrow> - v = int ?n" by simp_all
  have loop: "digit_loop 10 0 (int ?n) str = Some (length (dec ?n), rev (dec ?n) @ drop (length (dec ?n)) str)"
    using digit_loop_dec [of 0 ?n str] room by (simp add: numeral_of_def splice_at_def)
  consider "v = 0" | "0 < v" | "v < 0" by linarith
  then show ?thesis
  proof cases
    case 1
    then have "?p = [48]" by (simp add: numeral_of_def dec.simps)
    with 1 room fin show ?thesis by (cases str) (simp_all add: int2str_def)
  next
    case 2
    then have "?p = dec ?n" by (simp add: numeral_of_def)
    with 2 n(1) loop turn fin show ?thesis by (simp add: int2str_def)
  next
    case 3
    then have p: "?p = 45 # dec ?n" by (simp add: numeral_of_def)
    have "c_int (- v) = Some (int ?n)" using v 3 by (simp add: c_int_def)
    moreover have "arr_upd (rev (dec ?n) @ drop (length (dec ?n)) str) (length (dec ?n)) 45
        = Some (rev ?p @ drop (length ?p) str)"
      using room p by (simp add: Cons_nth_drop_Suc [symmetric] list_update_append)
    ultimately show ?thesis using 3 loop turn [of "length ?p"] fin p by (simp add: int2str_def)
  qed
qed

lemma numeral_length: "- (2 ^ 31) \<le> v \<Longrightarrow> v < 2 ^ 31 \<Longrightarrow> length (numeral_of v) \<le> 11"
proof -
  assume "- (2 ^ 31) \<le> v" "v < 2 ^ 31"
  then have "nat \<bar>v\<bar> < 10 ^ Suc 9" by simp
  then have "length (dec (nat \<bar>v\<bar>)) \<le> Suc 9" by (rule dec_length)
  then show ?thesis by (cases "v < 0") (simp_all add: numeral_of_def)
qed

lemma numeral_no_nul: "0 \<notin> set (numeral_of v)"
  using dec_bytes [of 0] by (auto simp: numeral_of_def split: if_splits)

lemma nul_at_prefix:
  "0 \<notin> set xs \<Longrightarrow> nul_at (pre @ xs @ 0 # ys) ([length pre..<length pre + length xs] @ (length pre + length xs) # ns)
    = Some (Some (length pre + length xs))"
proof (induction xs arbitrary: pre)
  case (Cons x xs)
  have "[length pre..<length pre + length (x # xs)] = length pre # [length (pre @ [x])..<length (pre @ [x]) + length xs]"
    using upt_conv_Cons [of "length pre" "length pre + length (x # xs)"] by simp
  with Cons.IH [of "pre @ [x]"] Cons.prems show ?case by simp
qed simp

text \<open>Within a buffer of twelve bytes, \<open>write_int\<close> writes exactly the decimal numeral of
  every \<open>int\<close> but the least one, which cannot be negated.\<close>

lemma write_int_spec:
  assumes "12 \<le> length buf" and "- (2 ^ 31) \<le> v" and "v < 2 ^ 31"
  shows "write_int_bytes buf v = (if v = - (2 ^ 31) then None else Some (Some (numeral_of v)))"
proof (cases "v = - (2 ^ 31)")
  case True
  then show ?thesis by (simp add: write_int_bytes_def int2str_def c_int_def)
next
  case False
  let ?n = "length (numeral_of v)"
  have n: "?n \<le> 11" using assms by (intro numeral_length)
  have "[0..<12] = [0..<?n] @ ?n # [Suc ?n..<12]" using n by (simp add: upt_split [of 0 ?n 12] upt_conv_Cons [of ?n 12])
  then show ?thesis
    using False assms n int2str_numeral [of v buf] nul_at_prefix [OF numeral_no_nul, of "[]" v _ "[Suc ?n..<12]"]
    by (simp add: write_int_bytes_def)
qed

text \<open>Reading a numeral back: from the tenth digit on, the power of ten the loop computes for
  the next digit does not fit an \<open>int\<close>.\<close>

lemma digit_not_minus: "d < 10 \<Longrightarrow> (of_nat (d + 48) :: byte) \<noteq> 45"
proof
  assume "d < 10" and "(of_nat (d + 48) :: byte) = 45"
  then have "d + 48 = unat (45 :: byte)" using digit_byte [of d] by metis
  then show False by simp
qed

lemma str_loop_digit:
  assumes "0 \<le> val" and "val < 10 ^ j" and "d < 10"
  shows "str_loop (length pre # is) (pre @ of_nat (d + 48) # suf) 10 (10 ^ j) val =
    (if j < 9 then str_loop is (pre @ of_nat (d + 48) # suf) 10 (10 ^ Suc j) (val + 10 ^ j * int d) else None)"
proof -
  have arr: "arr (pre @ of_nat (d + 48) # suf) (length pre) = Some (of_nat (d + 48))" by simp
  have x: "int (unat (of_nat (d + 48) :: byte)) - 48 = int d" using digit_byte [OF assms(3)] by simp
  note unf = str_loop.simps(2) arr x bind.bind_lunit digit_not_minus [OF assms(3)] if_False
  show ?thesis
  proof (cases "j < 9")
    case True
    then have "(10 :: int) ^ Suc j \<le> 10 ^ 9" by (intro power_increasing) simp_all
    then have e: "(10 :: int) ^ j \<le> 10 ^ 8" by simp
    define x :: int where "x = 10 ^ j * int d"
    have "0 \<le> x" "x \<le> 10 ^ j * 9" unfolding x_def using assms(3) by (simp_all add: mult_left_mono)
    then have "c_int x = Some x" "c_int (val + x) = Some (val + x)" "c_int (10 ^ j * 10) = Some (10 ^ Suc j)"
      using assms(1,2) e by (auto simp: c_int_def)
    then have "c_int (10 ^ j * int d) = Some (10 ^ j * int d)"
      "c_int (val + 10 ^ j * int d) = Some (val + 10 ^ j * int d)"
      "c_int (10 ^ j * 10) = Some (10 ^ Suc j)" unfolding x_def .
    with True show ?thesis by (simp only: unf) simp
  next
    case False
    then have "(10 :: int) ^ 9 \<le> 10 ^ j" by (intro power_increasing) simp_all
    then have "c_int (10 ^ j * 10) = None" by (simp add: c_int_def)
    with False show ?thesis by (simp only: unf) (simp add: bind_eq_None_conv)
  qed
qed

lemma str_loop_dec:
  assumes "0 \<le> val" and "val < 10 ^ j"
  shows "str_loop (rev [length pre..<length pre + length (dec n)] @ is) (pre @ dec n @ suf) 10 (10 ^ j) val =
    (if j + length (dec n) \<le> 9
     then str_loop is (pre @ dec n @ suf) 10 (10 ^ (j + length (dec n))) (val + 10 ^ j * int n) else None)"
  using assms
proof (induction n arbitrary: j val suf "is" rule: dec.induct)
  case (1 n)
  show ?case
  proof (cases "n < 10")
    case True
    then have d: "dec n = [of_nat (n + 48)]" by (simp add: dec.simps)
    show ?thesis unfolding d using str_loop_digit [OF 1(2,3) True, of pre "is" suf] by simp
  next
    case False
    let ?m = "n div 10" and ?d = "n mod 10"
    have d: "dec n = dec ?m @ [of_nat (?d + 48)]" using False by (subst dec.simps) simp
    have idx: "rev [length pre..<length pre + length (dec n)] @ is
        = length (pre @ dec ?m) # rev [length pre..<length pre + length (dec ?m)] @ is" by (simp add: d)
    have s: "pre @ dec n @ suf = (pre @ dec ?m) @ of_nat (?d + 48) # suf" by (simp add: d)
    have p: "?d < 10" "0 < length (dec ?m)" by (simp_all add: dec.simps [of ?m])
    have b: "0 \<le> val + 10 ^ j * int ?d" "val + 10 ^ j * int ?d < 10 ^ Suc j"
    proof -
      have "10 ^ j * int ?d \<le> 10 ^ j * 9" by (intro mult_left_mono) auto
      then show "val + 10 ^ j * int ?d < 10 ^ Suc j" using 1(3) unfolding power_Suc by linarith
    qed (use 1(2) in simp)
    have n: "val + 10 ^ j * int ?d + 10 ^ Suc j * int ?m = val + 10 ^ j * int n"
    proof -
      have "int n = int ?d + 10 * int ?m" by (metis mod_mult_div_eq of_nat_add of_nat_mult of_nat_numeral)
      then show ?thesis by (simp add: algebra_simps)
    qed
    have IH: "str_loop (rev [length pre..<length pre + length (dec ?m)] @ is) (pre @ dec ?m @ (of_nat (?d + 48) # suf))
        10 (10 ^ Suc j) (val + 10 ^ j * int ?d) = (if Suc j + length (dec ?m) \<le> 9
        then str_loop is (pre @ dec ?m @ (of_nat (?d + 48) # suf)) 10 (10 ^ (Suc j + length (dec ?m)))
          (val + 10 ^ j * int n) else None)"
      using 1(1) [OF False b] unfolding n .
    show ?thesis unfolding idx s str_loop_digit [OF 1(2,3) p(1)] using IH p(2) by (auto simp: d)
  qed
qed

lemma dec_length_lower: "10 ^ k \<le> n \<Longrightarrow> k < length (dec n)"
proof (induction k arbitrary: n)
  case 0
  then show ?case by (simp add: dec.simps)
next
  case (Suc k)
  then have "10 ^ k \<le> n div 10" by (simp add: div_le_mono [of "10 * 10 ^ k" n 10, simplified])
  moreover have "\<not> n < 10" using Suc.prems le_trans [of 10 "10 * 10 ^ k" n] by simp
  ultimately show ?case using Suc.IH by (subst dec.simps) simp
qed

lemma str2int_numeral:
  assumes "\<bar>v\<bar> \<le> 2 ^ 31"
  shows "str2int (numeral_of v @ suf) (length (numeral_of v)) 10 = (if \<bar>v\<bar> < 10 ^ 9 then Some v else None)"
proof -
  let ?n = "nat \<bar>v\<bar>" and ?s = "if v < 0 then [45] else [] :: byte list"
  have len: "length (dec ?n) \<le> 9 \<longleftrightarrow> \<bar>v\<bar> < 10 ^ 9"
  proof -
    have "\<bar>v\<bar> < 10 ^ 9 \<longleftrightarrow> ?n < 10 ^ Suc 8" by (simp add: nat_less_iff)
    also have "\<dots> \<longleftrightarrow> length (dec ?n) \<le> 9"
      using dec_length [of ?n 8] dec_length_lower [of 9 ?n] by fastforce
    finally show ?thesis ..
  qed
  have "rev [0..<length (numeral_of v)] = rev [length ?s..<length ?s + length (dec ?n)] @ rev [0..<length ?s]"
    using upt_split [of 0 "length ?s" "length ?s + length (dec ?n)"] by (simp add: numeral_of_def)
  then have "str2int (numeral_of v @ suf) (length (numeral_of v)) 10 = (if length (dec ?n) \<le> 9
      then str_loop (rev [0..<length ?s]) (?s @ dec ?n @ suf) 10 (10 ^ length (dec ?n)) \<bar>v\<bar> else None)"
    using str_loop_dec [of 0 0 ?s ?n "rev [0..<length ?s]" suf] by (simp add: str2int_def numeral_of_def)
  then show ?thesis unfolding len using assms by (simp add: c_int_def)
qed

text \<open>\<open>str2int\<close> reads back what \<open>int2str\<close> wrote for every number of at most nine digits.
  For longer numerals it overflows computing the power of ten after the last digit.\<close>

lemma int2str_str2int_roundtrip:
  assumes "12 \<le> length buf" and "- (2 ^ 31) < v" and "v < 2 ^ 31"
  shows "\<exists>s. int2str v buf 10 = Some s
    \<and> str2int s (length (takeWhile (\<lambda>x. x \<noteq> 0) s)) 10 = (if \<bar>v\<bar> < 10 ^ 9 then Some v else None)"
proof -
  let ?s = "numeral_of v @ 0 # drop (Suc (length (numeral_of v))) buf"
  have "length (numeral_of v) < length buf" using numeral_length [of v] assms by simp
  then have "int2str v buf 10 = Some ?s" using assms by (intro int2str_numeral)
  moreover have "takeWhile (\<lambda>x. x \<noteq> 0) ?s = numeral_of v"
    using numeral_no_nul [of v] by (subst takeWhile_append2) auto
  ultimately show ?thesis using str2int_numeral [of v] assms by (simp add: abs_le_iff)
qed

end
