(* ===== verification/Libc.thy ===== *)
theory Libc
  imports Userprog Userlib
begin

text \<open>
  The system call stubs of \<open>src/user/libc.c\<close> as programs: the supervisor call with its number, the
  arguments in the order of the registers \<open>r0\<close>, \<open>r1\<close>, \<open>r2\<close>, and the result from \<open>r0\<close>. Pointers
  are addresses; an \<open>int\<close> is the word in the register.
\<close>

definition svc :: "u32 \<Rightarrow> u32 list \<Rightarrow> u32 prog" where
  "svc i xs = Do (Call i xs) (\<lambda>r _. Ret r)"

definition svc_void :: "u32 \<Rightarrow> u32 list \<Rightarrow> unit prog" where
  "svc_void i xs = Do (Call i xs) (\<lambda>_ _. Ret ())"

text \<open>A function that never returns, and undefined behaviour, after which nothing is said.\<close>

definition spin :: "'r prog" where
  "spin = loop (\<lambda>_. Ret (Inl ())) ()"

definition fault :: "'r prog" where
  "fault = Do Fault (\<lambda>_ _. spin)"

lemma spin_step: "spin = Do Look (\<lambda>_ _. spin)"
  unfolding spin_def loop_def by (rule loop_from_again)

text \<open>Nothing follows a program that only looks.\<close>

lemma look_forever: "t = Do Look (\<lambda>_ _. t) \<Longrightarrow> \<not> is_Ret t \<and> un_Do1 t = Look \<and> un_Do2 t = (\<lambda>_ _. t)"
  by (metis prog.disc(2) prog.sel(2,3))

lemma spin_unique:
  fixes t :: "'r prog"
  assumes "t = Do Look (\<lambda>_ _. t)"
  shows "t = spin"
proof (coinduction rule: prog.coinduct_strong)
  case Eq_prog
  have "spin = Do Look (\<lambda>_ _. (spin :: 'r prog))" by (rule spin_step)
  from look_forever [OF assms] look_forever [OF this] show ?case by (simp add: rel_fun_def)
qed

lemma seq_spin: "seq spin f = spin"
  by (rule spin_unique) (rule trans [OF arg_cong [OF spin_step, of "\<lambda>t. seq t f"] seq_simps(2)])

lemma loop_from_spin: "loop_from b spin = spin"
  by (rule spin_unique) (rule trans [OF arg_cong [OF spin_step, of "loop_from b"] loop_from_simps(2)])

lemma fault_stays: "seq fault f = fault" "loop_from b fault = fault"
  by (simp_all add: fault_def seq_spin loop_from_spin)
section \<open>Processes\<close>

definition yield :: "unit prog" where
  "yield = svc_void 0 []"

definition cfork :: "u32 prog" where
  "cfork = svc 3 []"

text \<open>The result of \<open>cexec\<close> is a register the code never sets; there is none here.\<close>

definition cexec :: "u32 \<Rightarrow> unit prog" where
  "cexec path = svc_void 4 [path]"

definition craise :: "u32 \<Rightarrow> unit prog" where
  "craise sig = svc_void 7 [sig]"

definition cexit :: "unit prog" where
  "cexit = craise SIGKILL"

definition ckill :: "u32 \<Rightarrow> u32 \<Rightarrow> unit prog" where
  "ckill p sig = svc_void 6 [p, sig]"

section \<open>Message queues\<close>

definition mqinit :: "u32 \<Rightarrow> u32 prog" where
  "mqinit mqd = svc 8 [mqd]"

definition mqunlink :: "u32 \<Rightarrow> u32 prog" where
  "mqunlink mqd = svc 22 [mqd]"

text \<open>A call that is made again while its result is -1. The recursive call is the last thing
  \<open>msgsend\<close> and \<open>msgreceive\<close> do.\<close>

definition retry :: "u32 \<Rightarrow> u32 list \<Rightarrow> unit prog" where
  "retry i xs = loop (\<lambda>_. seq (svc i xs) (\<lambda>m. Ret (if m = -1 then Inl () else Inr ()))) ()"

definition msgsend :: "u32 \<Rightarrow> u32 \<Rightarrow> u32 \<Rightarrow> unit prog" where
  "msgsend mqd buf n = retry 9 [mqd, buf, n]"

definition msgreceive :: "u32 \<Rightarrow> u32 \<Rightarrow> u32 \<Rightarrow> unit prog" where
  "msgreceive mqd buf n = retry 10 [mqd, buf, n]"

lemma retry_unfold: "retry i xs = Do (Call i xs) (\<lambda>r _. if r = -1 then Do Look (\<lambda>_ _. retry i xs) else Ret ())"
proof -
  let ?B = "\<lambda>_ :: unit. seq (svc i xs) (\<lambda>m. Ret (if m = -1 then Inl () else Inr ())) :: (unit + unit) prog"
  have "?B () = Do (Call i xs) (\<lambda>r _. Ret (if r = -1 then Inl () else Inr ()))" by (simp add: svc_def)
  then have "retry i xs = Do (Call i xs) (\<lambda>r _. loop_from ?B (Ret (if r = -1 then Inl () else Inr ())))"
    unfolding retry_def loop_def by (simp only: loop_from_simps)
  moreover have "loop_from ?B (Ret (if r = -1 then Inl () else Inr ())) = (if r = -1 then Do Look (\<lambda>_ _. retry i xs) else Ret ())" for r :: u32
    unfolding retry_def loop_def by (cases "r = -1") (simp_all only: simp_thms if_True if_False loop_from_simps loop_from_again)
  ultimately show ?thesis by simp
qed

lemma seq_retry:
  "seq (retry i xs) k = Do (Call i xs) (\<lambda>r _. if r = -1 then Do Look (\<lambda>_ _. seq (retry i xs) k) else k ())"
  by (subst retry_unfold) (auto simp: fun_eq_iff)

section \<open>Files\<close>

definition write_u :: "u32 \<Rightarrow> u32 \<Rightarrow> u32 \<Rightarrow> u32 prog" where
  "write_u f x n = svc 1 [f, x, n]"

definition read_u :: "u32 \<Rightarrow> u32 \<Rightarrow> u32 \<Rightarrow> u32 prog" where
  "read_u f x n = svc 2 [f, x, n]"

definition disk_wipe :: "unit prog" where
  "disk_wipe = svc_void 11 []"

definition fopen :: "u32 \<Rightarrow> u32 \<Rightarrow> u32 prog" where
  "fopen path ofile = svc 12 [path, ofile]"

definition fclose :: "u32 \<Rightarrow> u32 prog" where
  "fclose f = svc 13 [f]"

definition fseek :: "u32 \<Rightarrow> u32 \<Rightarrow> u32 \<Rightarrow> u32 prog" where
  "fseek f offset whence = svc 5 [f, offset, whence]"

definition funlink :: "u32 \<Rightarrow> u32 prog" where
  "funlink name = svc 18 [name]"

definition ftell :: "u32 \<Rightarrow> u32 prog" where
  "ftell f = svc 21 [f]"

section \<open>Directories\<close>

definition pwd :: "unit prog" where
  "pwd = svc_void 14 []"

definition ls :: "unit prog" where
  "ls = svc_void 15 []"

definition mkdir :: "u32 \<Rightarrow> u32 prog" where
  "mkdir name = svc 16 [name]"

definition cd :: "u32 \<Rightarrow> u32 prog" where
  "cd path = svc 17 [path]"

definition mv :: "u32 \<Rightarrow> u32 \<Rightarrow> u32 prog" where
  "mv src dest = svc 19 [src, dest]"

definition cp :: "u32 \<Rightarrow> u32 \<Rightarrow> u32 prog" where
  "cp src dest = svc 20 [src, dest]"

section \<open>Numbers\<close>

text \<open>The caller's array \<open>buf\<close> has twelve bytes.\<close>

definition write_int :: "u32 \<Rightarrow> u32 \<Rightarrow> int \<Rightarrow> unit prog" where
  "write_int f buf x = Do Look (\<lambda>_ m.
     case int2str x (map (\<lambda>i. m (buf + of_nat i)) [0..<12]) 10 of
       None \<Rightarrow> fault
     | Some b \<Rightarrow> Do (Store buf b) (\<lambda>_ _.
         case nul_at b [0..<12] of
           Some (Some n) \<Rightarrow> seq (write_u f buf (of_nat n)) (\<lambda>_. Ret ())
         | _ \<Rightarrow> Ret ()))"

end
