(* ===== verification/Demos.thy ===== *)
theory Demos
  imports Libc Programs
begin

text \<open>
  The demo programs of \<open>src/user\<close>. The linker decides where the string literals are, the stack
  where the locals are: \<open>lit\<close> gives the address of a literal, the other parameters are addresses
  of local variables.
\<close>

definition P0_body :: "(byte list \<Rightarrow> u32) \<Rightarrow> u32 \<Rightarrow> nat \<Rightarrow> unit prog" where
  "P0_body lit buf x = (case is_prime (of_nat x) of
      None \<Rightarrow> spin
    | Some r \<Rightarrow>
        seq (write_u STDIO (lit (str ''is_prime( '')) 10) (\<lambda>_.
        seq (write_int STDIO buf (int x)) (\<lambda>_.
        seq (write_u STDIO (lit (str '' ) = '')) 5) (\<lambda>_.
        seq (write_int STDIO buf (sint r)) (\<lambda>_.
        seq (write_u STDIO (lit [10]) 1) (\<lambda>_. Ret ()))))))"

definition P0 :: "(byte list \<Rightarrow> u32) \<Rightarrow> u32 \<Rightarrow> unit prog" where
  "P0 lit buf = seq (loop (\<lambda>_.
       seq (for_prog [2 ^ 8..<2 ^ 24] (P0_body lit buf)) (\<lambda>_. Ret (Inl () :: unit + unit))) ())
     (\<lambda>_. cexit)"

definition P1_body :: "(byte list \<Rightarrow> u32) \<Rightarrow> u32 \<Rightarrow> nat \<Rightarrow> nat \<Rightarrow> unit prog" where
  "P1_body lit buf x y = (case gcd_sub (of_nat x) (of_nat y) of
      None \<Rightarrow> spin
    | Some r \<Rightarrow>
        seq (write_u STDIO (lit (str ''gcd( '')) 5) (\<lambda>_.
        seq (write_int STDIO buf (int x)) (\<lambda>_.
        seq (write_u STDIO (lit (str '', '')) 2) (\<lambda>_.
        seq (write_int STDIO buf (int y)) (\<lambda>_.
        seq (write_u STDIO (lit (str '' ) = '')) 5) (\<lambda>_.
        seq (write_int STDIO buf (sint r)) (\<lambda>_.
        seq (write_u STDIO (lit [10]) 1) (\<lambda>_. Ret ()))))))))"

definition P1 :: "(byte list \<Rightarrow> u32) \<Rightarrow> u32 \<Rightarrow> unit prog" where
  "P1 lit buf = seq (loop (\<lambda>_.
       seq (for_prog [2 ^ 8..<2 ^ 24] (\<lambda>x. for_prog [2 ^ 8..<2 ^ 24] (P1_body lit buf x))) (\<lambda>_. Ret (Inl () :: unit + unit))) ())
     (\<lambda>_. cexit)"

definition P2_body :: "(byte list \<Rightarrow> u32) \<Rightarrow> u32 \<Rightarrow> nat \<Rightarrow> unit prog" where
  "P2_body lit buf x = (let r = weight (of_nat x) in
     seq (write_u STDIO (lit (str ''weight( '')) 8) (\<lambda>_.
     seq (write_int STDIO buf (int x)) (\<lambda>_.
     seq (write_u STDIO (lit (str '' ) = '')) 5) (\<lambda>_.
     seq (write_int STDIO buf (sint r)) (\<lambda>_.
     seq (write_u STDIO (lit [10]) 1) (\<lambda>_. Ret ()))))))"

definition P2 :: "(byte list \<Rightarrow> u32) \<Rightarrow> u32 \<Rightarrow> unit prog" where
  "P2 lit buf = seq (loop (\<lambda>_.
       seq (for_prog [2 ^ 8..<2 ^ 24] (P2_body lit buf)) (\<lambda>_. Ret (Inl () :: unit + unit))) ())
     (\<lambda>_. cexit)"

text \<open>The empty delay loops of \<open>ping\<close> and \<open>pong\<close> have no effect and are left out.\<close>

definition send_all :: "u32 \<Rightarrow> u32 \<Rightarrow> nat list \<Rightarrow> unit prog" where
  "send_all m p is = for_prog is (\<lambda>i. msgsend m (p + of_nat i) 1)"

definition show_all :: "u32 \<Rightarrow> u32 \<Rightarrow> nat list \<Rightarrow> unit prog" where
  "show_all m c is = for_prog is (\<lambda>_. seq (msgreceive m c 1) (\<lambda>_. seq (write_u STDIO c 1) (\<lambda>_. Ret ())))"

definition ping_text :: "byte list" where
  "ping_text = str ''P I N G >>>>>>>>>>>>>>>'' @ [10, 10]"

definition ping_round :: "(byte list \<Rightarrow> u32) \<Rightarrow> u32 \<Rightarrow> u32 \<Rightarrow> (u32 + unit) prog" where
  "ping_round lit c k =
     seq (mqinit k) (\<lambda>m.
     seq (send_all m (lit ping_text) [0..<25]) (\<lambda>_.
     seq (show_all m c [0..<25]) (\<lambda>_.
     seq (mqunlink m) (\<lambda>_. Ret (Inl (k + 1))))))"

definition ping :: "(byte list \<Rightarrow> u32) \<Rightarrow> u32 \<Rightarrow> unit prog" where
  "ping lit c = seq (loop (ping_round lit c) 100) (\<lambda>_. cexit)"

definition pong_text :: "byte list" where
  "pong_text = str ''<<<<<<<<<<<<<<< P O N G'' @ [10, 10]"

definition pong_round :: "(byte list \<Rightarrow> u32) \<Rightarrow> u32 \<Rightarrow> u32 \<Rightarrow> (u32 + unit) prog" where
  "pong_round lit c k =
     seq (mqinit k) (\<lambda>m.
     seq (show_all m c [0..<25]) (\<lambda>_.
     seq (send_all m (lit pong_text) [0..<25]) (\<lambda>_. Ret (Inl (k + 1)))))"

definition pong :: "(byte list \<Rightarrow> u32) \<Rightarrow> u32 \<Rightarrow> unit prog" where
  "pong lit c = seq (loop (pong_round lit c) 100) (\<lambda>_. cexit)"

definition blank_line :: "byte list" where
  "blank_line = replicate 32 95 @ [10]"

definition blanks :: "(byte list \<Rightarrow> u32) \<Rightarrow> unit prog" where
  "blanks lit =
     seq (fopen (lit (str ''grid'')) O_CREAT) (\<lambda>f.
     seq (if f \<noteq> -1 then for_prog [0..<32] (\<lambda>_. seq (write_u f (lit blank_line) 33) (\<lambda>_. Ret ())) else Ret ()) (\<lambda>_.
     seq (fclose f) (\<lambda>_. cexit)))"

text \<open>Four hashes, and then on by \<open>off\<close>.\<close>

definition hashs_mark :: "(byte list \<Rightarrow> u32) \<Rightarrow> u32 \<Rightarrow> u32 \<Rightarrow> unit prog" where
  "hashs_mark lit f off =
     seq (write_u f (lit (str ''####'')) 4) (\<lambda>_. seq (fseek f off SEEK_CUR) (\<lambda>_. Ret ()))"

definition hashs :: "(byte list \<Rightarrow> u32) \<Rightarrow> unit prog" where
  "hashs lit =
     seq (fopen (lit (str ''grid'')) O_CREAT) (\<lambda>f.
     seq (if f \<noteq> -1 then
            for_prog [0..<8] (\<lambda>i.
              seq (for_prog [0..<4] (\<lambda>j.
                seq (hashs_mark lit f 4) (\<lambda>_.
                seq (hashs_mark lit f 4) (\<lambda>_.
                seq (hashs_mark lit f 4) (\<lambda>_.
                hashs_mark lit f 5))))) (\<lambda>_.
              seq (if i mod 2 = 0 then fseek f 4 SEEK_CUR else fseek f (-4) SEEK_CUR) (\<lambda>_. Ret ())))
          else Ret ()) (\<lambda>_.
     seq (fclose f) (\<lambda>_. cexit)))"

text \<open>The text of \<open>het\<close>, whose dash takes three bytes.\<close>

definition het_text :: "byte list" where
  "het_text =
     str ''Heterodontosaurus is a genus of heterodontosaurid dinosaur that lived during the Early '' @
     str ''Jurassic period, 200'' @
     [226, 128, 147] @
     str ''190 million years ago. Its only known member species, Heterodontosaurus tucki, was named in '' @
     str ''1962 based on a skull discovered in South Africa. The genus name means '' @
     [34] @
     str ''different toothed lizard'' @
     [34] @
     str '', in reference to its unusual, heterodont dentition; the specific name honors G. C. Tuck, who '' @
     str ''supported the discoverers. Further specimens have since been found, including an almost '' @
     str ''complete skeleton in 1966.'' @
     [10, 10] @
     str ''Though it was a small dinosaur, Heterodontosaurus was one of the largest members of its '' @
     str ''family, reaching between 1.18 m (3.9 ft) and possibly 1.75 m (5.7 ft) in length, and weighing '' @
     str ''between 2 and 10 kg (4.4 and 22.0 lb). The body was short with a long tail. The five-fingered '' @
     str ''forelimbs were long and relatively robust, whereas the hind-limbs were long, slender, and had '' @
     str ''four toes. The skull was elongated, narrow, and triangular when viewed from the side. The '' @
     str ''front of the jaws were covered in a horny beak. It had three types of teeth; in the upper jaw, '' @
     str ''small, incisor-like teeth were followed by long, canine-like tusks. A gap divided the tusks '' @
     str ''from the chisel-like '' @
     [34] @
     str ''cheek teeth'' @
     [34] @
     str ''.'' @
     [10, 10] @
     str ''Heterodontosaurus is the eponymous and best known member of the family Heterodontosauridae. '' @
     str ''This family is considered one of the most primitive or basal groups within the order of '' @
     str ''ornithischian dinosaurs. In spite of the large tusks, Heterodontosaurus is thought to have '' @
     str ''been herbivorous, or at least omnivorous. Though it was formerly thought to have been capable '' @
     str ''of quadrupedal locomotion, it is now thought to have been bipedal. Tooth replacement was '' @
     str ''sporadic and not continuous, unlike its relatives. At least four other heterodontosaurid '' @
     str ''genera are known from the same geological formations as Heterodontosaurus.'' @
     [10, 10]"

definition het :: "(byte list \<Rightarrow> u32) \<Rightarrow> unit prog" where
  "het lit =
     seq (fopen (lit (str ''het.txt'')) O_CREAT) (\<lambda>f.
     seq (for_prog [0..<32] (\<lambda>_. seq (write_u f (lit het_text) 1812) (\<lambda>_. Ret ()))) (\<lambda>_.
     seq (fclose f) (\<lambda>_. cexit)))"

end
