(* ===== verification/Shell.thy ===== *)
theory Shell
  imports Demos
begin

text \<open>
  The shell, \<open>src/user/init.c\<close>, with the functions of \<open>string.h\<close> it uses. \<open>strtok\<close> keeps the address
  behind the last token in a static variable; the shell starts a new string in every round, so
  that address is passed along within a round. Addresses of literals and locals are parameters
  as for the demo programs; \<open>rl\<close> tells whether the compiler evaluates the second of two
  arguments first, which C leaves open.
\<close>

section \<open>Strings\<close>

partial_function (option) skip_seps :: "(u32 \<Rightarrow> byte) \<Rightarrow> byte list \<Rightarrow> u32 \<Rightarrow> u32 option" where
  "skip_seps m seps a = (if m a \<noteq> 0 \<and> m a \<in> set seps then skip_seps m seps (a + 1) else Some a)"

partial_function (option) token_end :: "(u32 \<Rightarrow> byte) \<Rightarrow> byte list \<Rightarrow> u32 \<Rightarrow> u32 option" where
  "token_end m seps a = (if m a = 0 \<or> m a \<in> set seps then Some a else token_end m seps (a + 1))"

text \<open>The token, where the next search begins and where a zero byte ends the token; 0 is \<open>NULL\<close>.\<close>

definition strtok :: "(u32 \<Rightarrow> byte) \<Rightarrow> byte list \<Rightarrow> u32 \<Rightarrow> (u32 \<times> u32 \<times> u32 option) option" where
  "strtok m seps a =
     (if a = 0 then Some (0, 0, None)
      else do {
        t \<leftarrow> skip_seps m seps a;
        (if m t = 0 then Some (0, 0, None)
         else do {
           z \<leftarrow> token_end m seps t;
           (if m z = 0 then Some (t, 0, None) else Some (t, z + 1, Some z))
         })
      })"

definition next_token :: "byte list \<Rightarrow> u32 \<Rightarrow> (u32 \<times> u32) prog" where
  "next_token seps a = Do Look (\<lambda>_ m.
     case strtok m seps a of
       None \<Rightarrow> fault
     | Some (t, a, None) \<Rightarrow> Ret (t, a)
     | Some (t, a, Some z) \<Rightarrow> Do (Store z [0]) (\<lambda>_ _. Ret (t, a)))"

text \<open>\<open>strncmp( p, x, n ) == 0\<close> for a literal \<open>x\<close>; \<open>xs\<close> are its first \<open>n\<close> bytes, the terminator
  included.\<close>

fun same_start :: "(u32 \<Rightarrow> byte) \<Rightarrow> u32 \<Rightarrow> byte list \<Rightarrow> bool" where
  "same_start m p [] = True"
| "same_start m p (x # xs) = (m p = x \<and> (x = 0 \<or> same_start m (p + 1) xs))"

definition strncmp_eq :: "(u32 \<Rightarrow> byte) \<Rightarrow> u32 \<Rightarrow> byte list \<Rightarrow> nat \<Rightarrow> bool" where
  "strncmp_eq m p x n = same_start m p (take n (x @ [0]))"

abbreviation (input) blank :: "byte list" where "blank \<equiv> [32]"
abbreviation (input) blank_or_end :: "byte list" where "blank_or_end \<equiv> [32, 10, 13]"

section \<open>Commands\<close>

datatype cmd = Run | Kill | Wipe | Quit | Pwd | Ls | Mkdir | Cd | Rm | Mv | Cp | Cat | Setp | Unknown

text \<open>The comparisons of the shell, in their order.\<close>

definition command :: "(u32 \<Rightarrow> byte) \<Rightarrow> u32 \<Rightarrow> cmd" where
  "command m t =
     (if strncmp_eq m t (str ''run'') 4 then Run
      else if strncmp_eq m t (str ''kill'') 4 then Kill
      else if strncmp_eq m t (str ''wipe'') 4 then Wipe
      else if strncmp_eq m t (str ''quit'') 4 then Quit
      else if strncmp_eq m t (str ''pwd'') 3 then Pwd
      else if strncmp_eq m t (str ''ls'') 2 then Ls
      else if strncmp_eq m t (str ''mkdir'') 5 then Mkdir
      else if strncmp_eq m t (str ''cd'') 2 then Cd
      else if strncmp_eq m t (str ''rm'') 2 then Rm
      else if strncmp_eq m t (str ''mv'') 2 then Mv
      else if strncmp_eq m t (str ''cp'') 2 then Cp
      else if strncmp_eq m t (str ''cat'') 3 then Cat
      else if strncmp_eq m t (str ''setp'') 4 then Setp
      else Unknown)"

definition one_arg :: "(u32 \<Rightarrow> u32 prog) \<Rightarrow> u32 \<Rightarrow> unit prog" where
  "one_arg f a = seq (next_token blank_or_end a) (\<lambda>(t, _). seq (f t) (\<lambda>_. Ret ()))"

definition two_args :: "bool \<Rightarrow> (u32 \<Rightarrow> u32 \<Rightarrow> u32 prog) \<Rightarrow> u32 \<Rightarrow> unit prog" where
  "two_args rl f a =
     seq (next_token blank_or_end a) (\<lambda>(t, a).
     seq (next_token blank_or_end a) (\<lambda>(u, _).
     seq (if rl then f u t else f t u) (\<lambda>_. Ret ())))"

text \<open>\<open>run\<close>: the child leaves the loop when \<open>cexec\<close> returns.\<close>

definition sh_run :: "(byte list \<Rightarrow> u32) \<Rightarrow> u32 \<Rightarrow> (unit + unit) prog" where
  "sh_run lit a =
     seq (next_token blank_or_end a) (\<lambda>(t, _).
     seq cfork (\<lambda>f.
       if f = 0 then seq (cexec t) (\<lambda>_. Ret (Inr ()))
       else if f = -1 then seq (write_u STDIO (lit (str ''memory fault'' @ [10])) 14) (\<lambda>_. Ret (Inl ()))
       else Ret (Inl ())))"

text \<open>\<open>str2int\<close> on a string in memory.\<close>

definition number_at :: "u32 \<Rightarrow> nat \<Rightarrow> (int \<Rightarrow> unit prog) \<Rightarrow> unit prog" where
  "number_at t n k = Do Look (\<lambda>_ m.
     if t = 0 then fault
     else case str2int (map (\<lambda>i. m (t + of_nat i)) [0..<n]) n 10 of None \<Rightarrow> fault | Some v \<Rightarrow> k v)"

definition sh_kill :: "u32 \<Rightarrow> unit prog" where
  "sh_kill a = seq (next_token blank_or_end a) (\<lambda>(t, _). number_at t 1 (\<lambda>v. ckill (of_int v) SIGKILL))"

text \<open>\<open>cat\<close>, with the local array \<open>buf\<close>.\<close>

definition sh_cat :: "u32 \<Rightarrow> u32 \<Rightarrow> unit prog" where
  "sh_cat buf a =
     seq (next_token blank_or_end a) (\<lambda>(t, _).
     seq (fopen t O_EXIST) (\<lambda>f.
       if f \<noteq> -1 then
         seq (fseek f 0 SEEK_END) (\<lambda>_.
         seq (ftell f) (\<lambda>length.
         seq (fseek f 0 SEEK_SET) (\<lambda>_.
         seq (for_prog [0..<nat ((sint length + 511) div 512)] (\<lambda>i.
           let n = (if sint length - 512 * int i > 512 then 512 else sint length - 512 * int i) in
             seq (read_u f buf (of_int n)) (\<lambda>_.
             seq (write_u STDIO buf (of_int n)) (\<lambda>_. Ret ())))) (\<lambda>_.
         seq (fclose f) (\<lambda>_. Ret ())))))
       else Ret ()))"

text \<open>\<open>setp\<close>, with the local variable \<open>priority\<close> at \<open>pr\<close>.\<close>

definition sh_setp :: "u32 \<Rightarrow> u32 \<Rightarrow> unit prog" where
  "sh_setp pr a =
     seq (next_token blank a) (\<lambda>(t, a). Do Look (\<lambda>_ m.
       case (if t = 0 then None else cstr m t) of
         None \<Rightarrow> fault
       | Some xs \<Rightarrow> number_at t (length xs) (\<lambda>priority.
           Do (Store pr (u32_bytes (of_int priority))) (\<lambda>_ _.
           seq (next_token blank_or_end a) (\<lambda>(u, _).
           seq (fopen u O_EXIST) (\<lambda>f.
             if f \<noteq> -1 then
               seq (fseek f 4 SEEK_CUR) (\<lambda>_.
               seq (write_u f pr 4) (\<lambda>_.
               seq (fclose f) (\<lambda>_. Ret ())))
             else Ret ()))))))"

text \<open>What a command does; \<open>Inr\<close> leaves the loop.\<close>

definition goes_on :: "unit prog \<Rightarrow> (unit + unit) prog" where
  "goes_on t = seq t (\<lambda>_. Ret (Inl ()))"

definition sh_do :: "(byte list \<Rightarrow> u32) \<Rightarrow> bool \<Rightarrow> u32 \<Rightarrow> u32 \<Rightarrow> cmd \<Rightarrow> u32 \<Rightarrow> (unit + unit) prog" where
  "sh_do lit rl buf pr c a = (case c of
      Run \<Rightarrow> sh_run lit a
    | Kill \<Rightarrow> goes_on (sh_kill a)
    | Wipe \<Rightarrow> goes_on disk_wipe
    | Quit \<Rightarrow> Ret (Inr ())
    | Pwd \<Rightarrow> goes_on pwd
    | Ls \<Rightarrow> goes_on ls
    | Mkdir \<Rightarrow> goes_on (one_arg mkdir a)
    | Cd \<Rightarrow> goes_on (one_arg cd a)
    | Rm \<Rightarrow> goes_on (one_arg funlink a)
    | Mv \<Rightarrow> goes_on (two_args rl mv a)
    | Cp \<Rightarrow> goes_on (two_args rl cp a)
    | Cat \<Rightarrow> goes_on (sh_cat buf a)
    | Setp \<Rightarrow> goes_on (sh_setp pr a)
    | Unknown \<Rightarrow> Ret (Inl ()))"

text \<open>One round of the loop: prompt, line, command, and the processor to the others.\<close>

definition sh_round :: "(byte list \<Rightarrow> u32) \<Rightarrow> bool \<Rightarrow> u32 \<Rightarrow> u32 \<Rightarrow> u32 \<Rightarrow> (unit + unit) prog" where
  "sh_round lit rl x buf pr =
     seq (write_u STDIO (lit (str ''$ '')) 2) (\<lambda>_.
     seq (read_u STDIO x 64) (\<lambda>_.
     seq (next_token blank x) (\<lambda>(t, a). Do Look (\<lambda>_ m.
       if t = 0 then fault
       else seq (sh_do lit rl buf pr (command m t) a) (\<lambda>r. case r of
           Inr _ \<Rightarrow> Ret (Inr ())
         | Inl _ \<Rightarrow> seq (craise SIGPRI0) (\<lambda>_. seq yield (\<lambda>_. Ret (Inl ()))))))))"

definition init :: "(byte list \<Rightarrow> u32) \<Rightarrow> bool \<Rightarrow> u32 \<Rightarrow> u32 \<Rightarrow> u32 \<Rightarrow> unit prog" where
  "init lit rl x buf pr = seq (loop (\<lambda>_. sh_round lit rl x buf pr) ()) (\<lambda>_. cexit)"

end
