(* ===== verification/Calls.thy ===== *)
theory Calls
  imports Kinv
begin

text \<open>
  What the handlers do: the timer interrupt, console input, listing a directory, creating and
  entering one.
\<close>

section \<open>Resuming a process\<close>

text \<open>The round-robin contract with contexts: a turn changes the context of the chosen process
  only. A live process that is not chosen is then chosen within a round, with the context it
  had.\<close>

locale round_robin_ctx = round_robin turn holds live chosen
  for turn :: "'s \<Rightarrow> 's option" and holds :: "'s \<Rightarrow> 'p list \<Rightarrow> bool" and live chosen +
  fixes saved :: "'s \<Rightarrow> 'p \<Rightarrow> 'c"
  assumes turn_saved: "holds s q \<Longrightarrow> p \<in> set q \<Longrightarrow> \<not> chosen s p \<Longrightarrow> turn s = Some s' \<Longrightarrow> saved s' p = saved s p"
    and chosen_one: "chosen s a \<Longrightarrow> chosen s b \<Longrightarrow> a = b"
begin

lemma resumes_from:
  assumes "holds s (a # q)" and "q @ [a] = us @ p # vs" and "p \<notin> set us" and "live s p" and "\<not> chosen s p"
  shows "\<exists>k s'. 0 < k \<and> k \<le> Suc (length us) \<and> iter_opt k turn s = Some s' \<and> chosen s' p \<and> saved s' p = saved s p"
  using assms
proof (induction "length us" arbitrary: s a q us vs rule: less_induct)
  case less
  have "set (q @ [a]) = set (us @ p # vs)" unfolding less.prems(2) ..
  then have p: "p \<in> set (a # q)" by auto
  show ?case
  proof (cases "\<exists>x \<in> set us. live s x")
    case False
    with turn_next [OF less.prems(1,2)] less.prems(4) obtain s' where s': "turn s = Some s'" "chosen s' p" by blast
    with turn_saved [OF less.prems(1) p less.prems(5)] show ?thesis by (intro exI [of _ 1] exI [of _ s']) simp
  next
    case True
    then obtain xs b ws where us: "us = xs @ b # ws" "live s b" "\<forall>x \<in> set xs. \<not> live s x"
      by (metis split_list_first_propE)
    with turn_next [of s a q xs b "ws @ p # vs"] less.prems obtain s1 where
      s1: "turn s = Some s1" "holds s1 (b # ws @ p # vs @ xs)" "live s1 = live s" "chosen s1 b" by auto
    have "\<not> chosen s1 p" using chosen_one s1(4) us(1) less.prems(3) by auto
    then have "\<exists>k s'. 0 < k \<and> k \<le> Suc (length ws) \<and> iter_opt k turn s1 = Some s' \<and> chosen s' p \<and> saved s' p = saved s1 p"
      using us(1) s1 less.prems(3,4) by (intro less.hyps [of ws s1 b _ "vs @ xs @ [b]"]) auto
    then obtain k s' where "k \<le> Suc (length ws)" "iter_opt k turn s1 = Some s'" "chosen s' p" "saved s' p = saved s1 p" by blast
    with s1(1) us(1) turn_saved [OF less.prems(1) p less.prems(5) s1(1)] show ?thesis
      by (intro exI [of _ "Suc k"] exI [of _ s']) auto
  qed
qed

lemma resumes:
  assumes "holds s q" and "p \<in> set q" and "live s p" and "\<not> chosen s p"
  shows "\<exists>k s'. 0 < k \<and> k \<le> length q \<and> iter_opt k turn s = Some s' \<and> chosen s' p \<and> saved s' p = saved s p"
proof -
  obtain a q0 where q: "q = a # q0" using assms(2) by (cases q) auto
  with assms(2) have "p \<in> set (q0 @ [a])" by auto
  then obtain us vs where us: "q0 @ [a] = us @ p # vs" "p \<notin> set us" by (metis split_list_first)
  then have "length (q0 @ [a]) = length (us @ p # vs)" by simp
  then have "Suc (length us) \<le> length q" using q by simp
  with resumes_from [of s a q0 us p vs] assms q us show ?thesis by (meson order_trans)
qed

end

section \<open>The timer\<close>

text \<open>Between two timer interrupts the running program computes: \<open>u\<close> is what it does to its
  registers and the memory.\<close>

definition timer_turn :: "(ctx_t \<times> (u32 \<Rightarrow> byte) \<Rightarrow> ctx_t \<times> (u32 \<Rightarrow> byte)) \<Rightarrow>
    ctx_t \<times> ('h, 'a) machine_scheme \<Rightarrow> (ctx_t \<times> ('h, 'a) machine_scheme) option" where
  "timer_turn u cs = (case cs of (c, s) \<Rightarrow> case u (c, mem s) of (c', m) \<Rightarrow>
     kernel_handler_irq c' (s\<lparr>mem := m, GICC0 := (GICC0 s)\<lparr>IAR := GIC_SOURCE_TIMER0\<rparr>\<rparr>))"

lemma procs_regs [simp]:
  "ready (s\<lparr>TIMER0 := x\<rparr>) q = ready s q" "running (s\<lparr>TIMER0 := x\<rparr>) = running s"
  "ready (s\<lparr>GICC0 := y\<rparr>) q = ready s q" "running (s\<lparr>GICC0 := y\<rparr>) = running s"
  "executing (s\<lparr>TIMER0 := x\<rparr>) p = executing s p" "executing (s\<lparr>GICC0 := y\<rparr>) p = executing s p"
  "executing (s\<lparr>mem := m\<rparr>) p = executing s p"
  by (simp_all add: ready_def running_def executing_def)

lemma timer_turn_eq:
  assumes "u (c, mem s) = (c1, m)" and "scheduler c1 (s\<lparr>mem := m, GICC0 := (GICC0 s)\<lparr>IAR := 36\<rparr>\<rparr>) = Some (c2, s2)"
  shows "timer_turn u (c, s) = Some (c2, s2\<lparr>TIMER0 := (TIMER0 s2)\<lparr>Timer1IntClr := 1\<rparr>, GICC0 := (GICC0 s2)\<lparr>EOIR := 36\<rparr>\<rparr>)"
  using assms by (simp add: timer_turn_def kernel_handler_irq_def)

text \<open>A turn of the timer, from the contract of the scheduler.\<close>

lemma timer_turn_next:
  assumes "sched_ready (c, s) (a # q)" and "q @ [a] = xs @ b # ys" and "\<forall>x \<in> set xs. \<not> sched_live (c, s) x" and "sched_live (c, s) b"
  shows "\<exists>c' s'. timer_turn u (c, s) = Some (c', s') \<and> sched_ready (c', s') (b # ys @ xs)
    \<and> sched_live (c', s') = sched_live (c, s) \<and> current s' = Some b
    \<and> (\<forall>p<8. current s \<noteq> Some p \<longrightarrow> proc_ctx c' s' p = proc_ctx c s p)"
proof -
  obtain c1 m where u: "u (c, mem s) = (c1, m)" by fastforce
  let ?s = "s\<lparr>mem := m, GICC0 := (GICC0 s)\<lparr>IAR := 36\<rparr>\<rparr>"
  have r: "ready ?s (a # q)" "running ?s" "executing ?s b"
    using assms(1,4) by (simp_all add: sched_ready_def sched_live_def)
  have "set (xs @ b # ys) \<subseteq> {..<8}" unfolding assms(2) [symmetric] using r(1) by (auto simp: ready_def)
  then have "\<forall>x \<in> set xs. \<not> executing ?s x" using assms(3) by (auto simp: sched_live_def)
  from scheduler_next [OF r(1,2) assms(2) this r(3), of c1] obtain c2 s2 where
    s2: "scheduler c1 ?s = Some (c2, s2)" "ready s2 (b # ys @ xs)" "running s2" "current s2 = Some b"
      "\<forall>p<8. proc_ctx c2 s2 p = proc_ctx c1 ?s p" "\<forall>p<8. pst (pcb s2 ! p) = pst (pcb ?s ! p)" by blast
  let ?t = "s2\<lparr>TIMER0 := (TIMER0 s2)\<lparr>Timer1IntClr := 1\<rparr>, GICC0 := (GICC0 s2)\<lparr>EOIR := 36\<rparr>\<rparr>"
  have "sched_live (c2, ?t) = sched_live (c, s)"
    using s2(6) by (intro ext) (auto simp: sched_live_def executing_def)
  moreover have "proc_ctx c2 ?t p = proc_ctx c s p" if "p < 8" "current s \<noteq> Some p" for p
    using s2(5) [rule_format, OF that(1)] that by (simp add: proc_ctx_def split: if_splits)
  ultimately show ?thesis using timer_turn_eq [of u, OF u s2(1)] s2(2-4) by (auto simp: sched_ready_def)
qed

lemma timer_turn_saved:
  assumes "sched_ready (c, s) q" and "p \<in> set q" and "current s \<noteq> Some p" and "timer_turn u (c, s) = Some (c', s')"
  shows "proc_ctx c' s' p = proc_ctx c s p"
proof -
  have r: "ready s q" "running s" using assms(1) by (simp_all add: sched_ready_def)
  have "\<exists>x \<in> set q. executing s x"
  proof (rule ccontr)
    assume no: "\<not> (\<exists>x \<in> set q. executing s x)"
    obtain c1 m where u: "u (c, mem s) = (c1, m)" by fastforce
    let ?s = "s\<lparr>mem := m, GICC0 := (GICC0 s)\<lparr>IAR := 36\<rparr>\<rparr>"
    have "rq_rotate ?s = None" using r no by (intro rq_rotate_none [of _ q]) simp_all
    with assms(4) u show False by (simp add: timer_turn_def kernel_handler_irq_def scheduler_def)
  qed
  then obtain a q0 b where f0: "q = a # q0" "tl q @ [hd q] = takeWhile (\<lambda>p. \<not> executing s p) (tl q @ [hd q])
      @ b # tl (dropWhile (\<lambda>p. \<not> executing s p) (tl q @ [hd q]))"
    "\<forall>x \<in> set (takeWhile (\<lambda>p. \<not> executing s p) (tl q @ [hd q])). \<not> executing s x" "executing s b"
    by (rule first_executing [OF r(1)])
  have "tl q @ [hd q] = q0 @ [a]" by (simp add: f0(1))
  note f = f0(1) f0(2-4) [unfolded this]
  have lt: "\<forall>x \<in> set q. x < 8" using r(1) by (simp add: ready_def)
  have "b \<in> set (q0 @ [a])" using f(2) by (metis in_set_conv_decomp)
  then have "b < 8" using lt f(1) by auto
  then have live: "\<forall>x \<in> set (takeWhile (\<lambda>p. \<not> executing s p) (q0 @ [a])). \<not> sched_live (c, s) x" "sched_live (c, s) b"
    using f(3,4) unfolding sched_live_def snd_conv by blast+
  have "p < 8" using assms(2) lt by blast
  with timer_turn_next [OF assms(1) [unfolded f(1)] f(2) live, of u] assms(3,4) show ?thesis by auto
qed

interpretation tick: round_robin_ctx "timer_turn u" sched_ready sched_live "\<lambda>cs p. current (snd cs) = Some p"
    "\<lambda>cs p. proc_ctx (fst cs) (snd cs) p" for u
proof
  fix cs :: "ctx_t \<times> ('a, 'b) machine_scheme" and a q xs b ys
  assume a: "sched_ready cs (a # q)" "q @ [a] = xs @ b # ys" "\<forall>x \<in> set xs. \<not> sched_live cs x" "sched_live cs b"
  then show "\<exists>cs'. timer_turn u cs = Some cs' \<and> sched_ready cs' (b # ys @ xs) \<and> sched_live cs' = sched_live cs
      \<and> current (snd cs') = Some b"
    using timer_turn_next [of "fst cs" "snd cs" a q xs b ys u] by auto
next
  fix cs cs' :: "ctx_t \<times> ('a, 'b) machine_scheme" and q p
  assume "sched_ready cs q" "p \<in> set q" "current (snd cs) \<noteq> Some p" "timer_turn u cs = Some cs'"
  then show "proc_ctx (fst cs') (snd cs') p = proc_ctx (fst cs) (snd cs) p"
    using timer_turn_saved [of "fst cs" "snd cs" q p u "fst cs'" "snd cs'"] by simp
qed simp

text \<open>C2. Preemption. Whatever the programs compute between two timer interrupts, every queued process
  that is executing and does not have the processor gets it within as many timer interrupts as
  there are processes queued, and continues with exactly the registers it was interrupted with.\<close>

theorem timer_fair:
  assumes "sched_inv s q" and "p \<in> set q" and "executing s p" and "current s \<noteq> Some p"
  shows "\<exists>k s'. 0 < k \<and> k \<le> length q \<and> iter_opt k (timer_turn u) (c, s) = Some (ctx (pcb s ! p), s') \<and> current s' = Some p"
proof -
  have "sched_ready (c, s) q" "sched_live (c, s) p"
    using assms by (auto simp: sched_ready_def sched_live_def sched_inv_def ready_def)
  from tick.resumes [OF this(1) assms(2) this(2), of u] assms(4) show ?thesis by (auto simp: proc_ctx_def)
qed

definition busy_board :: "unit machine" where
  "busy_board = board\<lparr>pcb := pcb three_procs, current := Some 0, rq := rq three_procs, rq_size := rq_size three_procs\<rparr>"

theorem timer_fair_witness:
  "\<exists>k s'. 0 < k \<and> k \<le> 3 \<and> iter_opt k (timer_turn (\<lambda>(c, m). (c\<lparr>pc := pc c + 4\<rparr>, m))) (zero_ctx, busy_board)
      = Some (zero_ctx, s') \<and> current s' = Some 2"
proof -
  have "sched_inv busy_board [0, 1, 2]" using three_procs_inv
    by (simp add: sched_inv_def ready_def running_def busy_board_def three_procs_def)
  moreover have "executing busy_board 2" "current busy_board \<noteq> Some 2" "ctx (pcb busy_board ! 2) = zero_ctx"
    by (simp_all add: executing_def busy_board_def three_procs_def zero_pcb_def)
  ultimately show ?thesis
    using timer_fair [of busy_board "[0, 1, 2]" 2 "\<lambda>(c, m). (c\<lparr>pc := pc c + 4\<rparr>, m)" zero_ctx] by (simp add: numeral_3_eq_3)
qed

section \<open>The console\<close>

text \<open>Bytes sent to the console.\<close>

definition said :: "byte list \<Rightarrow> ('h, 'a) kernel_scheme \<Rightarrow> ('h, 'a) kernel_scheme" where
  "said bs s = s\<lparr>uart0 := (uart0 s)\<lparr>tx := tx (uart0 s) @ bs\<rparr>\<rparr>"

lemma said_simps [simp]: "said [] s = s" "said ys (said xs s) = said (xs @ ys) s" "dsk (said xs s) = dsk s" "fs (said xs s) = fs s"
  "mem (said xs s) = mem s"
  by (simp_all add: said_def)

lemma put_con_said: "put_con x s = said [x] s"
  by (simp add: put_con_def said_def PL011_putc_def)

definition mem_put :: "u32 \<Rightarrow> byte list \<Rightarrow> (u32 \<Rightarrow> byte) \<Rightarrow> u32 \<Rightarrow> byte" where
  "mem_put a xs m = (\<lambda>b. if unat (b - a) < length xs then xs ! unat (b - a) else m b)"

lemma mem_write_put: "mem_write a xs s = s\<lparr>mem := mem_put a xs (mem s)\<rparr>"
  by (simp add: mem_write_def mem_put_def)

lemma said_mem_write [simp]: "said xs (mem_write a ys s) = mem_write a ys (said xs s)"
  by (simp add: said_def mem_write_put)

lemma mem_put_Cons:
  assumes "length ys < 2 ^ 32"
  shows "mem_put (x + 1) ys (mem_put x [b] m) = mem_put x (b # ys) m"
proof
  fix a
  show "mem_put (x + 1) ys (mem_put x [b] m) a = mem_put x (b # ys) m a"
  proof (cases "a = x")
    case True
    have "unat (-1 :: u32) = 2 ^ 32 - 1" by (simp add: unsigned_minus_1_eq_mask mask_eq_exp_minus_1)
    with True assms show ?thesis by (simp add: mem_put_def)
  next
    case False
    then have "a - x \<noteq> 0" by simp
    then have "unat (a - x) = Suc (unat (a - x - 1))" by (simp add: unat_minus_one unat_gt_0)
    moreover have e: "a - (x + 1) = a - x - 1" by simp
    ultimately show ?thesis unfolding mem_put_def e by simp
  qed
qed

lemma read_con_line:
  assumes "rx (uart0 s) = line @ 13 # rest" and "13 \<notin> set line" and "length line < n" and "n < 2 ^ 32"
  shows "read_con peer n x s = Some (mem_write x (line @ [13]) (said (line @ [10]) (s\<lparr>uart0 := (uart0 s)\<lparr>rx := rest\<rparr>\<rparr>)))"
  using assms
proof (induction line arbitrary: n x s)
  case Nil
  then obtain k where n: "n = Suc k" by (cases n) auto
  from Nil(1) show ?case by (simp add: n PL011_getc_def put_con_said)
next
  case (Cons b line)
  then obtain k where n: "n = Suc k" by (cases n) auto
  let ?s = "mem_write x [b] (s\<lparr>uart0 := (uart0 s)\<lparr>rx := line @ 13 # rest\<rparr>\<rparr>)"
  have "rx (uart0 (said [b] ?s)) = line @ 13 # rest" by (simp add: said_def mem_write_put)
  from Cons.IH [OF this, of k "x + 1"] Cons.prems n have
    "read_con peer k (x + 1) (said [b] ?s) = Some (mem_write (x + 1) (line @ [13]) (said (line @ [10])
       ((said [b] ?s)\<lparr>uart0 := (uart0 (said [b] ?s))\<lparr>rx := rest\<rparr>\<rparr>)))" by simp
  moreover have "length (line @ [13 :: byte]) < 2 ^ 32" using Cons.prems(3,4) by simp
  from mem_put_Cons [OF this, of x b "mem s"] have
    "mem_write (x + 1) (line @ [13]) (said (line @ [10]) ((said [b] ?s)\<lparr>uart0 := (uart0 (said [b] ?s))\<lparr>rx := rest\<rparr>\<rparr>))
      = mem_write x (b # line @ [13]) (said (b # line @ [10]) (s\<lparr>uart0 := (uart0 s)\<lparr>rx := rest\<rparr>\<rparr>))"
    by (simp add: said_def mem_write_put)
  ultimately show ?case using Cons.prems(1,2) by (simp add: n PL011_getc_def put_con_said)
qed

section \<open>Listing a directory\<close>

definition line_of :: "dir_t \<Rightarrow> byte list" where
  "line_of d = take (unat (d_namlen d)) (d_name d) @ [10]"

lemma print_entry_said:
  assumes "unat (d_namlen d) \<le> length (d_name d)"
  shows "print_entry d s = Some (said (line_of d) s)"
proof -
  have "for_each [0..<n] (\<lambda>k s. do { x \<leftarrow> arr (d_name d) k; Some (put_con x s) }) s = Some (said (take n (d_name d)) s)"
    if "n \<le> length (d_name d)" for n
    using that by (induction n) (simp_all add: for_each_append put_con_said take_Suc_conv_app_nth)
  with assms show ?thesis by (simp add: print_entry_def line_of_def put_con_said)
qed

lemma print_entries_said:
  assumes "\<forall>j \<in> set js. unat (d_namlen (g j)) \<le> length (d_name (g j))"
  shows "for_each js (\<lambda>j. print_entry (g j)) s = Some (said (concat (map (\<lambda>j. line_of (g j)) js)) s)"
  using assms by (induction js arbitrary: s) (simp_all add: print_entry_said)

lemma fblk_said [simp]: "fblk (said xs s) = fblk s" "dirent (said xs s) = dirent s"
  by (intro ext; simp add: fblk_def dirent_def)+

lemma said_inv [simp]: "formatted (said xs s) = formatted s" "file_inv (said xs s) ic n ys = file_inv s ic n ys"
  by (simp_all add: formatted_def wf_store_def file_inv_def file_blocks_def)

text \<open>One block, and all of them.\<close>

lemma ls_block_said:
  assumes "formatted s" and "file_inv s ic n xs" and "i < n" and "i < 11" and "c \<le> 16"
    and "\<And>k. k < 16 * i + c \<Longrightarrow> unat (d_namlen (dirent s ic k)) \<le> 26"
  shows "ls_blocks ic ((i, c) # vs) buf s
    = ls_blocks ic vs (Some (blk s (ic_db ic ! i))) (said (concat (map (\<lambda>k. line_of (dirent s ic k)) [16 * i..<16 * i + c])) s)"
proof -
  let ?a = "ic_db ic ! i"
  have a: "fblk s ic i = ?a" using assms(4) by (simp add: fblk_def)
  have "valid s ?a" using file_inv_fblk(1) [OF assms(2,3)] data_addr_valid [OF assms(1)] a by auto
  then have rd: "(case buf of None \<Rightarrow> kread s ?a | Some b \<Rightarrow> kread_into s ?a b) = Some (blk s ?a)" by (cases buf) simp_all
  have ic: "length (ic_db ic) = 11" using assms(2) by (simp add: file_inv_def wf_ic_def)
  have ent: "dir_at (blk s ?a) j = dirent s ic (16 * i + j)" if "j < c" for j
    using that assms(5) a by (simp add: dirent_def)
  have wf: "length (d_name (dirent s ic (16 * i + j))) = 26" if "j < c" for j
    using that assms(5) dirent_wf [OF assms(1,2), of "16 * i + j"] assms(3) by (simp add: wf_dir_def)
  have "\<forall>j \<in> set [0..<c]. unat (d_namlen (dir_at (blk s ?a) j)) \<le> length (d_name (dir_at (blk s ?a) j))"
    using ent wf assms(6) by simp
  note p = print_entries_said [OF this, of s]
  have "map (\<lambda>j. line_of (dir_at (blk s ?a) j)) [0..<c] = map (\<lambda>k. line_of (dirent s ic k)) [16 * i..<16 * i + c]"
    using ent by (intro nth_equalityI) simp_all
  with p rd ic assms(4) show ?thesis by simp
qed

lemma ls_blocks_said:
  assumes "formatted s" and "file_inv s ic n xs" and "b < n" and "b < 11" and "c \<le> 16" and "a \<le> b"
    and "\<And>k. k < 16 * b + c \<Longrightarrow> unat (d_namlen (dirent s ic k)) \<le> 26"
  shows "ls_blocks ic (map (\<lambda>i. (i, 16)) [a..<b] @ [(b, c)]) buf s
    = Some (said (concat (map (\<lambda>k. line_of (dirent s ic k)) [16 * a..<16 * b + c])) s)"
  using assms
proof (induction "b - a" arbitrary: a buf s)
  case 0
  then have "a = b" by simp
  then show ?case using ls_block_said [OF 0(2-6,8)] by simp
next
  case (Suc d)
  then have ab: "a < b" "d = b - Suc a" by auto
  let ?s = "said (concat (map (\<lambda>k. line_of (dirent s ic k)) [16 * a..<16 * a + 16])) s"
  have "ls_blocks ic (map (\<lambda>i. (i, 16)) [Suc a..<b] @ [(b, c)]) (Some (blk s (ic_db ic ! a))) ?s
      = Some (said (concat (map (\<lambda>k. line_of (dirent ?s ic k)) [16 * Suc a..<16 * b + c])) ?s)"
    using Suc.prems ab by (intro Suc.hyps(1)) simp_all
  moreover have "ls_blocks ic ((a, 16) # map (\<lambda>i. (i, 16)) [Suc a..<b] @ [(b, c)]) buf s
      = ls_blocks ic (map (\<lambda>i. (i, 16)) [Suc a..<b] @ [(b, c)]) (Some (blk s (ic_db ic ! a))) ?s"
    using Suc.prems ab by (intro ls_block_said [OF Suc.prems(1,2)]) simp_all
  moreover have "[16 * a..<16 * b + c] = [16 * a..<16 * a + 16] @ [16 * Suc a..<16 * b + c]"
    using ab(1) upt_split [of "16 * a" "16 * a + 16" "16 * b + c"] by (simp add: add.commute)
  ultimately show ?case by (simp add: upt_conv_Cons [OF ab(1)])
qed

lemma ls_visits_eq:
  assumes "0 < n" and "n \<le> 16 * 139"
  shows "ls_visits (of_nat (32 * n)) = map (\<lambda>i. (i, 16)) [0..<(n - 1) div 16] @ [((n - 1) div 16, n mod 16)]"
proof -
  have "unat (of_nat (32 * n) :: u32) = 32 * n" using assms by (intro unat_of_nat_u32) simp
  then have d: "unat ((of_nat (32 * n) :: u32) div 32) = n" by (simp add: unat_div)
  have m: "int n mod 16 = int (n mod 16)" by (simp add: zmod_int)
  have b: "c_div (int n - 1) 16 + 1 = int ((n - 1) div 16 + 1)" using assms(1) by (simp add: c_div_def zdiv_int of_nat_diff)
  show ?thesis unfolding ls_visits_def d Let_def b m nat_int by simp
qed

text \<open>C38. Listing. In a directory of at most 176 entries, \<open>ls\<close> writes the names of the visible entries
  to the console, in their order and each with a newline, and changes nothing else. The
  entries it does not see are the last block's when the number of entries is a multiple of
  16.\<close>

theorem svc_ls_spec:
  assumes "formatted s" and "unat (cwd s) < 512" and "dir_inv s (itab s (unat (cwd s))) n xs" and "n \<le> 176"
    and "\<forall>d \<in> set (entries s (itab s (unat (cwd s))) n). unat (d_namlen d) \<le> 26"
  shows "kernel_handler_svc e 0x0f c s
    = Some (c, said (concat (map line_of (take (visible n) (entries s (itab s (unat (cwd s))) n)))) s)"
proof -
  let ?ic = "itab s (unat (cwd s))" and ?b = "(n - 1) div 16"
  have n: "0 < n" "n \<le> 16 * 139" "ic_size ?ic = of_nat (32 * n)"
    and fi: "file_inv s ?ic (dir_nblocks n) xs" using assms(3) by (simp_all add: dir_inv_def)
  have v: "16 * ?b + n mod 16 = visible n" using visible_eq [OF n(1)] by simp
  have nm: "unat (d_namlen (dirent s ?ic k)) \<le> 26" if "k < 16 * ?b + n mod 16" for k
    using that assms(5) visible_le [of n] unfolding v by (simp add: entries_def)
  have b: "?b < dir_nblocks n" "?b < 11" "n mod 16 \<le> 16" using assms(4) by (simp_all add: dir_nblocks_def)
  have "take (visible n) (entries s ?ic n) = map (dirent s ?ic) [0..<visible n]"
    using visible_le [of n] by (simp add: entries_def take_map)
  then show ?thesis
    using ls_blocks_said [OF assms(1) fi b _ nm, of 0 None] readInode_itab [OF assms(1,2)] n(3) ls_visits_eq [OF n(1,2)]
    by (simp add: kernel_handler_svc_def svc_ls_def v [simplified] comp_def)
qed

theorem svc_ls_spec_witness:
  "kernel_handler_svc board_env 0x0f zero_ctx desk = Some (zero_ctx, said [10, 80, 48, 10] desk)"
proof -
  have r: "root_inv desk 2 (tl wipe_order)" by (rule desk_finds(1))
  have ent: "entries desk (itab desk 0) 2 = [bytes_dir (replicate 32 0), P0_dir]"
    by (simp add: desk_as_rooted rooted_itab rooted_entries)
  have d: "formatted desk" "dir_inv desk (itab desk 0) 2 (tl wipe_order)"
    using r by (simp_all add: root_inv_def alloc_inv_def)
  have c: "unat (cwd desk) = 0" by (simp add: desk_def)
  have l: "line_of (bytes_dir (replicate 32 0)) = [10]" "line_of P0_dir = [80, 48, 10]"
    by (simp_all add: line_of_def bytes_dir_def P0_dir_def bytes_u16_def)
  have "\<forall>d \<in> set (entries desk (itab desk 0) 2). unat (d_namlen d) \<le> 26"
    by (simp add: ent bytes_dir_def P0_dir_def bytes_u16_def)
  with svc_ls_spec [of desk 2 "tl wipe_order" board_env zero_ctx] d show ?thesis
    by (simp add: c ent visible_def l)
qed

text \<open>Reading a line. When a line has been typed that fits, a read from the console stores it with
  its carriage return at the caller's address and nowhere else, echoes it with a newline,
  leaves what was typed after it, and returns the number of bytes asked for, not the number
  read.\<close>

lemma svc_read_line:
  assumes "gpr c = f # x # n # rs" and "f = STDIO" and "rx (uart0 s) = line @ 13 # rest" and "13 \<notin> set line"
    and "int (length line) < sint n"
  shows "\<exists>s'. kernel_handler_svc e 0x02 c s = Some (c\<lparr>gpr := n # x # n # rs\<rparr>, s') \<and> mem_read s' x (length line + 1) = line @ [13]
    \<and> (\<forall>a. length line + 1 \<le> unat (a - x) \<longrightarrow> mem s' a = mem s a)
    \<and> tx (uart0 s') = tx (uart0 s) @ line @ [10] \<and> rx (uart0 s') = rest"
proof -
  have n: "length line < nat (sint n)" "nat (sint n) < 2 ^ 32" using assms(5) sint_lt [of n] by simp_all
  let ?s = "mem_write x (line @ [13]) (said (line @ [10]) (s\<lparr>uart0 := (uart0 s)\<lparr>rx := rest\<rparr>\<rparr>))"
  have "kernel_handler_svc e 0x02 c s = Some (c\<lparr>gpr := n # x # n # rs\<rparr>, ?s)"
    using read_con_line [OF assms(3,4) n, of "console e" x] assms(1,2)
    by (simp add: kernel_handler_svc_def svc_read_def arg_def set_r0_def)
  moreover have "mem_read ?s x (length (line @ [13 :: byte])) = line @ [13]" using n by (intro mem_read_write) simp
  moreover have "mem ?s a = mem s a" if "length line + 1 \<le> unat (a - x)" for a
    using that by (simp add: mem_write_put mem_put_def said_def)
  moreover have "tx (uart0 ?s) = tx (uart0 s) @ line @ [10]" "rx (uart0 ?s) = rest" by (simp_all add: mem_write_put said_def)
  ultimately show ?thesis by auto
qed

section \<open>Creating a directory\<close>

lemma dir_same:
  assumes di: "dir_inv s ic n xs" and same: "\<And>a. a \<in> set (file_blocks s ic (dir_nblocks n)) \<Longrightarrow> blk s' a = blk s a"
  shows "dir_inv s' ic n xs" and "entries s' ic n = entries s ic n"
    and "file_blocks s' ic (dir_nblocks n) = file_blocks s ic (dir_nblocks n)"
proof -
  have f: "fblk s' ic i = fblk s ic i" "blk s' (fblk s ic i) = blk s (fblk s ic i)" if "i < dir_nblocks n" for i
  proof -
    show "fblk s' ic i = fblk s ic i"
    proof (cases "i < 11")
      case False
      then have "ic_ib ic ! 0 \<in> set (file_blocks s ic (dir_nblocks n))" using that by (simp add: set_file_blocks)
      then show ?thesis using same by (simp add: fblk_def)
    qed (simp add: fblk_def)
    show "blk s' (fblk s ic i) = blk s (fblk s ic i)" using that by (intro same) (simp add: set_file_blocks)
  qed
  then show "entries s' ic n = entries s ic n" by (intro entries_cong) simp_all
  show "file_blocks s' ic (dir_nblocks n) = file_blocks s ic (dir_nblocks n)" using f(1) by (simp add: file_blocks_def)
  then show "dir_inv s' ic n xs" using di by (simp add: dir_inv_def file_inv_def)
qed

text \<open>The inode and the two entries of the new directory.\<close>

definition child_ic :: "'h env \<Rightarrow> u32 \<Rightarrow> icommon_t" where
  "child_ic e a = (i_ic (stack_inode e))\<lparr>ic_mode := IFDIR, ic_size := 64, ic_db := (ic_db (i_ic (stack_inode e)))[0 := a]\<rparr>"

definition self_entry :: "'h env \<Rightarrow> u32 \<Rightarrow> dir_t" where
  "self_entry e i = (dir_at (stack_dir e) 0)\<lparr>d_ino := i, d_namlen := 1, d_name := (d_name (dir_at (stack_dir e) 0))[0 := 46]\<rparr>"

definition up_entry :: "'h env \<Rightarrow> u32 \<Rightarrow> dir_t" where
  "up_entry e i = (dir_at (stack_dir e) 1)\<lparr>d_ino := i, d_namlen := 2, d_name := (d_name (dir_at (stack_dir e) 1))[0 := 46, 1 := 46]\<rparr>"

lemma dot_entries_at:
  assumes "length (stack_dir e) = 512"
  shows "length (dot_entries (stack_dir e) i j) = 512" and "dir_at (dot_entries (stack_dir e) i j) 0 = self_entry e i"
    and "dir_at (dot_entries (stack_dir e) i j) 1 = up_entry e j"
proof -
  have w: "wf_dir (self_entry e i)" "wf_dir (up_entry e j)"
    using wf_dir_at [OF assms, of 0] wf_dir_at [OF assms, of 1] by (simp_all add: self_entry_def up_entry_def wf_dir_def)
  have b: "dot_entries (stack_dir e) i j = put_dir (put_dir (stack_dir e) 0 (self_entry e i)) 1 (up_entry e j)"
    using assms w by (simp add: dot_entries_def Let_def self_entry_def [symmetric] up_entry_def dir_at_put_dir)
  show "length (dot_entries (stack_dir e) i j) = 512" using b w assms by simp
  show "dir_at (dot_entries (stack_dir e) i j) 0 = self_entry e i" "dir_at (dot_entries (stack_dir e) i j) 1 = up_entry e j"
    using b w assms by (simp_all add: dir_at_put_dir)
qed

lemma dots_match:
  assumes "length (stack_dir e) = 512" and "d_name (dir_at (stack_dir e) 0) ! 1 \<noteq> 46"
  shows "\<not> matches [46, 46] (self_entry e i)" and "matches [46, 46] (up_entry e j)"
proof -
  have two: "\<exists>a b r. xs = a # b # r" if "length xs = 26" for xs :: "byte list"
    using that by (cases xs; cases "tl xs") auto
  have l: "length (d_name (dir_at (stack_dir e) k)) = 26" if "k < 16" for k
    using wf_dir_at [OF assms(1) that] by (simp add: wf_dir_def)
  obtain a b r where "d_name (dir_at (stack_dir e) 0) = a # b # r" using two [OF l [of 0]] by auto
  then show "\<not> matches [46, 46] (self_entry e i)" using assms(2) by (simp add: matches_def self_entry_def)
  obtain a b r where "d_name (dir_at (stack_dir e) 1) = a # b # r" using two [OF l [of 1]] by auto
  then show "matches [46, 46] (up_entry e j)" by (simp add: matches_def up_entry_def)
qed

lemma svc_mkdir_ok:
  fixes s :: "('h, 'a) kernel_scheme"
  assumes al: "alloc_inv s (x # xs)" and w: "unat (cwd s) < 512"
    and di: "dir_inv s (itab s (unat (cwd s))) n (x # xs)" and dm: "ic_mode (itab s (unat (cwd s))) = IFDIR"
    and free: "find (\<lambda>k. ic_mode (itab s k) = IFZERO) [0..<512] = Some k"
    and n: "n < 16 * 139" and cost: "add_cost n \<le> length xs"
    and st: "wf_ic (i_ic (stack_inode e))" "length (stack_dir e) = 512"
    and c: "gpr c = p # rs" and name: "cstr (mem s) p = Some name" "length name \<le> 26"
  defines "v \<equiv> unat (cwd s)" and "ys \<equiv> drop (add_cost n) xs"
  shows "\<exists>s' d. svc_mkdir e c s = Some (c\<lparr>gpr := 0 # rs\<rparr>, s') \<and> alloc_inv s' ys
    \<and> dir_inv s' (itab s' v) (Suc n) ys \<and> entries s' (itab s' v) (Suc n) = entries s (itab s v) n @ [d]
    \<and> d_ino d = of_nat k \<and> unat (d_namlen d) = length name \<and> take (length name) (d_name d) = name
    \<and> itab s' k = child_ic e x \<and> dir_inv s' (child_ic e x) 2 ys
    \<and> entries s' (child_ic e x) 2 = [self_entry e (of_nat k), up_entry e (cwd s)]
    \<and> (\<forall>m<512. m \<noteq> v \<and> m \<noteq> k \<longrightarrow> itab s' m = itab s m) \<and> store.more s' = store.more s"
proof -
  have f: "formatted s" and x: "data_addr x" "x \<notin> set xs" using al by (auto simp: alloc_inv_def)
  have k: "k < 512" "ic_mode (itab s k) = IFZERO" using free by (auto simp: find_Some_iff simp del: upt_rec_numeral)
  have uk: "unat (of_nat k :: u32) = k" using k(1) by (simp add: unat_of_nat_u32)
  have kv: "k \<noteq> v" using k(2) dm by (auto simp: v_def)
  let ?blk = "dot_entries (stack_dir e) (of_nat k) (cwd s)"
  let ?child = "(stack_inode e)\<lparr>i_number := of_nat k, i_ic := child_ic e x\<rparr>"
  let ?par = "(stack_inode e)\<lparr>i_number := cwd s, i_ic := itab s v\<rparr>"
  note dots = dot_entries_at [OF st(2), of "of_nat k" "cwd s"]
  from balloc_Cons [OF al] obtain s1 where s1: "balloc s = Some (x, s1)" "alloc_inv s1 xs" "same_data s s1" by blast
  let ?s2 = "s1\<lparr>dsk := (dsk s1)\<lparr>dblk := (blk s1)(x := ?blk)\<rparr>\<rparr>"
  note s2 = data_write [OF s1(2) x dots(1)]
  have wc: "wf_ic (child_ic e x)" using st(1) by (simp add: child_ic_def wf_ic_def)
  from writeInode_meta [OF s2(2), of ?child] wc uk k(1) obtain s3 where
    s3: "writeInode ?child ?s2 = Some s3" "alloc_inv s3 xs" "meta_only k ?s2 s3" "itab s3 k = child_ic e x" by auto
  have b3: "blk s3 a = blk s a" if "data_addr a" "a \<noteq> x" for a
    using s3(3) s1(3) that data_addr_not_sb by (auto simp: meta_only_def same_data_def)
  have bx: "blk s3 x = ?blk" using s3(3) x(1) by (simp add: meta_only_def)
  have fi: "file_inv s (itab s v) (dir_nblocks n) (x # xs)" using di by (simp add: dir_inv_def v_def)
  then have nx: "data_addr a \<and> a \<noteq> x" if "a \<in> set (file_blocks s (itab s v) (dir_nblocks n))" for a
    using that by (auto simp: file_inv_def)
  then have same3: "blk s3 a = blk s a" if "a \<in> set (file_blocks s (itab s v) (dir_nblocks n))" for a using that b3 by blast
  have d3: "dir_inv s3 (itab s v) n (x # xs)" "entries s3 (itab s v) n = entries s (itab s v) n"
    "file_blocks s3 (itab s v) (dir_nblocks n) = file_blocks s (itab s v) (dir_nblocks n)"
    using dir_same [OF di, folded v_def, of s3] same3 by blast+
  have d3': "dir_inv s3 (itab s v) n xs" using d3(1) file_inv_drop [of s3 _ _ "x # xs" 1] by (simp add: dir_inv_def)
  have vb: "unat (i_number ?par) < 512" using w by simp
  from addInodeToDirectory_ok [OF s3(2), of ?par n name "of_nat k"] d3' vb n cost name(2) obtain par' s' d where
    a: "addInodeToDirectory ?par (of_nat k) name s3 = Some (par', s')" "alloc_inv s' ys"
      "dir_inv s' (i_ic par') (Suc n) ys" "entries s' (i_ic par') (Suc n) = entries s3 (itab s v) n @ [d]" "d_ino d = of_nat k"
      "unat (d_namlen d) = length name" "take (length name) (d_name d) = name" "itab s' v = i_ic par'"
      "\<forall>m<512. m \<noteq> v \<longrightarrow> itab s' m = itab s3 m" "store.more s' = store.more s3"
      "\<forall>c. data_addr c \<and> c \<notin> set xs \<and> c \<notin> set (file_blocks s3 (itab s v) (dir_nblocks n)) \<longrightarrow> blk s' c = blk s3 c"
    by (auto simp: v_def ys_def)
  have m: "store.more s3 = store.more s" using s3(3) s1(3) by (simp add: meta_only_def same_data_def)
  then have mem3: "mem s3 = mem s" by (rule more_fields(6))
  have "svc_mkdir e c s = Some (c\<lparr>gpr := 0 # rs\<rparr>, s')"
    using getFreeInode_find [OF f, of "stack_inode e"] free readInode_itab [OF f w, of "stack_inode e"] s1(1) s2(1) s3(1) a(1) c name(1) mem3 st(1)
    by (simp add: svc_mkdir_def Let_def arg_def set_r0_def child_ic_def v_def wf_ic_def del: upt_rec_numeral)
  moreover have ik: "itab s' k = child_ic e x" using a(9) k(1) kv s3(4) by simp
  moreover have "blk s' x = ?blk"
    using a(11) [rule_format, of x, unfolded d3(3)] x nx [of x] bx by auto
  have db: "ic_db (child_ic e x) ! 0 = x" using st(1) by (simp add: child_ic_def wf_ic_def)
  then have "entries s' (child_ic e x) 2 = [self_entry e (of_nat k), up_entry e (cwd s)]"
    using \<open>blk s' x = ?blk\<close> dots(2,3) by (simp add: entries_def dirent_def fblk_def upt_rec numeral_2_eq_2)
  moreover have "distinct xs" "set ys \<subseteq> set xs" using al set_drop_subset [of "add_cost n" xs] by (simp_all add: alloc_inv_def ys_def)
  then have "distinct (x # ys)" using x(2) by (auto simp: ys_def)
  then have "dir_inv s' (child_ic e x) 2 ys"
    using db wc x(1) by (simp add: dir_inv_def dir_nblocks_def file_inv_def file_blocks_def fblk_def) (simp add: child_ic_def)
  moreover have "\<forall>m<512. m \<noteq> v \<and> m \<noteq> k \<longrightarrow> itab s' m = itab s m"
    using a(9) s3(3) s2(3) balloc_meta(2) [OF s1(3)] by (simp add: meta_only_def)
  moreover have "entries s' (itab s' v) (Suc n) = entries s (itab s v) n @ [d]" using a(4,8) d3(2) by simp
  ultimately show ?thesis using a m by (intro exI [of _ s'] exI [of _ d]) simp
qed

section \<open>Changing the directory\<close>

lemma cstr_nth: "cstr m a = Some xs \<Longrightarrow> i < length xs \<Longrightarrow> m (a + of_nat i) = xs ! i"
proof (induction xs arbitrary: a i)
  case (Cons x xs)
  from Cons.prems(1) have "m a = x" "cstr m (a + 1) = Some xs"
    by (subst (asm) cstr.simps, auto simp: bind_eq_Some_conv split: if_splits)+
  with Cons.IH [of "a + 1" "i - 1"] Cons.prems(2) show ?case by (cases i) (simp_all add: add.assoc)
qed simp

lemma mem_write_same:
  assumes "cstr (mem s) a = Some xs"
  shows "mem_write a xs s = s"
proof -
  have "(if unat (b - a) < length xs then xs ! unat (b - a) else mem s b) = mem s b" for b
    using cstr_nth [OF assms, of "unat (b - a)"] by simp
  then show ?thesis by (simp add: mem_write_def)
qed

lemma cut_one: "47 \<notin> set name \<Longrightarrow> cut_tokens (Suc 0) False name = name"
proof -
  have "cut_tokens n True xs = xs" if "47 \<notin> set xs" for n xs using that by (induction xs) auto
  then show "47 \<notin> set name \<Longrightarrow> cut_tokens (Suc 0) False name = name" by (cases name) auto
qed

lemma svc_cd_found:
  assumes f: "formatted s" and v: "unat (cwd s) < 512" and gn: "good_name name" and p: "gpr c = p # rs" "cstr (mem s) p = Some name"
    and i: "name_to_ino name (inode_local\<lparr>i_number := cwd s, i_ic := itab s (unat (cwd s))\<rparr>) s = Some i" "i \<noteq> -1"
  shows "kernel_handler_svc e 0x11 c s = Some (c\<lparr>gpr := 0 # rs\<rparr>, s\<lparr>cwd := i\<rparr>)"
proof -
  have t: "tokens name = [name]" "47 \<notin> set name" using gn tokens_single by (auto simp: good_name_def)
  have "cwd s \<noteq> -1" using v by (auto simp: unsigned_minus_1_eq_mask mask_eq_exp_minus_1)
  then have "walk (tokens name) inode_local 0 [] (cwd s) s = Some ([], inode_local\<lparr>i_number := cwd s, i_ic := itab s (unat (cwd s))\<rparr>, cwd s, name, i)"
    using readInode_itab [OF f v, of inode_local] i(1) t(1) by simp
  then show ?thesis using p i(2) t cut_one [OF t(2)] mem_write_same [OF p(2)]
    by (simp add: kernel_handler_svc_def svc_cd_def arg_def set_r0_def path_to_ino_def cut_path_def)
qed

text \<open>C3. A directory is made, entered and left. \<open>mkdir\<close> of a new name in the working directory takes the
  lowest unused inode and makes it a directory with two entries; \<open>cd\<close> of the name then makes
  it the working directory, and \<open>cd\<close> of \<open>..\<close> leads back. The working directory may be any
  directory whose number of entries does not become a multiple of 16; the byte that the
  uninitialised block has behind the name \<open>.\<close> must not be a dot, or \<open>.\<close> is taken for
  \<open>..\<close>.\<close>

theorem mkdir_cd_roundtrip:
  fixes s :: "('h, 'a) kernel_scheme"
  assumes al: "alloc_inv s (x # xs)" and w: "unat (cwd s) < 512"
    and di: "dir_inv s (itab s (unat (cwd s))) n (x # xs)" and dm: "ic_mode (itab s (unat (cwd s))) = IFDIR"
    and free: "find (\<lambda>k. ic_mode (itab s k) = IFZERO) [0..<512] = Some k"
    and n: "n < 16 * 139" "Suc n mod 16 \<noteq> 0" and cost: "add_cost n \<le> length xs"
    and st: "wf_ic (i_ic (stack_inode e))" "length (stack_dir e) = 512" "d_name (dir_at (stack_dir e) 0) ! 1 \<noteq> 46"
    and name: "good_name name" "cstr (mem s) p = Some name" "cstr (mem s) up = Some [46, 46]"
    and new: "\<forall>d \<in> set (entries s (itab s (unat (cwd s))) n). \<not> matches name d"
  shows "\<exists>s'. kernel_handler_svc e 0x10 (c\<lparr>gpr := p # rs\<rparr>) s = Some (c\<lparr>gpr := 0 # rs\<rparr>, s')
    \<and> ic_mode (itab s' k) = IFDIR \<and> cwd s' = cwd s
    \<and> kernel_handler_svc e 0x11 (c\<lparr>gpr := p # rs\<rparr>) s' = Some (c\<lparr>gpr := 0 # rs\<rparr>, s'\<lparr>cwd := of_nat k\<rparr>)
    \<and> kernel_handler_svc e 0x11 (c\<lparr>gpr := up # rs\<rparr>) (s'\<lparr>cwd := of_nat k\<rparr>) = Some (c\<lparr>gpr := 0 # rs\<rparr>, s')"
proof -
  let ?ys = "drop (add_cost n) xs" and ?v = "unat (cwd s)"
  have len: "length name \<le> 26" "0 \<notin> set name" "length name \<le> 25" using name(1) by (simp_all add: good_name_def)
  from svc_mkdir_ok [OF al w di dm free n(1) cost st(1,2) _ name(2) len(1), of "c\<lparr>gpr := p # rs\<rparr>" rs] obtain s' d where
    m: "svc_mkdir e (c\<lparr>gpr := p # rs\<rparr>) s = Some (c\<lparr>gpr := 0 # rs\<rparr>, s')" "alloc_inv s' ?ys" "dir_inv s' (itab s' ?v) (Suc n) ?ys"
      "entries s' (itab s' ?v) (Suc n) = entries s (itab s ?v) n @ [d]" "d_ino d = of_nat k" "unat (d_namlen d) = length name"
      "take (length name) (d_name d) = name" "itab s' k = child_ic e x" "dir_inv s' (child_ic e x) 2 ?ys"
      "entries s' (child_ic e x) 2 = [self_entry e (of_nat k), up_entry e (cwd s)]" "store.more s' = store.more s" by auto
  note same = more_fields(5,6) [OF m(11)]
  have f: "formatted s'" using m(2) by (simp add: alloc_inv_def)
  have k: "k < 512" using free by (auto simp: find_Some_iff simp del: upt_rec_numeral)
  then have uk: "unat (of_nat k :: u32) = k" by (simp add: unat_of_nat_u32)
  have minus1: "(i :: u32) \<noteq> -1" if "unat i < 512" for i using that by (auto simp: unsigned_minus_1_eq_mask mask_eq_exp_minus_1)
  let ?in = "\<lambda>i. inode_local\<lparr>i_number := i, i_ic := itab s' (unat i)\<rparr>"
  have "name_to_ino name (?in (cwd s)) s' = Some (if Suc n mod 16 = 0 then -1 else d_ino d)"
    using m(3,4,6,7) new len f by (intro lookup_new [where xs = ?ys]) (auto simp: entries_def matches_new)
  then have go: "kernel_handler_svc e 0x11 (c\<lparr>gpr := p # rs\<rparr>) s' = Some (c\<lparr>gpr := 0 # rs\<rparr>, s'\<lparr>cwd := of_nat k\<rparr>)"
    using svc_cd_found [OF f _ name(1), of "c\<lparr>gpr := p # rs\<rparr>" p rs "of_nat k" e] w name(2) n(2) m(5) minus1 [of "of_nat k"] uk k
    by (simp add: same)
  let ?t = "s'\<lparr>cwd := of_nat k\<rparr>"
  have ft: "formatted ?t" using f by (simp add: formatted_def wf_store_def)
  have "find (matches [46, 46]) [self_entry e (of_nat k), up_entry e (cwd s)] = Some (up_entry e (cwd s))"
    using dots_match [OF st(2,3)] by simp
  then have "name_to_ino [46, 46] (?in (of_nat k)) ?t = Some (cwd s)"
    using name_to_ino_find [OF ft, of "?in (of_nat k)" 2 ?ys "[46, 46]"] m(8-10) uk same_disk_views [of ?t s']
    by (simp add: visible_def up_entry_def)
  then have "kernel_handler_svc e 0x11 (c\<lparr>gpr := up # rs\<rparr>) ?t = Some (c\<lparr>gpr := 0 # rs\<rparr>, ?t\<lparr>cwd := cwd s\<rparr>)"
    using svc_cd_found [OF ft, of "[46, 46]" "c\<lparr>gpr := up # rs\<rparr>" up rs "cwd s" e] name(3) w minus1 uk k same_disk_views(7) [of ?t s' k]
    by (simp add: same good_name_def)
  moreover have "?t\<lparr>cwd := cwd s\<rparr> = s'" using same(1) by (cases s') simp
  moreover have "ic_mode (itab s' k) = IFDIR" by (simp add: m(8) child_ic_def)
  ultimately show ?thesis using m(1) go same(1) by (simp add: kernel_handler_svc_def)
qed

definition desk_names :: "unit kernel" where
  "desk_names = desk\<lparr>mem := (\<lambda>_. 0)(0x100 := 100, 0x200 := 46, 0x201 := 46)\<rparr>"

theorem mkdir_cd_roundtrip_witness:
  "\<exists>s'. kernel_handler_svc board_env 0x10 (zero_ctx\<lparr>gpr := [0x100]\<rparr>) desk_names = Some (zero_ctx\<lparr>gpr := [0]\<rparr>, s') \<and> cwd s' = 0
    \<and> kernel_handler_svc board_env 0x11 (zero_ctx\<lparr>gpr := [0x100]\<rparr>) s' = Some (zero_ctx\<lparr>gpr := [0]\<rparr>, s'\<lparr>cwd := 2\<rparr>)
    \<and> kernel_handler_svc board_env 0x11 (zero_ctx\<lparr>gpr := [0x200]\<rparr>) (s'\<lparr>cwd := 2\<rparr>) = Some (zero_ctx\<lparr>gpr := [0]\<rparr>, s')"
proof -
  let ?s = desk_names
  have d: "dsk ?s = dsk desk" "fs ?s = fs desk" and c: "cwd ?s = 0" by (simp_all add: desk_names_def desk_def)
  note as_desk = same_disk_views [OF d(1)] same_disk_alloc [OF d]
  have wo: "tl wipe_order = 2046 # tl (tl wipe_order)" using wipe_order_hd by (metis list.sel(3))
  have r: "root_inv desk 2 (2046 # tl (tl wipe_order))" using desk_finds(1) wo by metis
  have ent: "entries desk (itab desk 0) 2 = [bytes_dir (replicate 32 0), P0_dir]"
    by (simp add: desk_as_rooted rooted_itab rooted_entries)
  have free: "find (\<lambda>k. ic_mode (itab desk k) = IFZERO) [0..<512] = Some 2"
    using rooted_itab rooted_itab(3) [of 2] by (intro find_upt_SomeI) (auto simp: desk_as_rooted less_2_cases_iff root_ic_def P0_ic_def)
  have name: "good_name [100]" "cstr (mem ?s) 0x100 = Some [100]" "cstr (mem ?s) 0x200 = Some [46, 46]"
    by (simp_all add: good_name_def desk_names_def cstr.simps)
  have st: "wf_ic (i_ic (stack_inode board_env))" "length (stack_dir board_env) = 512" "d_name (dir_at (stack_dir board_env) 0) ! 1 \<noteq> 46"
    by (simp_all add: board_env_def inode_local_def wf_ic_def dir_at_def bytes_dir_def)
  have new: "\<forall>d \<in> set (entries desk (itab desk 0) 2). \<not> matches [100] d"
    by (simp add: ent matches_def P0_dir_def bytes_dir_def)
  show ?thesis
    using mkdir_cd_roundtrip [where s = ?s and x = 2046 and xs = "tl (tl wipe_order)" and n = 2 and k = 2 and e = board_env
        and name = "[100]" and p = "0x100" and up = "0x200" and c = zero_ctx and rs = "[]"] r free name st new c
    by (simp add: as_desk root_inv_def add_cost_def del: upt_rec_numeral) blast
qed

end
