(* ===== verification/Runs.thy ===== *)
theory Runs
  imports Demos Calls
begin

text \<open>
  Runs of programs against the kernel: what a supervisor call does to the program that makes it,
  and the demo programs that write files from their start to their exit.
\<close>

section \<open>Bytes in memory\<close>

definition bytes_at :: "(u32 \<Rightarrow> byte) \<Rightarrow> u32 \<Rightarrow> nat \<Rightarrow> byte list" where
  "bytes_at m a n = map (\<lambda>i. m (a + of_nat i)) [0..<n]"

lemma mem_read_bytes: "mem_read s a n = bytes_at (mem s) a n"
  by (simp add: mem_read_def bytes_at_def)

lemma bytes_at_put:
  assumes "n = length xs" and "length xs \<le> 2 ^ 32"
  shows "bytes_at (mem_put a xs m) a n = xs"
proof (rule nth_equalityI)
  fix i assume "i < length (bytes_at (mem_put a xs m) a n)"
  then have i: "i < length xs" using assms(1) by (simp add: bytes_at_def)
  then have "unat (of_nat i :: u32) = i" using assms(2) by (intro unat_of_nat_u32) simp
  with i assms(1) show "bytes_at (mem_put a xs m) a n ! i = xs ! i" by (simp add: bytes_at_def mem_put_def)
qed (simp add: bytes_at_def assms(1))

lemma bytes_at_past:
  assumes "length ys \<le> unat (a - b)" and "unat (a - b) + n \<le> 2 ^ 32"
  shows "bytes_at (mem_put b ys m) a n = bytes_at m a n"
proof -
  have "mem_put b ys m (a + of_nat i) = m (a + of_nat i)" if "i < n" for i
  proof -
    have "unat (of_nat i :: u32) = i" using that assms(2) by (intro unat_of_nat_u32) simp
    then have "unat ((a - b) + of_nat i) = unat (a - b) + i" using that assms(2) by (subst unat_plus_simple [THEN iffD1]) (simp_all add: no_olen_add_nat)
    moreover have "a + of_nat i - b = (a - b) + of_nat i" by simp
    ultimately have "unat (a + of_nat i - b) = unat (a - b) + i" by metis
    then show ?thesis using assms(1) by (simp add: mem_put_def)
  qed
  then show ?thesis by (simp add: bytes_at_def)
qed

lemma cstr_bytes:
  assumes "bytes_at m a (Suc (length xs)) = xs @ [0]" and "0 \<notin> set xs"
  shows "cstr m a = Some xs"
  using assms
proof (induction xs arbitrary: a)
  case Nil
  then show ?case by (simp add: bytes_at_def cstr.simps)
next
  case (Cons x xs)
  have "bytes_at m a (Suc (length (x # xs))) = m a # bytes_at m (a + 1) (Suc (length xs))"
    by (simp add: bytes_at_def upt_conv_Cons map_Suc_upt [symmetric] o_def add.assoc del: upt_Suc map_Suc_upt)
  with Cons.prems have "m a = x" "bytes_at m (a + 1) (Suc (length xs)) = xs @ [0]" by simp_all
  with Cons.IH Cons.prems(2) show ?case by (subst cstr.simps) simp
qed

section \<open>Steps of the current process\<close>

abbreviation prog_run :: "'h env \<Rightarrow> (u32 \<Rightarrow> unit prog) \<Rightarrow> ctx_t \<times> ('h, 'a) kernel_scheme \<times> (nat \<Rightarrow> thread) \<Rightarrow>
    ctx_t \<times> ('h, 'a) kernel_scheme \<times> (nat \<Rightarrow> thread) \<Rightarrow> bool" where
  "prog_run e code \<equiv> (\<lambda>x y. prog_step e code x = Some y)\<^sup>*\<^sup>*"

lemma run_step: "prog_step e code x = Some y \<Longrightarrow> prog_run e code y z \<Longrightarrow> prog_run e code x z"
  by (rule converse_rtranclp_into_rtranclp)

lemma run_svc:
  assumes "current s = Some p" and "T p = Going (seq (svc i xs) k)" and "i \<noteq> 0x03" "i \<noteq> 0x04"
    and "kernel_handler_svc e i (load_args xs c) s = Some (c', s')" and "current s' = Some p" and "arg 0 c' = Some r"
  shows "prog_run e code (c, s, T) (c', s', T(p := Going (k r)))"
proof -
  have "prog_step e code (c, s, T) = Some (c', s', T(p := Called (\<lambda>r m. k r)))"
    using assms by (simp add: prog_step_def svc_def after_call_def)
  moreover have "prog_step e code (c', s', T(p := Called (\<lambda>r m. k r))) = Some (c', s', T(p := Going (k r)))"
    using assms(6,7) by (simp add: prog_step_def)
  ultimately show ?thesis by (meson converse_rtranclp_into_rtranclp rtranclp.rtrancl_refl)
qed

lemma load_args_simps:
  "3 \<le> length (gpr c) \<Longrightarrow> gpr (load_args [a] c) = a # drop 1 (gpr c)"
  "3 \<le> length (gpr c) \<Longrightarrow> gpr (load_args [a, b] c) = a # b # drop 2 (gpr c)"
  "3 \<le> length (gpr c) \<Longrightarrow> gpr (load_args [a, b, d] c) = a # b # d # drop 3 (gpr c)"
  by (simp_all add: load_args_def splice_at_def numeral_2_eq_2 numeral_3_eq_3)

lemma set_r0_load:
  assumes "xs \<noteq> []" and "length xs \<le> length (gpr c)"
  shows "\<exists>c'. set_r0 r (load_args xs c) = Some c' \<and> arg 0 c' = Some r \<and> length (gpr c') = length (gpr c)"
proof -
  have "0 < length (gpr (load_args xs c))" using assms by (auto simp: load_args_def splice_at_def)
  then obtain x ys where xy: "gpr (load_args xs c) = x # ys" by (cases "gpr (load_args xs c)") auto
  moreover have "Suc (length ys) = length (gpr c)"
    using arg_cong [OF xy, of length] assms by (simp add: load_args_def splice_at_def)
  ultimately show ?thesis by (auto simp: set_r0_def arg_def arr_def arr_upd_def)
qed

section \<open>Opening and writing a new file\<close>

lemma cut_path_name:
  assumes "good_name name" and "cstr (mem s) a = Some name" and "path_to_ino name 0 s = Some ino"
  shows "cut_path a name 0 s = Some s"
proof -
  have t: "tokens name = [name]" "47 \<notin> set name" using assms(1) tokens_single by (auto simp: good_name_def)
  then obtain inode tok where "walk (tokens name) inode_local 0 [] 0 s = Some ([], inode, 0, tok, ino)"
    using assms(3) by (auto simp: path_to_ino_def bind_eq_Some_conv split: if_splits)
  then show ?thesis using t cut_one [OF t(2)] mem_write_same [OF assms(2)] by (simp add: cut_path_def)
qed

lemma svc_open_new:
  fixes s :: "('h, 'a) kernel_scheme"
  assumes cc: "can_create name p f j k i n x xs s" and name: "cstr (mem s) a = Some name" and c: "3 \<le> length (gpr c)"
    and op: "open_file name O_CREAT s = Some (of_nat f, s1)"
  shows "\<exists>c'. kernel_handler_svc e 0x0c (load_args [a, O_CREAT] c) s = Some (c', s1)
    \<and> arg 0 c' = Some (of_nat f) \<and> length (gpr c') = length (gpr c)"
proof -
  have inv: "tables_inv s" and fs: "free_slots s p f j k" and ri: "root_inv s n (x # xs)" and gn: "good_name name"
    using cc by (simp_all add: can_create_def)
  have cur: "current s = Some p" and f: "find (\<lambda>i. fd (pcb s ! p) ! i = None) [0..<16] = Some f"
    using fs by (simp_all add: free_slots_def)
  have "f < 16" using find_upt_Some [OF f] by blast
  then have g: "getFD s = Some (of_nat f)" "(of_nat f :: u32) \<noteq> -1" using getFD_find [OF inv cur] f fd_not_minus1 by simp_all
  have fm: "formatted s" and di: "dir_inv s (itab s 0) n (x # xs)" using ri by (simp_all add: root_inv_def alloc_inv_def)
  obtain ino where "path_to_ino name 0 s = Some ino"
    using lookup_root [OF fm gn] name_to_ino_find [OF fm, of "inode_local\<lparr>i_number := 0, i_ic := itab s 0\<rparr>" n "x # xs" name] di gn
    by (simp add: good_name_def)
  note cut = cut_path_name [OF gn name this]
  from set_r0_load [of "[a, O_CREAT]" c "of_nat f"] c obtain c' where
    "set_r0 (of_nat f) (load_args [a, O_CREAT] c) = Some c'" "arg 0 c' = Some (of_nat f)" "length (gpr c') = length (gpr c)" by auto
  then show ?thesis using g cut name op c
    by (simp add: kernel_handler_svc_def svc_open_def arg_def load_args_simps)
qed

lemma svc_write_file:
  assumes "fwrite f data (of_nat (length data)) s = Some (0, s')" and "mem_read s a (length data) = data" and "length data < 2 ^ 31"
    and "f \<noteq> STDIO" and "3 \<le> length (gpr c)"
  shows "\<exists>c'. kernel_handler_svc e 0x01 (load_args [f, a, of_nat (length data)] c) s = Some (c', s')
    \<and> arg 0 c' = Some 0 \<and> length (gpr c') = length (gpr c)"
proof -
  from set_r0_load [of "[f, a, of_nat (length data)]" c 0] assms(5) obtain c' where
    "set_r0 0 (load_args [f, a, of_nat (length data)] c) = Some c'" "arg 0 c' = Some 0" "length (gpr c') = length (gpr c)" by auto
  then show ?thesis using assms nat_sint_small [OF assms(3)]
    by (simp add: kernel_handler_svc_def svc_write_def arg_def load_args_simps)
qed

text \<open>What a growing file leaves alone.\<close>

lemma growing_fields:
  assumes "growing s0 f j k xs A bytes s"
  shows "current s = current s0" "mem s = mem s0" "pcb s = pcb s0" "rq s = rq s0" "rq_size s = rq_size s0"
  using assms by (auto simp: growing_def)

lemma run_writes:
  fixes s0 :: "('h, 'a) kernel_scheme"
  assumes "growing s0 f j k xs A bytes s" and "current s0 = Some p" and "mem_read s0 a (length data) = data" and "f \<noteq> STDIO"
    and "T p = Going (seq (for_prog is (\<lambda>_. seq (write_u f a (of_nat (length data))) (\<lambda>_. Ret ()))) rest)"
    and "length bytes + length is * length data < 139 * 512" and "taken (length bytes + length is * length data) \<le> length xs"
    and "length data < 2 ^ 31" and "3 \<le> length (gpr c)"
  shows "\<exists>c' s'. prog_run e code (c, s, T) (c', s', T(p := Going (rest ()))) \<and> length (gpr c') = length (gpr c)
    \<and> growing s0 f j k xs A (bytes @ concat (replicate (length is) data)) s'"
  using assms
proof (induction "is" arbitrary: bytes s c T)
  case Nil
  then have "T(p := Going (rest ())) = T" by auto
  with Nil show ?case by auto
next
  case (Cons i "is")
  let ?n = "length bytes + length data"
  have le: "?n \<le> length bytes + length (i # is) * length data" by simp
  have t: "taken ?n \<le> taken (length bytes + length (i # is) * length data)"
    using le by (auto simp: taken_def grow_cost_def div_le_mono diff_le_mono)
  from growing_write [OF Cons.prems(1), of data] Cons.prems(6,7) le t obtain s1 where
    w: "fwrite f data (of_nat (length data)) s = Some (0, s1)" "growing s0 f j k xs A (bytes @ data) s1" by auto
  note fl = growing_fields [OF Cons.prems(1)] and fl1 = growing_fields [OF w(2)]
  have m: "mem_read s a (length data) = data" using Cons.prems(3) fl(2) by (simp add: mem_read_def)
  from svc_write_file [OF w(1) m Cons.prems(8,4,9)] obtain c1 where
    h: "kernel_handler_svc e 0x01 (load_args [f, a, of_nat (length data)] c) s = Some (c1, s1)" "arg 0 c1 = Some 0"
      "length (gpr c1) = length (gpr c)" by blast
  let ?k = "seq (for_prog is (\<lambda>_. seq (write_u f a (of_nat (length data))) (\<lambda>_. Ret ()))) rest"
  have one: "prog_run e code (c, s, T) (c1, s1, T(p := Going ?k))"
    using run_svc [OF _ _ _ _ h(1), where k = "\<lambda>_. ?k" and p = p and T = T] h(2) fl(1) fl1(1) Cons.prems(2,5)
    by (simp add: write_u_def seq_assoc)
  have b: "length (bytes @ data) + length is * length data < 139 * 512" "taken (length (bytes @ data) + length is * length data) \<le> length xs"
    using Cons.prems(6,7) by (simp_all add: add.assoc)
  have "(T(p := Going ?k)) p = Going ?k" by simp
  moreover have "3 \<le> length (gpr c1)" using Cons.prems(9) h(3) by simp
  ultimately obtain c' s' where
    two: "prog_run e code (c1, s1, T(p := Going ?k)) (c', s', T(p := Going ?k, p := Going (rest ())))" "length (gpr c') = length (gpr c1)"
      "growing s0 f j k xs A ((bytes @ data) @ concat (replicate (length is) data)) s'"
    using Cons.IH [where T = "T(p := Going ?k)" and c = c1, OF w(2) Cons.prems(2-4) _ b Cons.prems(8)] by blast
  have "(bytes @ data) @ concat (replicate (length is) data) = bytes @ concat (replicate (length (i # is)) data)" by simp
  with rtranclp_trans [OF one two(1) [unfolded fun_upd_upd]] two(2,3) h(3) show ?case by metis
qed

section \<open>Leaving\<close>

text \<open>\<open>cexit\<close>: the process is terminated, the next one runs, the files stay.\<close>

lemma exit_step:
  fixes s :: "('h, 'a) kernel_scheme"
  assumes inv: "sched_inv s q" and cur: "current s = Some p" and other: "b \<in> set q" "b \<noteq> p" "executing s b"
    and T: "T p = Going cexit" and c: "3 \<le> length (gpr c)"
  shows "\<exists>c' s' T'. prog_step e code (c, s, T) = Some (c', s', T') \<and> pst (pcb s' ! p) = TERMINATED
    \<and> (\<exists>b'. current s' = Some b' \<and> b' \<noteq> p) \<and> dsk s' = dsk s \<and> fs s' = fs s \<and> (\<forall>b'. b' \<noteq> p \<longrightarrow> T' b' = T b')"
proof -
  note i = current_pid_eq [OF inv cur]
  have rdy: "ready s q" using inv by (simp add: sched_inv_def)
  let ?s1 = "s\<lparr>pcb := (pcb s)[p := (pcb s ! p)\<lparr>pst := TERMINATED\<rparr>], rq := rq_of (remove1 p q), rq_size := of_nat (length (remove1 p q))\<rparr>"
  have k: "kill (of_nat p) SIGKILL s = Some ?s1" using kill_range [OF rdy i(1)] by simp
  have inv1: "sched_inv ?s1 (remove1 p q)" using kill_inv [OF inv i(1) k] by simp
  have c8: "distinct q" "length (pcb s) = 8" using rdy by (simp_all add: ready_def)
  then have "\<exists>b \<in> set (remove1 p q). executing ?s1 b"
    using other by (intro bexI [of _ b]) (simp_all add: executing_def)
  from scheduler_first [OF inv1 this, of "load_args [SIGKILL] c"] obtain c' s' b' where
    sc: "scheduler (load_args [SIGKILL] c) ?s1 = Some (c', s')"
      "find (executing ?s1) (tl (remove1 p q) @ [hd (remove1 p q)]) = Some b'" "current s' = Some b'"
      "\<forall>p<8. pst (pcb s' ! p) = pst (pcb ?s1 ! p)" by blast
  have "executing ?s1 b'" using sc(2) by (auto simp: find_Some_iff)
  then have "b' \<noteq> p" using c8 i(1) by (auto simp: executing_def)
  moreover have "pst (pcb s' ! p) = TERMINATED" using sc(4) i(1) c8 by simp
  moreover have "dsk s' = dsk s" "fs s' = fs s" using scheduler_fds [OF sc(1)] by (simp_all add: fd_view_def)
  moreover have "kernel_handler_svc e 0x07 (load_args [SIGKILL] c) s = Some (c', s')"
    using i(2) k sc(1) c by (simp add: kernel_handler_svc_def arg_def load_args_simps)
  ultimately show ?thesis
    using cur T sc(3) by (auto simp: prog_step_def cexit_def craise_def svc_void_def after_call_def)
qed

section \<open>Programs that write a file\<close>

lemma sched_inv_files:
  "sched_inv (s\<lparr>dsk := d\<rparr>) q = sched_inv s q" "sched_inv (s\<lparr>fs := g\<rparr>) q = sched_inv s q" "sched_inv (k\<lparr>ai := a\<rparr>) q = sched_inv k q"
  by (simp_all add: sched_inv_def ready_def running_def)

lemma creates_file:
  fixes s :: "('h, 'a) kernel_scheme"
  assumes cc: "can_create name p f j k i n x xs s" and inv: "sched_inv s q" and other: "b \<in> set q" "b \<noteq> p" "executing s b"
    and name: "cstr (mem s) a = Some name" and data: "mem_read s d (length data) = data" "length data < 2 ^ 31"
    and size: "m * length data < 139 * 512" "taken (m * length data) \<le> length xs" and c: "3 \<le> length (gpr c)"
    and T: "T p = Going (seq (fopen a O_CREAT) body)"
    and body: "body (of_nat f) = seq (for_prog [0..<m] (\<lambda>_. seq (write_u (of_nat f) d (of_nat (length data))) (\<lambda>_. Ret ())))
        (\<lambda>_. seq (fclose (of_nat f)) (\<lambda>_. cexit))"
  shows "\<exists>c' s' T'. prog_run e code (c, s, T) (c', s', T') \<and> pst (pcb s' ! p) = TERMINATED
    \<and> content (itab s' i) s' = concat (replicate m data) \<and> root_inv s' (Suc n) (drop (taken (m * length data)) xs)
    \<and> named name i n (insert x (set xs)) s s' \<and> (\<forall>b. b \<noteq> p \<longrightarrow> T' b = T b)"
proof -
  let ?f = "of_nat f :: u32" and ?A = "insert x (set xs)" and ?B = "concat (replicate m data)"
  let ?w = "for_prog [0..<m] (\<lambda>_. seq (write_u ?f d (of_nat (length data))) (\<lambda>_. Ret ()))"
  have fs: "free_slots s p f j k" and cur: "current s = Some p" using cc by (simp_all add: can_create_def free_slots_def)
  have f: "f < 16" using fs find_upt_Some by (fastforce simp: free_slots_def)
  have std: "?f \<noteq> STDIO"
  proof
    assume "?f = STDIO"
    then have "unat ?f = 0x7FFFFFFF" by simp
    with f show False by (simp add: unat_of_nat_u32)
  qed
  from create_growing [OF cc] obtain d1 g1 s1 where s1: "s1 = s\<lparr>dsk := d1, fs := g1\<rparr>"
    and op: "open_file name O_CREAT s = Some (?f, opened_at p f j k (of_nat i) s1)"
    and pr: "named name i n ?A s s1" "dir_inv s1 (itab s1 0) (Suc n) xs" "ic_mode (itab s1 i) = IFREG" "ic_db (itab s1 i) ! 0 = x"
      "growing (opened_at p f j k (of_nat i) s1) ?f j k xs ?A [] (opened_at p f j k (of_nat i) s1)" by blast
  let ?s2 = "opened_at p f j k (of_nat i) s1"
  have m2: "mem ?s2 = mem s" "current ?s2 = Some p" using cur by (simp_all add: opened_at_def s1)
  from svc_open_new [OF cc name c op] obtain c1 where
    h1: "kernel_handler_svc e 0x0c (load_args [a, O_CREAT] c) s = Some (c1, ?s2)" "arg 0 c1 = Some ?f" "length (gpr c1) = length (gpr c)" by blast
  let ?T1 = "T(p := Going (body ?f))"
  have r1: "prog_run e code (c, s, T) (c1, ?s2, ?T1)"
    using run_svc [OF cur _ _ _ h1(1) m2(2) h1(2), of T body code] T by (simp add: fopen_def)
  have "mem_read ?s2 d (length data) = data" using data(1) m2(1) by (simp add: mem_read_def)
  from run_writes [OF pr(5) m2(2) this std, of ?T1 "[0..<m]" "\<lambda>_. seq (fclose ?f) (\<lambda>_. cexit)" c1 e code] body size data(2) c h1(3)
  obtain c2 s4 where r2: "prog_run e code (c1, ?s2, ?T1) (c2, s4, ?T1(p := Going (seq (fclose ?f) (\<lambda>_. cexit))))"
    "length (gpr c2) = length (gpr c)" "growing ?s2 ?f j k xs ?A ?B s4" by (auto simp del: fun_upd_upd)
  let ?T2 = "T(p := Going (seq (fclose ?f) (\<lambda>_. cexit)))"
  have lB: "length ?B = m * length data" by (simp add: length_concat sum_list_replicate)
  from close_growing [OF cc s1 pr(1-4) r2(3)] lB obtain s5 where
    cl: "close ?f s4 = Some (0, s5)" "tables_kept k s s5" "root_inv s5 (Suc n) (drop (taken (m * length data)) xs)" "named name i n ?A s s5"
      "content (itab s5 i) s5 = ?B" by auto
  obtain d5 g5 y where s5: "s5 = s\<lparr>dsk := d5, fs := g5, ai := (ai s)[k := y]\<rparr>" using cl(2) unfolding tables_kept_def by blast
  from set_r0_load [of "[?f]" c2 0] c r2(2) obtain c3 where
    "set_r0 0 (load_args [?f] c2) = Some c3" "arg 0 c3 = Some 0" "length (gpr c3) = length (gpr c2)" by fastforce
  moreover have "arg 0 (load_args [?f] c2) = Some ?f" using c r2(2) by (simp add: arg_def load_args_simps)
  ultimately have h3: "kernel_handler_svc e 0x0d (load_args [?f] c2) s4 = Some (c3, s5)" "arg 0 c3 = Some 0" "3 \<le> length (gpr c3)"
    using cl(1) c r2(2) by (simp_all add: kernel_handler_svc_def ret_def)
  have cur4: "current s4 = Some p" "current s5 = Some p" using growing_fields(1) [OF r2(3)] m2(2) cur by (simp_all add: s5)
  have r3: "prog_run e code (c2, s4, ?T2) (c3, s5, ?T2(p := Going cexit))"
    by (rule run_svc [OF cur4(1) _ _ _ h3(1) cur4(2) h3(2)]) (simp_all add: fclose_def)
  have "sched_inv s5 q" "executing s5 b" using inv other(3) by (simp_all add: s5 sched_inv_files executing_def)
  from exit_step [OF this(1) cur4(2) other(1,2) this(2) _ h3(3), of "T(p := Going cexit)" e code] obtain c' s' T' where
    ex: "prog_step e code (c3, s5, T(p := Going cexit)) = Some (c', s', T')" "pst (pcb s' ! p) = TERMINATED" "dsk s' = dsk s5" "fs s' = fs s5"
      "\<forall>b. b \<noteq> p \<longrightarrow> T' b = T b" by auto
  have run: "prog_run e code (c, s, T) (c', s', T')" using r1 r2(1) [unfolded fun_upd_upd] r3 [unfolded fun_upd_upd] ex(1)
    by (meson rtranclp_trans rtranclp.rtrancl_into_rtrancl)
  note v = same_disk_views [OF ex(3)] same_disk_alloc [OF ex(3,4)]
  have "content ic s' = content ic s5" for ic using v(1) ex(3) by (simp add: content_def fbyte_def)
  then have "content (itab s' i) s' = ?B" using cl(5) v(7) by simp
  moreover have "root_inv s' (Suc n) (drop (taken (m * length data)) xs)" using cl(3) v by (simp add: root_inv_def)
  moreover have "named name i n ?A s s'" using cl(4) v ex(3) by (simp add: named_def)
  ultimately show ?thesis using run ex(2,5) by blast
qed

section \<open>Properties\<close>

lemma blank_line_length: "length blank_line = 33"
  by (simp add: blank_line_def)

lemma het_text_length: "length het_text = 1812"
  by (simp add: het_text_def str_def)

text \<open>An example: the kernel with the program \<open>P0\<close> on its disk, two processes, and the literals of the
  demo programs in memory.\<close>

definition desk_lit :: "byte list \<Rightarrow> u32" where
  "desk_lit xs = (if xs = str ''grid'' then 0x1000 else if xs = blank_line then 0x2000
     else if xs = str ''het.txt'' then 0x3000 else 0x4000)"

definition two_desk :: "unit kernel" where
  "two_desk = desk\<lparr>pcb := zero_pcb\<lparr>pst := EXECUTING\<rparr> # zero_pcb\<lparr>pid := 1, pst := EXECUTING\<rparr> # replicate 6 zero_pcb,
     rq := rq_of [0, 1], rq_size := 2,
     mem := mem_put 0x1000 (str ''grid'' @ [0]) (mem_put 0x2000 blank_line (mem_put 0x3000 (str ''het.txt'' @ [0])
       (mem_put 0x4000 het_text (\<lambda>_. 0))))\<rparr>"


lemma two_desk_lits:
  "cstr (mem two_desk) (desk_lit (str ''grid'')) = Some (str ''grid'')" "mem_read two_desk (desk_lit blank_line) 33 = blank_line"
  "cstr (mem two_desk) (desk_lit (str ''het.txt'')) = Some (str ''het.txt'')" "mem_read two_desk (desk_lit het_text) 1812 = het_text"
proof -
  have ne: "blank_line \<noteq> str ''grid''" "het_text \<noteq> str ''grid''" "het_text \<noteq> blank_line" "het_text \<noteq> str ''het.txt''"
    "str ''het.txt'' \<noteq> str ''grid''" "str ''het.txt'' \<noteq> blank_line" 
    by (auto dest!: arg_cong [of _ _ length] simp: blank_line_length het_text_length str_def)
  then have l: "desk_lit (str ''grid'') = 0x1000" "desk_lit blank_line = 0x2000" "desk_lit (str ''het.txt'') = 0x3000" "desk_lit het_text = 0x4000"
    by (auto simp: desk_lit_def)
  have ls: "length (str x) = length x" for x by (simp add: str_def)
  have z: "0 \<notin> set (str ''grid'')" "0 \<notin> set (str ''het.txt'')" by (simp_all add: str_def)
  note m = two_desk_def bytes_at_put bytes_at_past blank_line_length het_text_length ls
  show "cstr (mem two_desk) (desk_lit (str ''grid'')) = Some (str ''grid'')" "cstr (mem two_desk) (desk_lit (str ''het.txt'')) = Some (str ''het.txt'')"
    unfolding l using z by (intro cstr_bytes; simp add: m)+
  show "mem_read two_desk (desk_lit blank_line) 33 = blank_line" "mem_read two_desk (desk_lit het_text) 1812 = het_text"
    unfolding l by (simp_all add: mem_read_bytes m)
qed

lemma two_desk_sched: "sched_inv two_desk [0, 1]" "executing two_desk 1"
  by (auto simp: sched_inv_def ready_def running_def executing_def two_desk_def zero_pcb_def desk_def intro!: exI [of _ 0])

lemma two_desk_create:
  assumes "good_name name" and "\<not> matches name (bytes_dir (replicate 32 0))" and "\<not> matches name P0_dir"
  shows "can_create name 0 0 0 0 2 2 2046 (tl (tl wipe_order)) two_desk"
proof -
  have d: "dsk two_desk = dsk desk" "fs two_desk = fs desk" by (simp_all add: two_desk_def)
  note v = same_disk_views [OF d(1)] same_disk_alloc [OF d]
  have wo: "tl wipe_order = 2046 # tl (tl wipe_order)" using wipe_order_hd by (metis list.sel(3))
  have "root_inv two_desk 2 (2046 # tl (tl wipe_order))" using desk_finds(1) wo v by (simp add: root_inv_def)
  moreover have "entries two_desk (itab two_desk 0) 2 = [bytes_dir (replicate 32 0), P0_dir]"
    by (simp add: v desk_as_rooted rooted_itab rooted_entries)
  moreover have "find (\<lambda>k. ic_mode (itab desk k) = IFZERO) [0..<512] = Some 2"
    using rooted_itab rooted_itab(3) [of 2] by (intro find_upt_SomeI) (auto simp: desk_as_rooted less_2_cases_iff root_ic_def P0_ic_def)
  moreover have "tables_inv two_desk"
  proof -
    have "refs k (replicate 128 \<lparr>o_inptr = None, o_head = 0\<rparr>) = 0" for k by (simp add: refs_def)
    moreover have "fd (pcb two_desk ! p) = replicate 16 None" if "p < 8" for p
      using that by (auto simp: two_desk_def zero_pcb_def nth_Cons split: nat.split)
    ultimately have "tables_ok (pcb two_desk) (replicate 128 \<lparr>o_inptr = None, o_head = 0\<rparr>) (replicate 128 inode_local)"
      by (intro tables_okI) (simp_all add: inode_local_def two_desk_def)
    then show ?thesis by (simp add: tables_inv_def two_desk_def desk_def)
  qed
  moreover have "free_slots two_desk 0 0 0 0"
    using desk_finds(3-5) by (simp add: free_slots_def two_desk_def) (simp add: desk_def inode_local_def zero_pcb_def)
  ultimately show ?thesis using assms v(7) by (simp add: can_create_def two_desk_def desk_def inode_local_def)
qed

text \<open>C5. The program \<open>blanks\<close>, from its entry to its exit. Started in a directory without the name \<open>grid\<close>
  and with two blocks on the free list besides the first, it runs to its end: it then is
  terminated, the next process has the processor, and the file \<open>grid\<close> of the root directory
  has 32 lines of 32 underscores. No other file, directory entry or block has changed.\<close>

theorem blanks_creates_grid:
  fixes s :: "('h, 'a) kernel_scheme"
  assumes "can_create (str ''grid'') p f j k i n x xs s" and "sched_inv s q" and "b \<in> set q" "b \<noteq> p" "executing s b"
    and "cstr (mem s) (lit (str ''grid'')) = Some (str ''grid'')" and "mem_read s (lit blank_line) 33 = blank_line"
    and "2 \<le> length xs" and "3 \<le> length (gpr c)" and "T p = Going (blanks lit)"
  shows "\<exists>c' s' T'. prog_run e code (c, s, T) (c', s', T') \<and> pst (pcb s' ! p) = TERMINATED
    \<and> content (itab s' i) s' = concat (replicate 32 blank_line) \<and> root_inv s' (Suc n) (drop 2 xs)
    \<and> named (str ''grid'') i n (insert x (set xs)) s s' \<and> (\<forall>b. b \<noteq> p \<longrightarrow> T' b = T b)"
proof -
  have t: "taken (32 * length blank_line) = 2" by (simp add: blank_line_length taken_def grow_cost_def)
  have "f < 16" using assms(1) find_upt_Some by (fastforce simp: can_create_def free_slots_def)
  then have "(of_nat f :: u32) \<noteq> -1" by (rule fd_not_minus1)
  then show ?thesis
    using creates_file [OF assms(1-6), of "lit blank_line" blank_line 32 c T _ e code] assms(7-10) t
    by (simp add: blanks_def blank_line_length)
qed

theorem blanks_creates_grid_witness:
  "\<exists>c' s' T'. prog_run board_env (\<lambda>_. cexit) (zero_ctx, two_desk, \<lambda>_. Going (blanks desk_lit)) (c', s', T')
     \<and> pst (pcb s' ! 0) = TERMINATED \<and> content (itab s' 2) s' = concat (replicate 32 blank_line)"
proof -
  have "can_create (str ''grid'') 0 0 0 0 2 2 2046 (tl (tl wipe_order)) two_desk"
    by (intro two_desk_create) (simp_all add: str_def good_name_def matches_def P0_dir_def bytes_dir_def)
  from blanks_creates_grid [OF this two_desk_sched(1) _ _ two_desk_sched(2) two_desk_lits(1,2), where c = zero_ctx and T = "\<lambda>_. Going (blanks desk_lit)"
      and e = board_env and code = "\<lambda>_. cexit"] show ?thesis
    using length_wipe_order by (auto simp: zero_ctx_def)
qed

text \<open>The program \<open>het\<close>, from its entry to its exit: it leaves the file \<open>het.txt\<close> with 32 copies of its
  text, 57984 bytes, which take 114 blocks besides the first, one of them the index block.\<close>

lemma het_creates_text:
  fixes s :: "('h, 'a) kernel_scheme"
  assumes "can_create (str ''het.txt'') p f j k i n x xs s" and "sched_inv s q" and "b \<in> set q" "b \<noteq> p" "executing s b"
    and "cstr (mem s) (lit (str ''het.txt'')) = Some (str ''het.txt'')" and "mem_read s (lit het_text) 1812 = het_text"
    and "114 \<le> length xs" and "3 \<le> length (gpr c)" and "T p = Going (het lit)"
  shows "\<exists>c' s' T'. prog_run e code (c, s, T) (c', s', T') \<and> pst (pcb s' ! p) = TERMINATED
    \<and> content (itab s' i) s' = concat (replicate 32 het_text) \<and> root_inv s' (Suc n) (drop 114 xs)
    \<and> named (str ''het.txt'') i n (insert x (set xs)) s s' \<and> (\<forall>b. b \<noteq> p \<longrightarrow> T' b = T b)"
proof -
  have t: "taken (32 * length het_text) = 114" by (simp add: het_text_length taken_def grow_cost_def)
  show ?thesis
    using creates_file [OF assms(1-6), of "lit het_text" het_text 32 c T _ e code] assms(7-10) t
    by (simp add: het_def het_text_length)
qed

end
