(* ===== verification/Printing.thy ===== *)
theory Printing
  imports Runs
begin

text \<open>
  Programs that print: the loops of \<open>P0\<close>, \<open>P1\<close> and \<open>P2\<close> as the lines they put on the console.
\<close>

section \<open>Writing to the console\<close>

lemma mem_put_nth:
  assumes "i < length xs" and "length xs \<le> 2 ^ 32"
  shows "mem_put x xs m (x + of_nat i) = xs ! i"
proof -
  have "unat (of_nat i :: u32) = i" using assms by (intro unat_of_nat_u32) simp
  then show ?thesis using assms(1) by (simp add: mem_put_def)
qed

lemma bytes_at_inside:
  assumes "length (u @ w @ v) \<le> 2 ^ 32"
  shows "bytes_at (mem_put x (u @ w @ v) m) (x + of_nat (length u)) (length w) = w"
proof (rule nth_equalityI)
  fix i assume "i < length (bytes_at (mem_put x (u @ w @ v) m) (x + of_nat (length u)) (length w))"
  then have i: "i < length w" by (simp add: bytes_at_def)
  with mem_put_nth [of "length u + i" "u @ w @ v" x m] assms
  show "bytes_at (mem_put x (u @ w @ v) m) (x + of_nat (length u)) (length w) ! i = w ! i"
    by (simp add: bytes_at_def add.assoc nth_append)
qed (simp add: bytes_at_def)

lemma write_con_said: "write_con a n s = said (mem_read s a n) s"
  by (induction n) (simp_all add: write_con_def mem_read_def put_con_said)

lemma run_print:
  fixes s :: "('h, 'a) kernel_scheme"
  assumes "current s = Some p" and "T p = Going (seq (write_u STDIO a n) k)" and "3 \<le> length (gpr c)"
    and "mem_read s a (length bs) = bs" and "n = of_nat (length bs)" "length bs < 2 ^ 31"
  shows "\<exists>c'. length (gpr c') = length (gpr c) \<and> prog_run e code (c, s, T) (c', said bs s, T(p := Going (k n)))"
proof -
  have "nat (sint n) = length bs" using assms(5,6) nat_sint_small by simp
  then have w: "write_con a (nat (sint n)) s = said bs s" using assms(4) by (simp add: write_con_said)
  from set_r0_load [of "[STDIO, a, n]" c n] assms(3) obtain c' where
    c': "set_r0 n (load_args [STDIO, a, n] c) = Some c'" "arg 0 c' = Some n" "length (gpr c') = length (gpr c)" by fastforce
  have "arg 0 (load_args [STDIO, a, n] c) = Some STDIO" "arg 1 (load_args [STDIO, a, n] c) = Some a" "arg 2 (load_args [STDIO, a, n] c) = Some n"
    using assms(3) by (simp_all add: arg_def load_args_simps)
  then have "kernel_handler_svc e 1 (load_args [STDIO, a, n] c) s = Some (c', said bs s)"
    using c'(1) w by (simp add: kernel_handler_svc_def svc_write_def)
  moreover have "current (said bs s) = Some p" using assms(1) by (simp add: said_def)
  ultimately have "prog_run e code (c, s, T) (c', said bs s, T(p := Going (k n)))"
    using assms(2) by (intro run_svc [OF assms(1) _ _ _ _ _ c'(2), of T 1 "[STDIO, a, n]" k]) (simp_all add: write_u_def)
  then show ?thesis using c'(3) by blast
qed

section \<open>Fragments that print\<close>

text \<open>The literals \<open>L\<close> are in memory, and the buffer of \<open>write_int\<close> is elsewhere.\<close>

definition has_lits :: "(byte list \<Rightarrow> u32) \<Rightarrow> byte list set \<Rightarrow> (u32 \<Rightarrow> byte) \<Rightarrow> bool" where
  "has_lits lit L M \<longleftrightarrow> (\<forall>l \<in> L. bytes_at M (lit l) (length l) = l)"

definition lits_apart :: "(byte list \<Rightarrow> u32) \<Rightarrow> byte list set \<Rightarrow> u32 \<Rightarrow> bool" where
  "lits_apart lit L buf \<longleftrightarrow> (\<forall>l \<in> L. length l < 2 ^ 31 \<and> (\<forall>i<length l. 12 \<le> unat (lit l + of_nat i - buf)))"

definition same_outside :: "u32 \<Rightarrow> (u32 \<Rightarrow> byte) \<Rightarrow> (u32 \<Rightarrow> byte) \<Rightarrow> bool" where
  "same_outside buf M M' \<longleftrightarrow> (\<forall>a. 12 \<le> unat (a - buf) \<longrightarrow> M' a = M a)"

lemma has_lits_kept: "has_lits lit L M \<Longrightarrow> lits_apart lit L buf \<Longrightarrow> same_outside buf M M' \<Longrightarrow> has_lits lit L M'"
  unfolding has_lits_def
proof
  fix l assume l: "\<forall>l \<in> L. bytes_at M (lit l) (length l) = l" "l \<in> L" and a: "lits_apart lit L buf" and o: "same_outside buf M M'"
  have "bytes_at M' (lit l) (length l) = bytes_at M (lit l) (length l)" using l(2) a o by (auto simp: bytes_at_def lits_apart_def same_outside_def)
  then show "bytes_at M' (lit l) (length l) = l" using l by simp
qed

text \<open>The kernel with another memory and another output.\<close>

definition shown :: "('h, 'a) kernel_scheme \<Rightarrow> (u32 \<Rightarrow> byte) \<Rightarrow> byte list \<Rightarrow> ('h, 'a) kernel_scheme" where
  "shown s M xs = s\<lparr>mem := M, uart0 := (uart0 s)\<lparr>tx := xs\<rparr>\<rparr>"

lemma shown_simps [simp]: "mem (shown s M xs) = M" "current (shown s M xs) = current s" "said bs (shown s M xs) = shown s M (xs @ bs)"
  "mem_write a ys (shown s M xs) = shown s (mem_put a ys M) xs" "tx (uart0 (shown s M xs)) = xs"
  by (simp_all add: shown_def said_def mem_write_put)

definition prints :: "'h env \<Rightarrow> (u32 \<Rightarrow> unit prog) \<Rightarrow> nat \<Rightarrow> ('h, 'a) kernel_scheme \<Rightarrow> (byte list \<Rightarrow> u32) \<Rightarrow> byte list set \<Rightarrow> u32 \<Rightarrow> unit prog \<Rightarrow> byte list \<Rightarrow> bool" where
  "prints e code p s lit L buf t bs \<longleftrightarrow> (\<forall>c M xs T k. 3 \<le> length (gpr c) \<and> has_lits lit L M \<and> T p = Going (seq t k) \<longrightarrow>
     (\<exists>c' M'. prog_run e code (c, shown s M xs, T) (c', shown s M' (xs @ bs), T(p := Going (k ())))
        \<and> length (gpr c') = length (gpr c) \<and> same_outside buf M M'))"

lemma printsD:
  assumes "prints e code p s lit L buf t bs" and "3 \<le> length (gpr c)" "has_lits lit L M" "T p = Going (seq t k)"
  obtains c' M' where "prog_run e code (c, shown s M xs, T) (c', shown s M' (xs @ bs), T(p := Going (k ())))"
    "length (gpr c') = length (gpr c)" "same_outside buf M M'"
  using assms unfolding prints_def by blast

lemma prints_nothing: "prints e code p s lit L buf (Ret ()) []"
proof -
  have "T(p := Going t) = T" if "T p = Going t" for T :: "nat \<Rightarrow> thread" and t using that by auto
  then show ?thesis unfolding prints_def same_outside_def by fastforce
qed

lemma prints_then:
  assumes "prints e code p s lit L buf t bs" and "prints e code p s lit L buf u cs" and "lits_apart lit L buf"
  shows "prints e code p s lit L buf (seq t (\<lambda>_. u)) (bs @ cs)"
  unfolding prints_def
proof (intro allI impI, elim conjE)
  fix c :: ctx_t and M :: "u32 \<Rightarrow> byte" and xs T k assume g: "3 \<le> length (gpr c)" and l: "has_lits lit L M" and T: "T p = Going (seq (seq t (\<lambda>_. u)) k)"
  from T have "T p = Going (seq t (\<lambda>_. seq u k))" by (simp add: seq_assoc)
  then obtain c1 M1 where 1: "prog_run e code (c, shown s M xs, T) (c1, shown s M1 (xs @ bs), T(p := Going (seq u k)))"
    "length (gpr c1) = length (gpr c)" "same_outside buf M M1" by (rule printsD [OF assms(1) g l])
  have "3 \<le> length (gpr c1)" using g 1(2) by simp
  then obtain c2 M2 where 2: "prog_run e code (c1, shown s M1 (xs @ bs), T(p := Going (seq u k))) (c2, shown s M2 ((xs @ bs) @ cs), (T(p := Going (seq u k)))(p := Going (k ())))"
    "length (gpr c2) = length (gpr c1)" "same_outside buf M1 M2"
    by (rule printsD [where T = "T(p := Going (seq u k))" and k = k and xs = "xs @ bs", OF assms(2) _ has_lits_kept [OF l assms(3) 1(3)]]) simp
  show "\<exists>c' M'. prog_run e code (c, shown s M xs, T) (c', shown s M' (xs @ bs @ cs), T(p := Going (k ())))
      \<and> length (gpr c') = length (gpr c) \<and> same_outside buf M M'"
    using rtranclp_trans [OF 1(1) 2(1)] 1(2,3) 2(2,3) by (intro exI [of _ c2] exI [of _ M2]) (simp add: same_outside_def)
qed

lemma prints_for:
  assumes "\<And>i. i \<in> set is \<Longrightarrow> prints e code p s lit L buf (f i) (g i)" and "lits_apart lit L buf"
  shows "prints e code p s lit L buf (for_prog is f) (concat (map g is))"
  using assms(1)
proof (induction "is")
  case (Cons i "is")
  have "prints e code p s lit L buf (for_prog is f) (concat (map g is))" by (rule Cons.IH) (simp add: Cons.prems)
  from prints_then [OF _ this assms(2), of "f i" "g i"] Cons.prems show ?case by simp
qed (simp add: prints_nothing)

lemma prints_literal:
  assumes "current s = Some p" and "l \<in> L" and "lits_apart lit L buf" and "n = of_nat (length l)"
  shows "prints e code p s lit L buf (seq (write_u STDIO (lit l) n) (\<lambda>_. Ret ())) l"
  unfolding prints_def
proof (intro allI impI, elim conjE)
  fix c :: ctx_t and M :: "u32 \<Rightarrow> byte" and xs T k assume g: "3 \<le> length (gpr c)" and l: "has_lits lit L M" and T: "T p = Going (seq (seq (write_u STDIO (lit l) n) (\<lambda>_. Ret ())) k)"
  have "mem_read (shown s M xs) (lit l) (length l) = l" using l assms(2) by (simp add: mem_read_bytes has_lits_def)
  moreover have "length l < 2 ^ 31" using assms(2,3) by (simp add: lits_apart_def)
  ultimately obtain c' where "length (gpr c') = length (gpr c)" "prog_run e code (c, shown s M xs, T) (c', said l (shown s M xs), T(p := Going (k ())))"
    using run_print [of "shown s M xs" p T "lit l" n "\<lambda>_. k ()" c l e code] assms(1,4) T g by (auto simp: seq_assoc)
  then show "\<exists>c' M'. prog_run e code (c, shown s M xs, T) (c', shown s M' (xs @ l), T(p := Going (k ()))) \<and> length (gpr c') = length (gpr c) \<and> same_outside buf M M'"
    by (intro exI [of _ c'] exI [of _ M]) (simp add: same_outside_def)
qed

lemma nul_at_numeral:
  assumes "length (numeral_of v) \<le> 11"
  shows "nul_at (numeral_of v @ 0 # ys) [0..<12] = Some (Some (length (numeral_of v)))"
proof -
  let ?n = "length (numeral_of v)"
  have "[0..<12] = [0..<?n] @ ?n # [Suc ?n..<12]" using assms by (simp add: upt_split [of 0 ?n 12] upt_conv_Cons [of ?n 12])
  then show ?thesis using nul_at_prefix [OF numeral_no_nul, of "[]" v ys "[Suc ?n..<12]"] by simp
qed

lemma prints_int:
  assumes cur: "current s = Some p" and v: "- (2 ^ 31) < v" "v < 2 ^ 31"
  shows "prints e code p s lit L buf (write_int STDIO buf v) (numeral_of v)"
  unfolding prints_def
proof (intro allI impI, elim conjE)
  fix c :: ctx_t and M :: "u32 \<Rightarrow> byte" and xs T k assume g: "3 \<le> length (gpr c)" and T: "T p = Going (seq (write_int STDIO buf v) k)"
  let ?n = "length (numeral_of v)" and ?old = "map (\<lambda>i. M (buf + of_nat i)) [0..<12]"
  have n: "?n \<le> 11" using v by (intro numeral_length) simp_all
  define b where "b = numeral_of v @ 0 # drop (Suc ?n) ?old"
  have lb: "length b = 12" using n by (simp add: b_def)
  have str: "int2str v ?old 10 = Some b" using int2str_numeral [OF v, of ?old] n by (simp add: b_def del: upt_rec_numeral)
  have nul: "nul_at b [0..<12] = Some (Some ?n)" unfolding b_def by (rule nul_at_numeral [OF n])
  let ?M = "mem_put buf b M" and ?w = "seq (write_u STDIO buf (of_nat ?n)) (\<lambda>_. k ())"
  let ?T1 = "T(p := Going (Do (Store buf b) (\<lambda>_ _. ?w)))" and ?T2 = "T(p := Going ?w)"
  have 1: "prog_step e code (c, shown s M xs, T) = Some (c, shown s M xs, ?T1)"
    using cur T str nul by (simp add: prog_step_def write_int_def seq_assoc del: upt_rec_numeral)
  have 2: "prog_step e code (c, shown s M xs, ?T1) = Some (c, shown s ?M xs, ?T2)" using cur by (simp add: prog_step_def)
  have "mem_read (shown s ?M xs) buf ?n = take ?n (bytes_at ?M buf 12)" using n by (simp add: mem_read_bytes bytes_at_def take_map)
  also have "\<dots> = numeral_of v" using bytes_at_put [of 12 b buf M] lb by (simp add: b_def)
  finally have "mem_read (shown s ?M xs) buf ?n = numeral_of v" .
  with run_print [of "shown s ?M xs" p ?T2 buf "of_nat ?n" "\<lambda>_. k ()" c "numeral_of v" e code] cur g n obtain c' where
    3: "length (gpr c') = length (gpr c)" "prog_run e code (c, shown s ?M xs, ?T2) (c', shown s ?M (xs @ numeral_of v), T(p := Going (k ())))" by auto
  have "same_outside buf M ?M" using lb by (simp add: same_outside_def mem_put_def)
  with 3(1) run_step [OF 1 run_step [OF 2 3(2)]]
  show "\<exists>c' M'. prog_run e code (c, shown s M xs, T) (c', shown s M' (xs @ numeral_of v), T(p := Going (k ())))
      \<and> length (gpr c') = length (gpr c) \<and> same_outside buf M M'" by blast
qed

lemma prints_literal_then:
  assumes "current s = Some p" and "l \<in> L" and "lits_apart lit L buf" and "n = of_nat (length l)" and "prints e code p s lit L buf u bs"
  shows "prints e code p s lit L buf (seq (write_u STDIO (lit l) n) (\<lambda>_. u)) (l @ bs)"
  using prints_then [OF prints_literal [OF assms(1-4)] assms(5,3)] by (simp add: seq_assoc)

lemma prints_int_then:
  assumes "current s = Some p" and "- (2 ^ 31) < v" "v < 2 ^ 31" and "lits_apart lit L buf" and "prints e code p s lit L buf u bs"
  shows "prints e code p s lit L buf (seq (write_int STDIO buf v) (\<lambda>_. u)) (numeral_of v @ bs)"
  by (rule prints_then [OF prints_int [OF assms(1-3)] assms(5,4)])

section \<open>The lines of the programs\<close>

lemma endless_for:
  "seq (loop (\<lambda>_. seq (for_prog is f) (\<lambda>_. Ret (Inl () :: unit + unit))) ()) (\<lambda>_. u) =
   seq (for_prog is f) (\<lambda>_. Do Look (\<lambda>_ _. seq (loop (\<lambda>_. seq (for_prog is f) (\<lambda>_. Ret (Inl () :: unit + unit))) ()) (\<lambda>_. u)))"
proof -
  let ?R = "\<lambda>_ :: unit. seq (for_prog is f) (\<lambda>_. Ret (Inl ())) :: (unit + unit) prog"
  have "loop ?R () = seq (for_prog is f) (\<lambda>_. loop_from ?R (Ret (Inl ())))" unfolding loop_def by (rule loop_from_seq)
  also have "loop_from ?R (Ret (Inl ())) = Do Look (\<lambda>_ _. loop ?R ())" unfolding loop_def by (rule loop_from_again)
  finally have "seq (loop ?R ()) (\<lambda>_. u) = seq (seq (for_prog is f) (\<lambda>_. Do Look (\<lambda>_ _. loop ?R ()))) (\<lambda>_. u)" by (rule arg_cong)
  also have "\<dots> = seq (for_prog is f) (\<lambda>_. Do Look (\<lambda>_ _. seq (loop ?R ()) (\<lambda>_. u)))" by (simp add: seq_assoc)
  finally show ?thesis .
qed

definition P0_lits :: "byte list set" where
  "P0_lits = {str ''is_prime( '', str '' ) = '', [10]}"

definition P0_line :: "nat \<Rightarrow> byte list" where
  "P0_line x = str ''is_prime( '' @ numeral_of (int x) @ str '' ) = '' @ (if prime_num x then [49] else [48]) @ [10]"

lemma P0_loop: "P0 lit buf = seq (for_prog [2 ^ 8..<2 ^ 24] (P0_body lit buf)) (\<lambda>_. Do Look (\<lambda>_ _. P0 lit buf))"
  unfolding P0_def by (rule endless_for)

lemma P0_body_prints:
  assumes "current s = Some p" and "lits_apart lit P0_lits buf" and "x < 2 ^ 24"
  shows "prints e code p s lit P0_lits buf (P0_body lit buf x) (P0_line x)"
proof -
  have ux: "unat (of_nat x :: u32) = x" using assms(3) by (intro unat_of_nat_u32) simp
  have pr: "is_prime (of_nat x) = Some (if prime_num x then 1 else 0)" using is_prime_correct [of "of_nat x"] ux assms(3) by simp
  have d: "numeral_of (sint (if prime_num x then 1 else 0 :: u32)) = (if prime_num x then [49] else [48])"
    by (simp add: numeral_of_def dec.simps)
  have l: "str ''is_prime( '' \<in> P0_lits" "str '' ) = '' \<in> P0_lits" "[10] \<in> P0_lits" by (simp_all add: P0_lits_def)
  have n: "(10 :: u32) = of_nat (length (str ''is_prime( ''))" "(5 :: u32) = of_nat (length (str '' ) = ''))" "(1 :: u32) = of_nat (length [10 :: byte])"
    by (simp_all add: str_def)
  note T = prints_literal_then [OF assms(1) _ assms(2)] and I = prints_int_then [OF assms(1) _ _ assms(2)]
  have "prints e code p s lit P0_lits buf (P0_body lit buf x) (str ''is_prime( '' @ numeral_of (int x) @ str '' ) = '' @
      numeral_of (sint (if prime_num x then 1 else 0 :: u32)) @ [10] @ [])"
    unfolding P0_body_def pr option.case
    by (intro T [OF l(1) n(1)] I T [OF l(2) n(2)] T [OF l(3) n(3)] prints_nothing) (use assms(3) in simp_all)
  then show ?thesis by (simp add: P0_line_def d)
qed

text \<open>The other two programs: their literals and lines.\<close>

definition P1_lits :: "byte list set" where
  "P1_lits = {str ''gcd( '', str '', '', str '' ) = '', [10]}"

definition P1_line :: "nat \<Rightarrow> nat \<Rightarrow> byte list" where
  "P1_line x y = str ''gcd( '' @ numeral_of (int x) @ str '', '' @ numeral_of (int y) @ str '' ) = '' @ numeral_of (int (gcd x y)) @ [10]"

definition P2_lits :: "byte list set" where
  "P2_lits = {str ''weight( '', str '' ) = '', [10]}"

definition P2_line :: "nat \<Rightarrow> byte list" where
  "P2_line x = str ''weight( '' @ numeral_of (int x) @ str '' ) = '' @ numeral_of (int (card {i. i < 32 \<and> bit x i})) @ [10]"

lemma sint_small_nat: "n < 2 ^ 31 \<Longrightarrow> sint (of_nat n :: u32) = int n"
  using unat_of_nat_u32 [of n] by (simp add: sint_of_unat)

lemma P1_body_prints:
  assumes "current s = Some p" and "lits_apart lit P1_lits buf" and "0 < x" "x < 2 ^ 24" "0 < y" "y < 2 ^ 24"
  shows "prints e code p s lit P1_lits buf (P1_body lit buf x y) (P1_line x y)"
proof -
  have u: "unat (of_nat x :: u32) = x" "unat (of_nat y :: u32) = y" using assms(4,6) by (simp_all add: unat_of_nat_u32)
  then have "0 < (of_nat x :: u32)" "0 < (of_nat y :: u32)" using assms(3,5) by (simp_all add: word_less_nat_alt)
  then have g: "gcd_sub (of_nat x) (of_nat y) = Some (of_nat (gcd x y))" using gcd_sub_gcd u by simp
  have "gcd x y \<le> x" using assms(3) by (intro gcd_le1_nat) simp
  then have r: "sint (of_nat (gcd x y) :: u32) = int (gcd x y)" using assms(4) by (intro sint_small_nat) simp
  have l: "str ''gcd( '' \<in> P1_lits" "str '', '' \<in> P1_lits" "str '' ) = '' \<in> P1_lits" "[10] \<in> P1_lits" by (simp_all add: P1_lits_def)
  have n: "(5 :: u32) = of_nat (length (str ''gcd( ''))" "(2 :: u32) = of_nat (length (str '', ''))" "(5 :: u32) = of_nat (length (str '' ) = ''))"
    "(1 :: u32) = of_nat (length [10 :: byte])" by (simp_all add: str_def)
  note T = prints_literal_then [OF assms(1) _ assms(2)] and I = prints_int_then [OF assms(1) _ _ assms(2)]
  have "prints e code p s lit P1_lits buf (P1_body lit buf x y) (str ''gcd( '' @ numeral_of (int x) @ str '', '' @ numeral_of (int y) @
      str '' ) = '' @ numeral_of (int (gcd x y)) @ [10] @ [])"
    unfolding P1_body_def g option.case r
    by (intro T [OF l(1) n(1)] I T [OF l(2) n(2)] T [OF l(3) n(3)] T [OF l(4) n(4)] prints_nothing) (use assms(4,6) \<open>gcd x y \<le> x\<close> in simp_all)
  then show ?thesis by (simp add: P1_line_def)
qed

lemma P2_body_prints:
  assumes "current s = Some p" and "lits_apart lit P2_lits buf" and "x < 2 ^ 24"
  shows "prints e code p s lit P2_lits buf (P2_body lit buf x) (P2_line x)"
proof -
  let ?w = "card {i. i < 32 \<and> bit x i}"
  have ux: "unat (of_nat x :: u32) = x" using assms(3) by (intro unat_of_nat_u32) simp
  have "bit (of_nat x :: u32) i = bit x i" if "i < 32" for i
    using bit_unsigned_iff [of "of_nat x :: u32" i, where ?'a = nat] that ux by simp
  then have "{i. i < 32 \<and> bit (of_nat x :: u32) i} = {i. i < 32 \<and> bit x i}" by blast
  then have w: "weight (of_nat x) = of_nat ?w" by (simp only: weight_count)
  have "?w \<le> card {..<32 :: nat}" by (intro card_mono) auto
  then have wl: "?w \<le> 32" by simp
  then have r: "sint (of_nat ?w :: u32) = int ?w" by (intro sint_small_nat) simp
  have l: "str ''weight( '' \<in> P2_lits" "str '' ) = '' \<in> P2_lits" "[10] \<in> P2_lits" by (simp_all add: P2_lits_def)
  have n: "(8 :: u32) = of_nat (length (str ''weight( ''))" "(5 :: u32) = of_nat (length (str '' ) = ''))" "(1 :: u32) = of_nat (length [10 :: byte])"
    by (simp_all add: str_def)
  note T = prints_literal_then [OF assms(1) _ assms(2)] and I = prints_int_then [OF assms(1) _ _ assms(2)]
  have "prints e code p s lit P2_lits buf (P2_body lit buf x) (str ''weight( '' @ numeral_of (int x) @ str '' ) = '' @ numeral_of (int ?w) @ [10] @ [])"
    unfolding P2_body_def Let_def w r
    by (intro T [OF l(1) n(1)] I T [OF l(2) n(2)] T [OF l(3) n(3)] prints_nothing) (use assms(3) wl in simp_all)
  then show ?thesis by (simp add: P2_line_def)
qed

section \<open>What the programs have printed\<close>

lemma shown_self: "shown s (mem s) (tx (uart0 s)) = s"
  by (simp add: shown_def)

lemma loop_prints:
  assumes "T p = Going t" and "t = seq (for_prog zs f) k" and "zs = is @ js" and "3 \<le> length (gpr c)"
    and "lits_apart lit L buf" "has_lits lit L (mem s)" and "\<And>i. i \<in> set is \<Longrightarrow> prints e code p s lit L buf (f i) (g i)"
  shows "\<exists>c' s'. prog_run e code (c, s, T) (c', s', T(p := Going (seq (for_prog js f) k)))
    \<and> tx (uart0 s') = tx (uart0 s) @ concat (map g is) \<and> same_outside buf (mem s) (mem s')"
proof -
  have P: "prints e code p s lit L buf (for_prog is f) (concat (map g is))" by (rule prints_for) (use assms(5,7) in blast)+
  have "T p = Going (seq (for_prog is f) (\<lambda>_. seq (for_prog js f) k))" using assms(1-3) by (simp add: seq_for_append seq_assoc)
  then obtain c' M' where "prog_run e code (c, shown s (mem s) (tx (uart0 s)), T)
      (c', shown s M' (tx (uart0 s) @ concat (map g is)), T(p := Going (seq (for_prog js f) k)))" "length (gpr c') = length (gpr c)" "same_outside buf (mem s) M'"
    by (rule printsD [OF P assms(4,6)])
  then show ?thesis by (intro exI [of _ c'] exI [of _ "shown s M' (tx (uart0 s) @ concat (map g is))"]) (simp add: shown_self)
qed

text \<open>C9. What \<open>P0\<close> has printed when its loop reaches \<open>n\<close>, and it does: one line for every number from 256 up to
  \<open>n\<close>, each with 1 exactly when the number is a prime. It writes no memory but its twelve-byte buffer and
  is at the head of its loop with the rest of the numbers before it.\<close>

theorem P0_prints:
  assumes "T p = Going (P0 lit buf)" and "current s = Some p" "3 \<le> length (gpr c)"
    and "lits_apart lit P0_lits buf" "has_lits lit P0_lits (mem s)" and "2 ^ 8 \<le> n" "n \<le> 2 ^ 24"
  shows "\<exists>c' s'. prog_run e code (c, s, T) (c', s', T(p := Going (seq (for_prog [n..<2 ^ 24] (P0_body lit buf)) (\<lambda>_. Do Look (\<lambda>_ _. P0 lit buf)))))
    \<and> tx (uart0 s') = tx (uart0 s) @ concat (map P0_line [2 ^ 8..<n]) \<and> same_outside buf (mem s) (mem s')"
proof (rule loop_prints [where T = T and p = p, OF assms(1) P0_loop upt_split [OF assms(6,7)] assms(3-5)])
  show "prints e code p s lit P0_lits buf (P0_body lit buf i) (P0_line i)" if "i \<in> set [2 ^ 8..<n]" for i
    by (rule P0_body_prints [OF assms(2,4)]) (use that assms(7) in simp)
qed

lemma prime_257: "prime_num 257"
proof (rule prime_num_small_divisors)
  fix d :: nat assume d: "1 < d" "d * d \<le> 257"
  have "d < 17" using d(2) mult_le_mono [of 17 d 17 d] by linarith
  then have "d \<in> set [2..<17]" using d(1) by (simp del: upt_rec_numeral)
  moreover have "\<forall>d \<in> set [2..<17]. \<not> d dvd (257 :: nat)" by simp
  ultimately show "\<not> d dvd 257" by (rule bspec [rotated])
qed simp

lemma not_prime_256: "\<not> prime_num 256"
  unfolding prime_num_def by (rule notI, drule conjunct2, drule spec [of _ 2]) simp

lemma numeral_of_256: "numeral_of 256 = str ''256''" "numeral_of 257 = str ''257''"
  by (simp_all add: numeral_of_def dec.simps str_def)

text \<open>The literals one after the other at \<open>0x2000\<close>, the buffer at \<open>0x1000\<close>.\<close>

definition P0_lit :: "byte list \<Rightarrow> u32" where
  "P0_lit l = (if length l = 10 then 0x2000 else if length l = 5 then 0x200A else 0x200F)"

definition P0_desk :: "unit kernel" where
  "P0_desk = desk\<lparr>mem := mem_put 0x2000 (str ''is_prime( '' @ str '' ) = '' @ [10]) (\<lambda>_. 0), uart0 := \<lparr>tx = [], rx = [], host = ()\<rparr>\<rparr>"

theorem P0_prints_witness:
  "\<exists>c' s' T'. prog_run board_env (\<lambda>_. cexit) (zero_ctx, P0_desk, \<lambda>_. Going (P0 P0_lit 0x1000)) (c', s', T')
    \<and> tx (uart0 s') = str ''is_prime( 256 ) = 0'' @ [10] @ str ''is_prime( 257 ) = 1'' @ [10]"
proof -
  have l: "length (str ''is_prime( '') = 10" "length (str '' ) = '') = 5" by (simp_all add: str_def)
  have "has_lits P0_lit P0_lits (mem P0_desk)"
    using bytes_at_inside [of "[]" "str ''is_prime( ''" "str '' ) = '' @ [10]" "0x2000" "\<lambda>_. 0"]
      bytes_at_inside [of "str ''is_prime( ''" "str '' ) = ''" "[10]" "0x2000" "\<lambda>_. 0"]
      bytes_at_inside [of "str ''is_prime( '' @ str '' ) = ''" "[10]" "[]" "0x2000" "\<lambda>_. 0"] l
    by (simp add: has_lits_def P0_lits_def P0_lit_def P0_desk_def)
  moreover have "12 \<le> unat (0x1000 + of_nat i :: u32)" "12 \<le> unat (0x100A + of_nat i :: u32)" if "i < 2 ^ 16" for i :: nat
    using that unat_of_nat_u32 [of "0x1000 + i"] unat_of_nat_u32 [of "0x100A + i"] by simp_all
  then have "lits_apart P0_lit P0_lits 0x1000" by (auto simp: lits_apart_def P0_lits_def P0_lit_def l)
  moreover have "concat (map P0_line [2 ^ 8..<258]) = str ''is_prime( 256 ) = 0'' @ [10] @ str ''is_prime( 257 ) = 1'' @ [10]"
    by (simp add: P0_line_def prime_257 not_prime_256 numeral_of_256) (simp add: str_def)
  ultimately show ?thesis
    using P0_prints [where T = "\<lambda>_. Going (P0 P0_lit 0x1000)" and p = 0 and s = P0_desk and c = zero_ctx and n = 258
        and lit = P0_lit and buf = "0x1000" and e = board_env and code = "\<lambda>_. cexit"]
    by (fastforce simp: P0_desk_def desk_def zero_ctx_def simp del: upt_rec_numeral)
qed

lemma P1_loop:
  "P1 lit buf = seq (for_prog [2 ^ 8..<2 ^ 24] (\<lambda>x. for_prog [2 ^ 8..<2 ^ 24] (P1_body lit buf x))) (\<lambda>_. Do Look (\<lambda>_ _. P1 lit buf))"
  unfolding P1_def by (rule endless_for)

lemma P1_has_printed:
  assumes "T p = Going (P1 lit buf)" and "current s = Some p" "3 \<le> length (gpr c)"
    and "lits_apart lit P1_lits buf" "has_lits lit P1_lits (mem s)" and "2 ^ 8 \<le> n" "n \<le> 2 ^ 24"
  shows "\<exists>c' s'. prog_run e code (c, s, T)
      (c', s', T(p := Going (seq (for_prog [n..<2 ^ 24] (\<lambda>x. for_prog [2 ^ 8..<2 ^ 24] (P1_body lit buf x))) (\<lambda>_. Do Look (\<lambda>_ _. P1 lit buf)))))
    \<and> tx (uart0 s') = tx (uart0 s) @ concat (map (\<lambda>x. concat (map (P1_line x) [2 ^ 8..<2 ^ 24])) [2 ^ 8..<n]) \<and> same_outside buf (mem s) (mem s')"
proof (rule loop_prints [where T = T and p = p, OF assms(1) P1_loop upt_split [OF assms(6,7)] assms(3-5)])
  show "prints e code p s lit P1_lits buf (for_prog [2 ^ 8..<2 ^ 24] (P1_body lit buf x)) (concat (map (P1_line x) [2 ^ 8..<2 ^ 24]))"
    if x: "x \<in> set [2 ^ 8..<n]" for x
  proof (rule prints_for [OF _ assms(4)], rule P1_body_prints [OF assms(2,4)])
    show "0 < x" "x < 2 ^ 24" using x assms(7) by simp_all
    fix y :: nat assume "y \<in> set [2 ^ 8..<2 ^ 24]"
    then have y: "2 ^ 8 \<le> y \<and> y < 2 ^ 24" by (simp only: set_upt atLeastLessThan_iff)
    show "0 < y" by (rule less_le_trans [OF _ conjunct1 [OF y]]) simp
    show "y < 2 ^ 24" by (rule conjunct2 [OF y])
  qed
qed

lemma P2_loop: "P2 lit buf = seq (for_prog [2 ^ 8..<2 ^ 24] (P2_body lit buf)) (\<lambda>_. Do Look (\<lambda>_ _. P2 lit buf))"
  unfolding P2_def by (rule endless_for)

lemma P2_has_printed:
  assumes "T p = Going (P2 lit buf)" and "current s = Some p" "3 \<le> length (gpr c)"
    and "lits_apart lit P2_lits buf" "has_lits lit P2_lits (mem s)" and "2 ^ 8 \<le> n" "n \<le> 2 ^ 24"
  shows "\<exists>c' s'. prog_run e code (c, s, T) (c', s', T(p := Going (seq (for_prog [n..<2 ^ 24] (P2_body lit buf)) (\<lambda>_. Do Look (\<lambda>_ _. P2 lit buf)))))
    \<and> tx (uart0 s') = tx (uart0 s) @ concat (map P2_line [2 ^ 8..<n]) \<and> same_outside buf (mem s) (mem s')"
proof (rule loop_prints [where T = T and p = p, OF assms(1) P2_loop upt_split [OF assms(6,7)] assms(3-5)])
  show "prints e code p s lit P2_lits buf (P2_body lit buf i) (P2_line i)" if "i \<in> set [2 ^ 8..<n]" for i
    by (rule P2_body_prints [OF assms(2,4)]) (use that assms(7) in simp)
qed

end
