(* ===== verification/Lines.thy ===== *)
theory Lines
  imports Shell Printing
begin

text \<open>
  Lines typed at the shell: from the prompt to the supervisor call a command makes.
\<close>

section \<open>Words in memory\<close>

lemma bytes_at_Suc: "bytes_at m a (Suc n) = m a # bytes_at m (a + 1) n"
  by (simp add: bytes_at_def upt_conv_Cons map_Suc_upt [symmetric] o_def add.assoc del: upt_Suc map_Suc_upt)

lemma mem_put_change:
  assumes "length (u @ a # v) \<le> 2 ^ 32"
  shows "mem_put (x + of_nat (length u)) [b] (mem_put x (u @ a # v) m) = mem_put x (u @ b # v) m"
proof
  fix y
  have u: "unat (of_nat (length u) :: u32) = length u" using assms by (intro unat_of_nat_u32) simp
  show "mem_put (x + of_nat (length u)) [b] (mem_put x (u @ a # v) m) y = mem_put x (u @ b # v) m y"
  proof (cases "y = x + of_nat (length u)")
    case True
    then show ?thesis using u by (simp add: mem_put_def nth_append)
  next
    case False
    have "unat (y - x) \<noteq> unat (of_nat (length u) :: u32)" using False by (auto simp: word_unat_eq_iff [symmetric] diff_eq_eq add.commute)
    then have "unat (y - x) \<noteq> length u" using u by simp
    moreover have "unat (y - (x + of_nat (length u))) \<noteq> 0" using False by (simp add: unat_eq_0)
    ultimately show ?thesis by (auto simp: mem_put_def nth_append nth_Cons split: nat.split)
  qed
qed

section \<open>Tokens\<close>

lemma skip_seps_here: "m a \<notin> set seps \<Longrightarrow> skip_seps m seps a = Some a"
  by (subst skip_seps.simps) simp

lemma token_end_at:
  assumes "bytes_at m a (Suc (length w)) = w @ [b]" and "\<forall>z \<in> set w. z \<noteq> 0 \<and> z \<notin> set seps" and "b \<in> set seps"
  shows "token_end m seps a = Some (a + of_nat (length w))"
  using assms
proof (induction w arbitrary: a)
  case Nil
  then show ?case by (subst token_end.simps) (simp add: bytes_at_def)
next
  case (Cons z w)
  then have "m a = z" "bytes_at m (a + 1) (Suc (length w)) = w @ [b]" by (simp_all add: bytes_at_Suc)
  with Cons.IH Cons.prems(2,3) show ?case by (subst token_end.simps) (simp add: add.assoc)
qed

lemma strtok_word:
  assumes "bytes_at m a (Suc (length w)) = w @ [b]" and "\<forall>z \<in> set w. z \<noteq> 0 \<and> z \<notin> set seps" and "b \<in> set seps" "b \<noteq> 0" and "w \<noteq> []" "a \<noteq> 0"
  shows "strtok m seps a = Some (a, a + of_nat (length w) + 1, Some (a + of_nat (length w)))"
proof -
  obtain z w' where w: "w = z # w'" using assms(5) by (cases w) auto
  then have a: "m a = z" using assms(1) by (simp add: bytes_at_Suc)
  have "skip_seps m seps a = Some a" using a w assms(2) by (intro skip_seps_here) auto
  moreover have "m (a + of_nat (length w)) = bytes_at m a (Suc (length w)) ! length w" by (simp add: bytes_at_def nth_append)
  then have "m (a + of_nat (length w)) = b" by (simp only: assms(1) nth_append_length)
  ultimately show ?thesis using token_end_at [OF assms(1-3)] a w assms(2,4,6) by (simp add: strtok_def)
qed

section \<open>Steps\<close>

lemma run_look:
  assumes "current s = Some p" and "T p = Going (Do Look k)" and "prog_run e code (c, s, T(p := Going (k 0 (mem s)))) st"
  shows "prog_run e code (c, s, T) st"
  by (rule run_step [OF _ assms(3)]) (use assms(1,2) in \<open>simp add: prog_step_def\<close>)

lemma run_token:
  assumes "current s = Some p" and "strtok (mem s) seps a = Some (t, b, Some z)" and "T p = Going (seq (next_token seps a) k)"
    and "prog_run e code (c, mem_write z [0] s, T(p := Going (k (t, b)))) st"
  shows "prog_run e code (c, s, T) st"
proof -
  let ?T = "T(p := Going (Do (Store z [0]) (\<lambda>_ _. k (t, b))))"
  have 1: "prog_step e code (c, s, T) = Some (c, s, ?T)" using assms(1-3) by (simp add: prog_step_def next_token_def)
  have "prog_step e code (c, s, ?T) = Some (c, mem_write z [0] s, T(p := Going (k (t, b))))" using assms(1) by (simp add: prog_step_def)
  from run_step [OF 1 run_step [OF this assms(4)]] show ?thesis .
qed

lemma run_prompt:
  fixes s :: "('h, 'a) kernel_scheme"
  assumes "current s = Some p" and "T p = Going (seq (write_u STDIO a 2) k)" and "3 \<le> length (gpr c)" and "mem_read s a 2 = str ''$ ''"
  shows "\<exists>c'. length (gpr c') = length (gpr c) \<and> prog_run e code (c, s, T) (c', said (str ''$ '') s, T(p := Going (k 2)))"
proof -
  have "length (str ''$ '') = 2" by (simp add: str_def)
  then show ?thesis using run_print [where T = T, OF assms(1-3), of "str ''$ ''" e code] assms(4) by simp
qed

lemma run_line:
  fixes s :: "('h, 'a) kernel_scheme"
  assumes "current s = Some p" and "T p = Going (seq (read_u STDIO x 64) k)" and "3 \<le> length (gpr c)"
    and "rx (uart0 s) = line @ 13 # rest" "13 \<notin> set line" "length line < 64"
  shows "\<exists>c'. length (gpr c') = length (gpr c) \<and> prog_run e code (c, s, T)
    (c', mem_write x (line @ [13]) (said (line @ [10]) (s\<lparr>uart0 := (uart0 s)\<lparr>rx := rest\<rparr>\<rparr>)), T(p := Going (k 64)))"
proof -
  let ?s = "mem_write x (line @ [13]) (said (line @ [10]) (s\<lparr>uart0 := (uart0 s)\<lparr>rx := rest\<rparr>\<rparr>))"
  have "sint (64 :: u32) = 64" by (simp add: sint_of_unat)
  with read_con_line [OF assms(4,5), of 64 "console e" x] assms(6) have r: "read_con (console e) (nat (sint (64 :: u32))) x s = Some ?s" by simp
  from set_r0_load [of "[STDIO, x, 64]" c 64] assms(3) obtain c' where
    c': "set_r0 64 (load_args [STDIO, x, 64] c) = Some c'" "arg 0 c' = Some 64" "length (gpr c') = length (gpr c)" by fastforce
  have "arg 0 (load_args [STDIO, x, 64] c) = Some STDIO" "arg 1 (load_args [STDIO, x, 64] c) = Some x" "arg 2 (load_args [STDIO, x, 64] c) = Some 64"
    using assms(3) by (simp_all add: arg_def load_args_simps)
  then have "kernel_handler_svc e 2 (load_args [STDIO, x, 64] c) s = Some (c', ?s)"
    using c'(1) r by (simp add: kernel_handler_svc_def svc_read_def)
  moreover have "current ?s = Some p" using assms(1) by (simp add: said_def mem_write_def)
  ultimately have "prog_run e code (c, s, T) (c', ?s, T(p := Going (k 64)))"
    using assms(2) by (intro run_svc [OF assms(1) _ _ _ _ _ c'(2), of T 2 "[STDIO, x, 64]" k]) (simp_all add: read_u_def)
  then show ?thesis using c'(3) by blast
qed

section \<open>Commands\<close>

text \<open>The comparisons of the shell recognise a word that a zero byte ends.\<close>

definition commands :: "(byte list \<times> cmd) list" where
  "commands = [(str ''run'', Run), (str ''kill'', Kill), (str ''wipe'', Wipe), (str ''quit'', Quit), (str ''pwd'', Pwd), (str ''ls'', Ls),
     (str ''mkdir'', Mkdir), (str ''cd'', Cd), (str ''rm'', Rm), (str ''mv'', Mv), (str ''cp'', Cp), (str ''cat'', Cat), (str ''setp'', Setp)]"

fun begins :: "byte list \<Rightarrow> byte list \<Rightarrow> bool" where
  "begins ys [] = True"
| "begins [] (x # xs) = False"
| "begins (y # ys) (x # xs) = (y = x \<and> (x = 0 \<or> begins ys xs))"

lemma same_start_word:
  assumes "bytes_at m a (Suc (length w)) = w @ [0]"
  shows "same_start m a xs = begins (w @ [0]) xs"
  using assms
proof (induction w arbitrary: a xs)
  case Nil
  then show ?case by (cases xs) (auto simp: bytes_at_def)
next
  case (Cons z w)
  then have "m a = z" "bytes_at m (a + 1) (Suc (length w)) = w @ [0]" by (simp_all add: bytes_at_Suc)
  with Cons.IH show ?case by (cases xs) auto
qed

definition word_cmd :: "byte list \<Rightarrow> cmd" where
  "word_cmd w = (let is = (\<lambda>y n. begins (w @ [0]) (take n (y @ [0]))) in
     if is (str ''run'') 4 then Run else if is (str ''kill'') 4 then Kill else if is (str ''wipe'') 4 then Wipe
     else if is (str ''quit'') 4 then Quit else if is (str ''pwd'') 3 then Pwd else if is (str ''ls'') 2 then Ls
     else if is (str ''mkdir'') 5 then Mkdir else if is (str ''cd'') 2 then Cd else if is (str ''rm'') 2 then Rm
     else if is (str ''mv'') 2 then Mv else if is (str ''cp'') 2 then Cp else if is (str ''cat'') 3 then Cat
     else if is (str ''setp'') 4 then Setp else Unknown)"

lemma commands_known: "list_all (\<lambda>(w, r). word_cmd w = r) commands"
  by (simp add: commands_def word_cmd_def str_def)

lemma command_word:
  assumes "(w, r) \<in> set commands" and "bytes_at m a (Suc (length w)) = w @ [0]"
  shows "command m a = r"
proof -
  have "strncmp_eq m a y n = begins (w @ [0]) (take n (y @ [0]))" for y n
    unfolding strncmp_eq_def by (rule same_start_word [OF assms(2)])
  then have "command m a = word_cmd w" unfolding command_def word_cmd_def Let_def by (simp only:)
  then show ?thesis using commands_known assms(1) by (auto simp: list_all_iff)
qed

section \<open>A round of the shell\<close>

text \<open>The shell behind a command, and after the line is read.\<close>

definition sh_next :: "(byte list \<Rightarrow> u32) \<Rightarrow> bool \<Rightarrow> u32 \<Rightarrow> u32 \<Rightarrow> u32 \<Rightarrow> unit prog" where
  "sh_next lit rl x buf pr = Do (Call 7 [SIGPRI0]) (\<lambda>_ _. Do (Call 0 []) (\<lambda>_ _. Do Look (\<lambda>_ _. init lit rl x buf pr)))"

definition sh_act :: "(byte list \<Rightarrow> u32) \<Rightarrow> bool \<Rightarrow> u32 \<Rightarrow> u32 \<Rightarrow> u32 \<Rightarrow> cmd \<Rightarrow> u32 \<Rightarrow> unit prog" where
  "sh_act lit rl x buf pr r a = seq (sh_do lit rl buf pr r a) (\<lambda>r. case r of Inr _ \<Rightarrow> cexit | Inl _ \<Rightarrow> sh_next lit rl x buf pr)"

lemma init_unfold:
  "init lit rl x buf pr = seq (write_u STDIO (lit (str ''$ '')) 2) (\<lambda>_. seq (read_u STDIO x 64) (\<lambda>_. seq (next_token [32] x) (\<lambda>ta. Do Look (\<lambda>_ m.
     if fst ta = 0 then fault else sh_act lit rl x buf pr (command m (fst ta)) (snd ta)))))"
proof -
  define R where "R = (\<lambda>_ :: unit. sh_round lit rl x buf pr)"
  let ?F = "\<lambda>(t, a). Do Look (\<lambda>_ m. if t = 0 then fault
     else seq (sh_do lit rl buf pr (command m t) a) (\<lambda>r. case r of
         Inr _ \<Rightarrow> Ret (Inr ()) | Inl _ \<Rightarrow> seq (craise SIGPRI0) (\<lambda>_. seq yield (\<lambda>_. Ret (Inl ())))))"
  have i: "init lit rl x buf pr = seq (loop_from R (R ())) (\<lambda>_. cexit)" by (simp add: init_def loop_def R_def)
  have "loop_from R (case r of Inr _ \<Rightarrow> Ret (Inr ()) | Inl _ \<Rightarrow> seq (craise SIGPRI0) (\<lambda>_. seq yield (\<lambda>_. Ret (Inl ()))))
      = (case r of Inr _ \<Rightarrow> Ret () | Inl _ \<Rightarrow> Do (Call 7 [SIGPRI0]) (\<lambda>_ _. Do (Call 0 []) (\<lambda>_ _. Do Look (\<lambda>_ _. loop_from R (R ())))))" for r :: "unit + unit"
    by (auto split: sum.split simp: craise_def yield_def svc_void_def loop_from_again)
  then have k: "seq (loop_from R (case r of Inr _ \<Rightarrow> Ret (Inr ()) | Inl _ \<Rightarrow> seq (craise SIGPRI0) (\<lambda>_. seq yield (\<lambda>_. Ret (Inl ()))))) (\<lambda>_. cexit)
      = (case r of Inr _ \<Rightarrow> cexit | Inl _ \<Rightarrow> sh_next lit rl x buf pr)" for r :: "unit + unit"
    by (auto split: sum.split simp: sh_next_def i)
  have f: "seq (loop_from R fault) (\<lambda>_. cexit) = fault" by (simp add: fault_stays)
  have F: "seq (loop_from R (?F ta)) (\<lambda>_. cexit) = Do Look (\<lambda>_ m. if fst ta = 0 then fault else sh_act lit rl x buf pr (command m (fst ta)) (snd ta))" for ta
    by (cases ta) (auto simp: sh_act_def loop_from_seq seq_assoc k f fun_eq_iff)
  have "R () = seq (write_u STDIO (lit (str ''$ '')) 2) (\<lambda>_. seq (read_u STDIO x 64) (\<lambda>_. seq (next_token [32] x) ?F))"
    by (simp only: R_def sh_round_def)
  then have "init lit rl x buf pr = seq (write_u STDIO (lit (str ''$ '')) 2) (\<lambda>_. seq (read_u STDIO x 64) (\<lambda>_. seq (next_token [32] x) (\<lambda>ta. seq (loop_from R (?F ta)) (\<lambda>_. cexit))))"
    by (simp only: i loop_from_seq seq_assoc)
  then show ?thesis by (simp only: F)
qed

text \<open>A command with one argument: the call the shell makes for it.\<close>

definition arg_calls :: "(cmd \<times> u32) list" where
  "arg_calls = [(Mkdir, 16), (Cd, 17), (Rm, 18)]"

lemma arg_call_act:
  assumes "(r, i) \<in> set arg_calls"
  shows "sh_act lit rl x buf pr r a = seq (next_token [32, 10, 13] a) (\<lambda>ta. Do (Call i [fst ta]) (\<lambda>_ _. sh_next lit rl x buf pr))"
  using assms by (auto simp: arg_calls_def sh_act_def sh_do_def goes_on_def one_arg_def mkdir_def cd_def funlink_def svc_def seq_assoc split_beta)

lemma to_the_command:
  fixes s :: "('h, 'a) kernel_scheme"
  assumes T: "T p = Going (init lit rl x buf pr)" and cur: "current s = Some p" and g: "3 \<le> length (gpr c)"
    and inp: "rx (uart0 s) = w @ 32 # ys @ 13 # rest" and w: "(w, r) \<in> set commands" and len: "length w + length ys < 63"
    and ys: "13 \<notin> set ys" and prompt: "mem_read s (lit (str ''$ '')) 2 = str ''$ ''" and x: "x \<noteq> 0"
  shows "\<exists>c'. length (gpr c') = length (gpr c) \<and> prog_run e code (c, s, T)
    (c', s\<lparr>mem := mem_put x (w @ 0 # ys @ [13]) (mem s),
      uart0 := (uart0 s)\<lparr>tx := tx (uart0 s) @ str ''$ '' @ w @ 32 # ys @ [10], rx := rest\<rparr>\<rparr>,
     T(p := Going (sh_act lit rl x buf pr r (x + of_nat (length w) + 1))))"
proof -
  let ?s1 = "said (str ''$ '') s" and ?line = "w @ 32 # ys"
  let ?s2 = "mem_write x (?line @ [13]) (said (?line @ [10]) (?s1\<lparr>uart0 := (uart0 ?s1)\<lparr>rx := rest\<rparr>\<rparr>))"
  define s3 where "s3 = mem_write (x + of_nat (length w)) [0] ?s2"
  have wc: "w \<noteq> []" "\<forall>z \<in> set w. z \<noteq> 0 \<and> z \<notin> set [32]" "13 \<notin> set w" using w by (auto simp: commands_def str_def)
  define k1 where "k1 = (\<lambda>ta. Do Look (\<lambda>_ m. if fst ta = 0 then fault else sh_act lit rl x buf pr (command m (fst ta)) (snd ta)))"
  note T0 = T [unfolded init_unfold, folded k1_def]
  from run_prompt [where T = T, OF cur T0 g prompt, of e code] obtain c1 where
    r1: "length (gpr c1) = length (gpr c)" "prog_run e code (c, s, T) (c1, ?s1, T(p := Going (seq (read_u STDIO x 64) (\<lambda>_. seq (next_token [32] x) k1))))"
    by blast
  let ?T1 = "T(p := Going (seq (read_u STDIO x 64) (\<lambda>_. seq (next_token [32] x) k1)))"
  have i1: "current ?s1 = Some p" "rx (uart0 ?s1) = ?line @ 13 # rest" "3 \<le> length (gpr c1)" "length ?line < 64" "13 \<notin> set ?line"
    using cur inp g r1(1) len ys wc(3) by (simp_all add: said_def)
  from run_line [OF i1(1) _ i1(3,2,5,4), of ?T1 x "\<lambda>_. seq (next_token [32] x) k1" e code] obtain c2 where
    r2: "length (gpr c2) = length (gpr c)" "prog_run e code (c1, ?s1, ?T1) (c2, ?s2, T(p := Going (seq (next_token [32] x) k1)))"
    using r1(1) by auto
  have cur2: "current ?s2 = Some p" "current s3 = Some p" using cur by (simp_all add: s3_def said_def mem_write_def)
  have m2: "mem ?s2 = mem_put x (w @ 32 # ys @ [13]) (mem s)" by (simp add: mem_write_put)
  have "bytes_at (mem ?s2) x (Suc (length w)) = w @ [32]"
    using bytes_at_inside [of "[]" "w @ [32]" "ys @ [13]" x "mem s"] len m2 by simp
  from strtok_word [OF this wc(2) _ _ wc(1) x]
  have tok: "strtok (mem ?s2) [32] x = Some (x, x + of_nat (length w) + 1, Some (x + of_nat (length w)))" by simp
  have m3: "mem s3 = mem_put x (w @ 0 # ys @ [13]) (mem s)"
    using mem_put_change [of w 32 "ys @ [13]" x 0 "mem s"] len m2 by (simp add: s3_def mem_write_put)
  have "bytes_at (mem s3) x (Suc (length w)) = w @ [0]"
    using bytes_at_inside [of "[]" "w @ [0]" "ys @ [13]" x "mem s"] len m3 by simp
  from command_word [OF w this] have cmd: "command (mem s3) x = r" .
  let ?T3 = "T(p := Going (k1 (x, x + of_nat (length w) + 1)))"
  have r4: "prog_run e code (c2, s3, ?T3) (c2, s3, T(p := Going (sh_act lit rl x buf pr r (x + of_nat (length w) + 1))))"
    by (rule run_look [OF cur2(2), of ?T3 "\<lambda>_ m. if x = 0 then fault else sh_act lit rl x buf pr (command m x) (x + of_nat (length w) + 1)"])
      (use cmd x in \<open>simp_all add: k1_def\<close>)
  have r3: "prog_run e code (c2, ?s2, T(p := Going (seq (next_token [32] x) k1))) (c2, s3, T(p := Going (sh_act lit rl x buf pr r (x + of_nat (length w) + 1))))"
    by (rule run_token [OF cur2(1) tok, where k = k1]) (use r4 in \<open>simp_all add: s3_def\<close>)
  have s3e: "s3 = s\<lparr>mem := mem_put x (w @ 0 # ys @ [13]) (mem s),
      uart0 := (uart0 s)\<lparr>tx := tx (uart0 s) @ str ''$ '' @ w @ 32 # ys @ [10], rx := rest\<rparr>\<rparr>"
    using m3 by (simp add: s3_def mem_write_put said_def)
  show ?thesis using r1(2) r2 r3 unfolding s3e by (meson rtranclp_trans)
qed

text \<open>Up to the first argument of a command that takes one.\<close>

lemma to_the_argument:
  fixes s :: "('h, 'a) kernel_scheme"
  assumes T: "T p = Going (init lit rl x buf pr)" and cur: "current s = Some p" and g: "3 \<le> length (gpr c)"
    and inp: "rx (uart0 s) = w @ 32 # name @ 13 # rest" and w: "(w, r) \<in> set commands" and act: "\<And>a. sh_act lit rl x buf pr r a = seq (next_token [32, 10, 13] a) (\<lambda>ta. K (fst ta))"
    and name: "name \<noteq> []" "set name \<inter> {0, 10, 13, 32} = {}" and len: "length w + length name < 63"
    and prompt: "mem_read s (lit (str ''$ '')) 2 = str ''$ ''" and x: "x \<noteq> 0" "unat x + 64 \<le> 2 ^ 32"
  shows "\<exists>c' s'. prog_run e code (c, s, T) (c', s', T(p := Going (K (x + of_nat (length w) + 1)))) \<and> length (gpr c') = length (gpr c)
    \<and> cstr (mem s') (x + of_nat (length w) + 1) = Some name
    \<and> s' = s\<lparr>mem := mem s', uart0 := (uart0 s)\<lparr>tx := tx (uart0 s) @ str ''$ '' @ w @ 32 # name @ [10], rx := rest\<rparr>\<rparr>
    \<and> (\<forall>a. 64 \<le> unat (a - x) \<longrightarrow> mem s' a = mem s a)"
proof -
  let ?a = "x + of_nat (length w) + 1"
  let ?u = "(uart0 s)\<lparr>tx := tx (uart0 s) @ str ''$ '' @ w @ 32 # name @ [10], rx := rest\<rparr>"
  let ?s1 = "s\<lparr>mem := mem_put x (w @ 0 # name @ [13]) (mem s), uart0 := ?u\<rparr>"
  let ?s2 = "s\<lparr>mem := mem_put x (w @ 0 # name @ [0]) (mem s), uart0 := ?u\<rparr>"
  have n: "13 \<notin> set name" "\<forall>z \<in> set name. z \<noteq> 0 \<and> z \<notin> set [32, 10, 13]" using name(2) by auto
  from to_the_command [where T = T, OF T cur g inp w len n(1) prompt x(1), of e code] obtain c' where
    r1: "prog_run e code (c, s, T) (c', ?s1, T(p := Going (sh_act lit rl x buf pr r ?a)))" "length (gpr c') = length (gpr c)" by blast
  have u: "unat (of_nat (Suc (length w)) :: u32) = Suc (length w)" using len by (intro unat_of_nat_u32) simp
  have a: "?a = x + of_nat (length (w @ [0 :: byte]))" by (simp add: add.assoc add.commute)
  have "?a \<noteq> 0"
  proof -
    have "unat (x + of_nat (Suc (length w))) = unat x + Suc (length w)"
      using u x(2) len by (subst unat_plus_simple [THEN iffD1]) (simp_all add: no_olen_add_nat)
    then show ?thesis unfolding a by (metis length_append_singleton add_is_0 nat.distinct(1) unat_0)
  qed
  moreover have "bytes_at (mem ?s1) ?a (Suc (length name)) = name @ [13]"
    using bytes_at_inside [of "w @ [0]" "name @ [13]" "[]" x "mem s"] len unfolding a by simp
  ultimately have tok: "strtok (mem ?s1) [32, 10, 13] ?a = Some (?a, ?a + of_nat (length name) + 1, Some (?a + of_nat (length name)))"
    using n(2) name(1) by (intro strtok_word [where b = 13]) simp_all
  have z: "?a + of_nat (length name) = x + of_nat (length (w @ 0 # name))" by (simp add: add.assoc add.commute)
  have s2: "mem_write (?a + of_nat (length name)) [0] ?s1 = ?s2"
    using mem_put_change [of "w @ 0 # name" 13 "[]" x 0 "mem s"] len unfolding z by (simp add: mem_write_put)
  have "prog_run e code (c', ?s1, T(p := Going (sh_act lit rl x buf pr r ?a))) (c', ?s2, T(p := Going (K ?a)))"
    by (rule run_token [OF _ tok, where k = "\<lambda>ta. K (fst ta)" and p = p])
      (use cur s2 act in simp_all)
  moreover have "cstr (mem ?s2) ?a = Some name"
    using bytes_at_inside [of "w @ [0]" "name @ [0]" "[]" x "mem s"] len name(2) unfolding a by (intro cstr_bytes) auto
  moreover have "mem ?s2 y = mem s y" if "64 \<le> unat (y - x)" for y using that len by (simp add: mem_put_def)
  ultimately show ?thesis using r1 by (intro exI [of _ c'] exI [of _ ?s2]) (auto intro: rtranclp_trans)
qed

section \<open>Properties\<close>

text \<open>C8. A line with a command and a name. The shell, at its prompt, with the line \<open>mkdir\<close>, \<open>cd\<close> or \<open>rm\<close>, a
  blank, a name and a carriage return waiting at the console, comes to the supervisor call of
  that command with the address of the name, where the name is a string; prompt and line are
  echoed, the rest of the input is left, memory has changed only in the line buffer, and after
  the call the shell lowers its priority, yields and starts again.\<close>

theorem shell_calls:
  fixes s :: "('h, 'a) kernel_scheme"
  assumes T: "T p = Going (init lit rl x buf pr)" and cur: "current s = Some p" and g: "3 \<le> length (gpr c)"
    and inp: "rx (uart0 s) = w @ 32 # name @ 13 # rest" and w: "(w, r) \<in> set commands" "(r, i) \<in> set arg_calls"
    and name: "name \<noteq> []" "set name \<inter> {0, 10, 13, 32} = {}" and len: "length w + length name < 63"
    and prompt: "mem_read s (lit (str ''$ '')) 2 = str ''$ ''" and x: "x \<noteq> 0" "unat x + 64 \<le> 2 ^ 32"
  shows "\<exists>c' s'. prog_run e code (c, s, T)
      (c', s', T(p := Going (Do (Call i [x + of_nat (length w) + 1]) (\<lambda>_ _. sh_next lit rl x buf pr))))
    \<and> cstr (mem s') (x + of_nat (length w) + 1) = Some name
    \<and> s' = s\<lparr>mem := mem s', uart0 := (uart0 s)\<lparr>tx := tx (uart0 s) @ str ''$ '' @ w @ 32 # name @ [10], rx := rest\<rparr>\<rparr>
    \<and> (\<forall>a. 64 \<le> unat (a - x) \<longrightarrow> mem s' a = mem s a)"
proof -
  from to_the_argument [where T = T, OF T cur g inp w(1) arg_call_act [OF w(2)] name len prompt x, of e code] show ?thesis by blast
qed

text \<open>An example: \<open>mkdir doc\<close>.\<close>

definition typed :: "byte list \<Rightarrow> unit kernel" where
  "typed xs = desk\<lparr>mem := mem_put 0x1000 (str ''$ '') (\<lambda>_. 0), uart0 := \<lparr>tx = [], rx = xs, host = ()\<rparr>\<rparr>"

theorem shell_calls_witness:
  "\<exists>c' s'. prog_run board_env (\<lambda>_. cexit) (zero_ctx, typed (str ''mkdir doc'' @ [13]), \<lambda>_. Going (init (\<lambda>_. 0x1000) False 0x2000 0x3000 0x4000))
      (c', s', (\<lambda>_. Going (init (\<lambda>_. 0x1000) False 0x2000 0x3000 0x4000))
        (0 := Going (Do (Call 16 [0x2006]) (\<lambda>_ _. sh_next (\<lambda>_. 0x1000) False 0x2000 0x3000 0x4000))))
    \<and> cstr (mem s') 0x2006 = Some (str ''doc'')"
proof -
  have l: "str ''mkdir doc'' @ [13] = str ''mkdir'' @ 32 # str ''doc'' @ 13 # []" "length (str ''mkdir'') = 5" "length (str ''doc'') = 3"
    by (simp_all add: str_def)
  have "mem_read (typed xs) 0x1000 2 = str ''$ ''" for xs
    by (simp add: mem_read_bytes typed_def bytes_at_put str_def)
  with shell_calls [where T = "\<lambda>_. Going (init (\<lambda>_. 0x1000) False 0x2000 0x3000 0x4000)" and lit = "\<lambda>_. 0x1000" and x = "0x2000" and p = 0
      and s = "typed (str ''mkdir doc'' @ [13])" and c = zero_ctx and w = "str ''mkdir''" and name = "str ''doc''" and rest = "[]"
      and rl = False and buf = "0x3000" and pr = "0x4000" and r = Mkdir and i = 16 and e = board_env and code = "\<lambda>_. cexit"]
  show ?thesis using l by (auto simp: typed_def desk_def zero_ctx_def commands_def arg_calls_def str_def)
qed

end
