(* ===== verification/Launch.thy ===== *)
theory Launch
  imports Lines
begin

text \<open>
  Starting a program from the shell: the line \<open>run\<close> with the name of a program makes a child of the
  shell, which becomes that program when it first has the processor.
\<close>

section \<open>The child\<close>

text \<open>The shell behind \<open>fork\<close>, as parent and as child; the name is at \<open>t\<close>.\<close>

definition after_fork :: "(byte list \<Rightarrow> u32) \<Rightarrow> bool \<Rightarrow> u32 \<Rightarrow> u32 \<Rightarrow> u32 \<Rightarrow> u32 \<Rightarrow> u32 \<Rightarrow> (u32 \<Rightarrow> byte) \<Rightarrow> unit prog" where
  "after_fork lit rl x buf pr t f M =
     (if f = 0 then Do (Call 4 [t]) (\<lambda>_ _. cexit)
      else if f = -1 then Do (Call 1 [STDIO, lit (str ''memory fault'' @ [10]), 14]) (\<lambda>_ _. sh_next lit rl x buf pr)
      else sh_next lit rl x buf pr)"

lemma run_act:
  "sh_act lit rl x buf pr Run a = seq (next_token [32, 10, 13] a) (\<lambda>ta. Do (Call 3 []) (after_fork lit rl x buf pr (fst ta)))"
proof -
  have "after_fork lit rl x buf pr t = (\<lambda>f _. seq (if f = 0 then seq (cexec t) (\<lambda>_. Ret (Inr ()))
       else if f = -1 then seq (write_u STDIO (lit (str ''memory fault'' @ [10])) 14) (\<lambda>_. Ret (Inl ())) else Ret (Inl ()))
     (\<lambda>r. case r of Inr _ \<Rightarrow> cexit | Inl _ \<Rightarrow> sh_next lit rl x buf pr))" for t
    by (auto simp: after_fork_def cexec_def write_u_def svc_def svc_void_def fun_eq_iff)
  then show ?thesis by (simp add: sh_act_def sh_do_def sh_run_def cfork_def svc_def seq_assoc split_beta)
qed

text \<open>A program in the root directory: its file begins with its address.\<close>

definition installed :: "byte list \<Rightarrow> u32 \<Rightarrow> nat \<Rightarrow> ('h, 'a) kernel_scheme \<Rightarrow> bool" where
  "installed name entry b s \<longleftrightarrow> tables_inv s \<and> good_name name \<and> (\<exists>f j k n xs d p rest. free_slots s b f j k \<and> root_inv s n xs
     \<and> find (matches name) (take (visible n) (entries s (itab s 0) n)) = Some d \<and> unat (d_ino d) < 512
     \<and> (\<forall>x \<in> set (ai s). i_number x = d_ino d \<longrightarrow> ic_mode (i_ic x) = IFZERO)
     \<and> file_inv s (itab s (unat (d_ino d))) (nblocks (ic_size (itab s (unat (d_ino d))))) xs
     \<and> content (itab s (unat (d_ino d))) s = u32_bytes entry @ u32_bytes p @ rest)"

lemma exec_installed:
  fixes s :: "('h, 'a) kernel_scheme"
  assumes "installed name entry b s" and "cstr (mem s) t = Some name" and "current s = Some b" and "1 \<le> length (gpr c)"
  shows "\<exists>c' s'. kernel_handler_svc e 4 (load_args [t] c) s = Some (c', s') \<and> arg 0 c' = Some 0 \<and> pc c' = entry
    \<and> sp c' = tos_init e - pid (pcb s ! b) * 0x10000 \<and> current s' = Some b"
proof -
  from assms(1) obtain f j k n xs d p rest where
    I: "tables_inv s" "free_slots s b f j k" "root_inv s n xs" "good_name name" "find (matches name) (take (visible n) (entries s (itab s 0) n)) = Some d"
      "unat (d_ino d) < 512" "\<forall>x \<in> set (ai s). i_number x = d_ino d \<longrightarrow> ic_mode (i_ic x) = IFZERO"
      "file_inv s (itab s (unat (d_ino d))) (nblocks (ic_size (itab s (unat (d_ino d))))) xs"
      "content (itab s (unat (d_ino d))) s = u32_bytes entry @ u32_bytes p @ rest" by (auto simp: installed_def)
  from exec_started [OF I, of "tos_init e" "load_args [t] c"] obtain s' where
    s': "exec (tos_init e) (load_args [t] c) name s = Some (0, ctx (started (tos_init e) (pid (pcb s ! b)) entry p), s')"
      "same_but_ai k (s\<lparr>pcb := (pcb s)[b := started (tos_init e) (pid (pcb s ! b)) entry p]\<rparr>) s'" by blast
  have fm: "formatted s" "dir_inv s (itab s 0) n xs" using I(3) by (simp_all add: root_inv_def alloc_inv_def)
  then obtain ino where "path_to_ino name 0 s = Some ino"
    using lookup_root [OF fm(1) I(4)] name_to_ino_find [OF fm(1), of "inode_local\<lparr>i_number := 0, i_ic := itab s 0\<rparr>" n xs name] I(4)
    by (auto simp: good_name_def)
  from cut_path_name [OF I(4) assms(2) this] have cut: "cut_path t name 0 s = Some s" .
  let ?c = "ctx (started (tos_init e) (pid (pcb s ! b)) entry p)"
  have g: "gpr ?c = replicate 13 0" by (simp add: started_def zero_ctx_def)
  have "arg 0 (load_args [t] c) = Some t" using assms(4) by (cases "gpr c") (simp_all add: arg_def load_args_def splice_at_def)
  then have "kernel_handler_svc e 4 (load_args [t] c) s = Some (?c\<lparr>gpr := (gpr ?c)[0 := 0]\<rparr>, s')"
    using s'(1) cut assms(2) g by (simp add: kernel_handler_svc_def svc_exec_def set_r0_def)
  moreover have "current s' = Some b" using s'(2) assms(3) by (auto simp: same_but_ai_def)
  ultimately show ?thesis by (auto simp: arg_def started_def zero_ctx_def)
qed

section \<open>Fork and exec as steps\<close>

lemma run_fork:
  fixes s :: "('h, 'a) kernel_scheme"
  assumes inv: "sched_inv s q" and cur: "current s = Some p" "p \<in> set q" and b: "find (\<lambda>i. pst (pcb s ! i) = TERMINATED) [0..<8] = Some b"
    and g: "1 \<le> length (gpr c)" and T: "T p = Going (Do (Call 3 []) K)"
  shows "\<exists>c' s'. prog_run e code (c, s, T) (c', s', T(b := Called K, p := Going (K (of_nat b) (mem s)))) \<and> sched_inv s' (q @ [b]) \<and> current s' = Some p
    \<and> executing s' b \<and> arg 0 (ctx (pcb s' ! b)) = Some 0 \<and> mem s' = mem s \<and> procs.more s' = procs.more s"
proof -
  have len: "length (pcb s) = 8" using inv by (simp add: sched_inv_def ready_def)
  have b8: "b < 8" "pst (pcb s ! b) = TERMINATED" using find_upt_Some [OF b] by auto
  have bp: "b \<noteq> p" using inv cur(2) b8(2) by (auto simp: sched_inv_def)
  have gn: "gpr c \<noteq> []" using g by auto
  let ?s = "s\<lparr>pcb := (pcb s)[b := child_of p b c (pcb s ! b)], rq := rq_of (q @ [b]), rq_size := of_nat (length (q @ [b]))\<rparr>"
  note f = fork_at_inv [OF inv b8 gn cur(1)]
  have la: "load_args [] c = c" by (simp add: load_args_def splice_at_def)
  let ?c = "c\<lparr>gpr := (gpr c)[0 := of_nat b]\<rparr>"
  have "fork c s = Some (of_nat b, ?s)" using fork_find [OF len, of c] b f(1) by (simp del: upt_rec_numeral)
  then have h: "kernel_handler_svc e 3 (load_args [] c) s = Some (?c, ?s)" using gn by (simp add: la kernel_handler_svc_def ret_def set_r0_def)
  have a: "arg 0 ?c = Some (of_nat b)" using gn by (simp add: arg_def)
  have ub: "unat (of_nat b :: u32) = b" using b8(1) by (simp add: unat_of_nat_u32)
  then have "(of_nat b :: u32) \<noteq> -1" using b8(1) by (metis fd_not_minus1 less_trans numeral_less_iff semiring_norm(76,78))
  with a ub h cur T have st: "prog_step e code (c, s, T) = Some (?c, ?s, T(p := Called K, b := Called K))"
    by (simp add: prog_step_def after_call_def)
  have "prog_step e code (?c, ?s, T(p := Called K, b := Called K)) = Some (?c, ?s, T(b := Called K, p := Going (K (of_nat b) (mem s))))"
    using cur(1) a bp by (simp add: prog_step_def fun_upd_twist)
  from run_step [OF st run_step [OF this rtranclp.rtrancl_refl]]
  have "prog_run e code (c, s, T) (?c, ?s, T(b := Called K, p := Going (K (of_nat b) (mem s))))" .
  moreover have "executing ?s b" "arg 0 (ctx (pcb ?s ! b)) = Some 0" using b8(1) len gn by (simp_all add: executing_def child_of_def arg_def)
  ultimately show ?thesis using f(2) cur(1) by (intro exI [of _ ?c] exI [of _ ?s]) simp
qed

section \<open>Properties\<close>

text \<open>C7. Starting a program. At the line \<open>run\<close> with a name, and with a free slot of the process table other
  than the first, the shell forks and goes on to its next round. Its child is queued, and when
  it first has the processor, and the name still is where the shell read it and names a program
  of the root directory, it runs that program from the address in its file, on the stack of its
  process number.\<close>

theorem shell_runs:
  fixes s :: "('h, 'a) kernel_scheme"
  assumes T: "T p = Going (init lit rl x buf pr)" and inv: "sched_inv s q" and cur: "current s = Some p" "p \<in> set q"
    and g: "3 \<le> length (gpr c)" and inp: "rx (uart0 s) = str ''run '' @ name @ 13 # rest"
    and name: "name \<noteq> []" "set name \<inter> {0, 10, 13, 32} = {}" and len: "length name < 60"
    and prompt: "mem_read s (lit (str ''$ '')) 2 = str ''$ ''" and x: "x \<noteq> 0" "unat x + 64 \<le> 2 ^ 32"
    and b: "find (\<lambda>i. pst (pcb s ! i) = TERMINATED) [0..<8] = Some b" "b \<noteq> 0"
  shows "\<exists>c' s' K. prog_run e code (c, s, T) (c', s', T(b := Called K, p := Going (sh_next lit rl x buf pr)))
    \<and> sched_inv s' (q @ [b]) \<and> current s' = Some p \<and> executing s' b \<and> arg 0 (ctx (pcb s' ! b)) = Some 0
    \<and> cstr (mem s') (x + 4) = Some name
    \<and> (\<forall>c2 (s2 :: ('h, 'a) kernel_scheme) T2 entry. current s2 = Some b \<and> arg 0 c2 = Some 0 \<and> T2 b = Called K
        \<and> cstr (mem s2) (x + 4) = Some name \<and> installed name entry b s2 \<longrightarrow>
        (\<exists>c3 s3. prog_run e code (c2, s2, T2) (c3, s3, T2(b := Going (code entry))) \<and> current s3 = Some b
          \<and> pc c3 = entry \<and> sp c3 = tos_init e - pid (pcb s2 ! b) * 0x10000))"
proof -
  let ?K = "after_fork lit rl x buf pr (x + 4)"
  have w: "str ''run '' = str ''run'' @ [32]" "length (str ''run'') = 3" "(str ''run'', Run) \<in> set commands" by (simp_all add: str_def commands_def)
  have inp': "rx (uart0 s) = str ''run'' @ 32 # name @ 13 # rest" using inp w(1) by simp
  have len': "length (str ''run'') + length name < 63" using len w(2) by simp
  have a: "x + of_nat (length (str ''run'')) + 1 = x + 4" by (simp add: w(2))
  from to_the_argument [where T = T, OF T cur(1) g inp' w(3) run_act name len' prompt x, of e code, unfolded a] obtain c1 s1 where
    r1: "prog_run e code (c, s, T) (c1, s1, T(p := Going (Do (Call 3 []) ?K)))" "length (gpr c1) = length (gpr c)" "cstr (mem s1) (x + 4) = Some name"
    and s1: "s1 = s\<lparr>mem := mem s1, uart0 := (uart0 s)\<lparr>tx := tx (uart0 s) @ str ''$ '' @ str ''run'' @ 32 # name @ [10], rx := rest\<rparr>\<rparr>" by blast
  have i1: "sched_inv s1 q" "current s1 = Some p" "find (\<lambda>i. pst (pcb s1 ! i) = TERMINATED) [0..<8] = Some b"
    using inv cur(1) b(1) by (subst s1; simp add: sched_inv_def ready_def running_def del: upt_rec_numeral)+
  have g1: "1 \<le> length (gpr c1)" using g r1(2) by simp
  let ?T1 = "T(p := Going (Do (Call 3 []) ?K))"
  have "?T1 p = Going (Do (Call 3 []) ?K)" by simp
  from run_fork [where T = ?T1, OF i1(1,2) cur(2) i1(3) g1 this, of e code] obtain c2 s2 where
    r2: "prog_run e code (c1, s1, ?T1) (c2, s2, ?T1(b := Called ?K, p := Going (?K (of_nat b) (mem s1))))"
    and s2: "sched_inv s2 (q @ [b])" "current s2 = Some p" "executing s2 b" "arg 0 (ctx (pcb s2 ! b)) = Some 0" "mem s2 = mem s1" by blast
  have "b < 8" using find_upt_Some [OF b(1)] by simp
  then have "unat (of_nat b :: u32) = b" by (simp add: unat_of_nat_u32)
  then have "(of_nat b :: u32) \<noteq> 0" "(of_nat b :: u32) \<noteq> -1" using b(2) \<open>b < 8\<close> fd_not_minus1 [of b] by auto
  then have k: "?K (of_nat b) M = sh_next lit rl x buf pr" for M by (simp add: after_fork_def)
  have run: "prog_run e code (c, s, T) (c2, s2, T(b := Called ?K, p := Going (sh_next lit rl x buf pr)))"
    using rtranclp_trans [OF r1(1) r2] by (simp add: k fun_upd_twist)
  have child: "\<exists>c4 s4. prog_run e code (c3, s3, T3) (c4, s4, T3(b := Going (code entry))) \<and> current s4 = Some b
      \<and> pc c4 = entry \<and> sp c4 = tos_init e - pid (pcb s3 ! b) * 0x10000"
    if c: "current s3 = Some b" "arg 0 c3 = Some 0" "T3 b = Called ?K" "cstr (mem s3) (x + 4) = Some name" "installed name entry b s3"
    for c3 T3 entry and s3 :: "('h, 'a) kernel_scheme"
  proof -
    have g3: "1 \<le> length (gpr c3)" using c(2) by (cases "gpr c3") (simp_all add: arg_def arr_def)
    let ?T4 = "T3(b := Going (Do (Call 4 [x + 4]) (\<lambda>_ _. cexit)))"
    have st: "prog_step e code (c3, s3, T3) = Some (c3, s3, ?T4)" using c(1-3) by (simp add: prog_step_def after_fork_def)
    from exec_installed [OF c(5,4,1) g3, of e] obtain c4 s4 where
      h: "kernel_handler_svc e 4 (load_args [x + 4] c3) s3 = Some (c4, s4)" "arg 0 c4 = Some 0" "pc c4 = entry"
        "sp c4 = tos_init e - pid (pcb s3 ! b) * 0x10000" "current s4 = Some b" by blast
    have "prog_step e code (c3, s3, ?T4) = Some (c4, s4, T3(b := Going (code entry)))" using c(1) h by (simp add: prog_step_def after_call_def)
    from run_step [OF st run_step [OF this rtranclp.rtrancl_refl]] h(3-5) show ?thesis by blast
  qed
  show ?thesis using run s2 r1(3) child by (intro exI [of _ c2] exI [of _ s2] exI [of _ ?K]) simp
qed

text \<open>An example: the program \<open>P1\<close>, installed by the kernel, and the child of the shell in slot 1.\<close>

lemma example_installed: "\<exists>s :: unit kernel. installed (str ''P1'') 7 1 s \<and> current s = Some 1 \<and> cstr (mem s) 0x2004 = Some (str ''P1'')"
proof -
  have n: "str ''P1'' = [80, 49]" by (simp add: str_def)
  from desk_create obtain s1 d where s1: "tables_kept 0 desk s1" "root_inv s1 3 (tl (tl wipe_order))"
    "entries s1 (itab s1 0) 3 = entries desk (itab desk 0) 2 @ [d]" "d_ino d = 2" "matches [80, 49] d"
    "content (itab s1 2) s1 = u32_bytes 7 @ u32_bytes 1" "ic_size (itab s1 2) = 8" "file_inv s1 (itab s1 2) 1 (tl (tl wipe_order))" by blast
  have fs: "free_slots desk 0 0 0 0" using desk_finds(3-5) by (simp add: free_slots_def) (simp add: desk_def inode_local_def)
  note t = tables_keptD [OF s1(1) fs]
  obtain y q g where y: "s1 = desk\<lparr>dsk := q, fs := g, ai := (ai desk)[0 := y]\<rparr>" "ic_mode (i_ic y) = IFZERO"
    using s1(1) unfolding tables_kept_def by blast
  define s2 where "s2 = s1\<lparr>current := Some 1, mem := mem_put 0x2004 (str ''P1'' @ [0]) (mem s1)\<rparr>"
  have d: "dsk s2 = dsk s1" "fs s2 = fs s1" by (simp_all add: s2_def)
  note v = same_disk_views [OF d(1)] same_disk_alloc [OF d]
  have "tables_inv s2" using t(2) [OF desk_tables] by (auto simp: tables_inv_def s2_def)
  moreover have "free_slots s2 1 0 0 0" using t(1) by (simp add: free_slots_def s2_def) (simp add: y(1) desk_def zero_pcb_def)
  moreover have "root_inv s2 3 (tl (tl wipe_order))" using s1(2) v by (simp add: root_inv_def)
  moreover have "find (matches [80, 49]) (take (visible 3) (entries s2 (itab s2 0) 3)) = Some d"
    using s1(3,5) by (simp add: v desk_as_rooted rooted_itab rooted_entries visible_def) (simp add: matches_def P0_dir_def bytes_dir_def)
  moreover have "\<forall>z \<in> set (ai s2). i_number z = d_ino d \<longrightarrow> ic_mode (i_ic z) = IFZERO"
    using y(2) set_update_subset_insert [of "ai desk" 0 y] by (auto simp: s2_def y(1) desk_def inode_local_def)
  moreover have "file_inv s2 (itab s2 2) (nblocks (ic_size (itab s2 2))) (tl (tl wipe_order))" using s1(7,8) v by (simp add: word_sizes)
  moreover have "content ic s2 = content ic s1" for ic using v(1) d(1) by (simp add: content_def fbyte_def)
  then have "content (itab s2 2) s2 = u32_bytes 7 @ u32_bytes 1 @ []" using s1(6) v(7) by simp
  ultimately have "installed [80, 49] 7 1 s2" using s1(4) unfolding installed_def good_name_def by fastforce
  moreover have "cstr (mem s2) 0x2004 = Some (str ''P1'')" by (intro cstr_bytes) (simp_all add: s2_def bytes_at_put n)
  ultimately show ?thesis using n by (intro exI [of _ s2]) (simp add: s2_def)
qed

theorem shell_runs_witness:
  "\<exists>c' s' K (s2 :: unit kernel) c3 s3.
     prog_run board_env (\<lambda>_. cexit) (zero_ctx, typed (str ''run P1'' @ [13]), \<lambda>_. Going (init (\<lambda>_. 0x1000) False 0x2000 0x3000 0x4000))
       (c', s', (\<lambda>_. Going (init (\<lambda>_. 0x1000) False 0x2000 0x3000 0x4000))
         (1 := Called K, 0 := Going (sh_next (\<lambda>_. 0x1000) False 0x2000 0x3000 0x4000)))
     \<and> sched_inv s' [0, 1]
     \<and> prog_run board_env (\<lambda>_. cexit) (zero_ctx, s2, \<lambda>_. Called K) (c3, s3, (\<lambda>_. Called K)(1 := Going cexit)) \<and> pc c3 = 7"
proof -
  let ?s = "typed (str ''run P1'' @ [13])" and ?i = "init (\<lambda>_. 0x1000) False 0x2000 0x3000 0x4000"
  have m: "mem_read ?s 0x1000 2 = str ''$ ''" by (simp add: mem_read_bytes typed_def bytes_at_put str_def)
  have q: "sched_inv ?s [0]" by (auto simp: typed_def desk_def sched_inv_def ready_def running_def zero_pcb_def)
  have b: "find (\<lambda>i. pst (pcb ?s ! i) = TERMINATED) [0..<8] = Some 1"
    by (intro find_upt_SomeI) (simp_all add: typed_def desk_def zero_pcb_def)
  have l: "rx (uart0 ?s) = str ''run '' @ str ''P1'' @ 13 # []" by (simp add: typed_def str_def)
  have c: "current ?s = Some 0" by (simp add: typed_def desk_def)
  obtain s2 :: "unit kernel" where s2: "installed (str ''P1'') 7 1 s2" "current s2 = Some 1" "cstr (mem s2) 0x2004 = Some (str ''P1'')"
    using example_installed by blast
  from shell_runs [where T = "\<lambda>_. Going ?i" and lit = "\<lambda>_. 0x1000", OF refl q c _ _ l _ _ _ m _ _ b, of zero_ctx board_env "\<lambda>_. cexit"]
  obtain c' s' K where r: "prog_run board_env (\<lambda>_. cexit) (zero_ctx, ?s, \<lambda>_. Going ?i)
      (c', s', (\<lambda>_. Going ?i)(1 := Called K, 0 := Going (sh_next (\<lambda>_. 0x1000) False 0x2000 0x3000 0x4000)))" "sched_inv s' [0, 1]"
    and k: "\<forall>c2 (s2 :: unit kernel) T2 entry. current s2 = Some 1 \<and> arg 0 c2 = Some 0 \<and> T2 1 = Called K
        \<and> cstr (mem s2) 0x2004 = Some (str ''P1'') \<and> installed (str ''P1'') entry 1 s2 \<longrightarrow>
        (\<exists>c3 s3. prog_run board_env (\<lambda>_. cexit) (c2, s2, T2) (c3, s3, T2(1 := Going cexit)) \<and> current s3 = Some 1
          \<and> pc c3 = entry \<and> sp c3 = tos_init board_env - pid (pcb s2 ! 1) * 0x10000)"
    by (auto simp: zero_ctx_def str_def)
  have "arg 0 zero_ctx = Some 0" by (simp add: arg_def zero_ctx_def)
  with k [THEN spec, of zero_ctx, THEN spec, of s2, THEN spec, of "\<lambda>_. Called K", THEN spec, of 7] s2 obtain c3 s3 where "prog_run board_env (\<lambda>_. cexit) (zero_ctx, s2, \<lambda>_. Called K) (c3, s3, (\<lambda>_. Called K)(1 := Going cexit))" "pc c3 = 7"
    by blast
  with r show ?thesis by blast
qed

end
