(* ===== verification/Exchange.thy ===== *)
theory Exchange
  imports Runs
begin

text \<open>
  Two processes and a message queue: \<open>ping\<close> and \<open>pong\<close> send texts to each other byte by byte and
  print what they receive, under every interleaving with interrupts and with processes that
  leave the two, their queue and the console alone.
\<close>

section \<open>The two loops\<close>

definition send_from :: "u32 \<Rightarrow> u32 \<Rightarrow> nat \<Rightarrow> nat \<Rightarrow> unit prog \<Rightarrow> unit prog" where
  "send_from d p N n K = seq (send_all d p [n..<N]) (\<lambda>_. K)"

definition show_from :: "u32 \<Rightarrow> u32 \<Rightarrow> nat \<Rightarrow> nat \<Rightarrow> unit prog \<Rightarrow> unit prog" where
  "show_from d cb N m K = seq (show_all d cb [m..<N]) (\<lambda>_. K)"

text \<open>The receiver with a byte it has not printed.\<close>

definition print_from :: "u32 \<Rightarrow> u32 \<Rightarrow> nat \<Rightarrow> nat \<Rightarrow> unit prog \<Rightarrow> unit prog" where
  "print_from d cb N m K = Do (Call 1 [STDIO, cb, 1]) (\<lambda>_ _. show_from d cb N m K)"

lemma send_from_end [simp]: "send_from d p N N K = K"
  by (simp add: send_from_def send_all_def)

lemma show_from_end [simp]: "show_from d cb N N K = K"
  by (simp add: show_from_def show_all_def)

lemma send_from_step:
  assumes "n < N"
  shows "send_from d p N n K = Do (Call 9 [d, p + of_nat n, 1])
    (\<lambda>r _. if r = -1 then Do Look (\<lambda>_ _. send_from d p N n K) else send_from d p N (Suc n) K)"
proof -
  have s: "send_from d p N n K = seq (retry 9 [d, p + of_nat n, 1]) (\<lambda>_. send_from d p N (Suc n) K)"
    using assms by (simp add: send_from_def send_all_def upt_conv_Cons msgsend_def seq_assoc)
  show ?thesis by (rule seq_retry [of 9 "[d, p + of_nat n, 1]" "\<lambda>_. send_from d p N (Suc n) K", folded s])
qed

lemma show_from_step:
  assumes "m < N"
  shows "show_from d cb N m K = Do (Call 10 [d, cb, 1])
    (\<lambda>r _. if r = -1 then Do Look (\<lambda>_ _. show_from d cb N m K) else print_from d cb N (Suc m) K)"
proof -
  have s: "show_from d cb N m K = seq (retry 10 [d, cb, 1]) (\<lambda>_. print_from d cb N (Suc m) K)"
    using assms by (simp add: show_from_def show_all_def print_from_def upt_conv_Cons seq_assoc msgreceive_def write_u_def svc_def)
  show ?thesis by (rule seq_retry [of 10 "[d, cb, 1]" "\<lambda>_. print_from d cb N (Suc m) K", folded s])
qed

section \<open>Threads on their way\<close>

text \<open>A thread whose next action is that of \<open>P\<close>, but for looking at memory and for taking the result
  \<open>r\<close> of its last call.\<close>

definition heads_to :: "unit prog \<Rightarrow> thread \<Rightarrow> u32 option \<Rightarrow> bool" where
  "heads_to P th r \<longleftrightarrow> th = Going P \<or> th = Going (Do Look (\<lambda>_ _. P))
     \<or> (\<exists>k v. th = Called k \<and> r = Some v \<and> (\<forall>M. k v M = P \<or> k v M = Do Look (\<lambda>_ _. P)))"

lemma heads_toI: "heads_to P (Going P) r" "(\<And>M. k v M = P \<or> k v M = Do Look (\<lambda>_ _. P)) \<Longrightarrow> heads_to P (Called k) (Some v)"
  by (auto simp: heads_to_def)

lemma heads_to_step:
  assumes "heads_to P (T a) (arg 0 c)" and "current s = Some a" and "prog_step e code (c, s, T) = Some (c', s', T')" and "T a \<noteq> Going P"
  shows "c' = c \<and> s' = s \<and> (\<exists>th. T' = T(a := th) \<and> heads_to P th (arg 0 c))"
  using assms by (auto simp: heads_to_def prog_step_def)

lemma call_step:
  assumes "T a = Going (Do (Call i xs) k)" and "current s = Some a" and "prog_step e code (c, s, T) = Some (c', s', T')" and "i \<noteq> 3" "i \<noteq> 4"
  shows "kernel_handler_svc e i (load_args xs c) s = Some (c', s') \<and> T' = T(a := Called k)"
  using assms by (auto simp: prog_step_def after_call_def bind_eq_Some_conv)

section \<open>What the parts of the system agree on\<close>

text \<open>The sender \<open>a\<close> has put \<open>n\<close> bytes of the text \<open>t\<close> into the queue, the receiver \<open>b\<close> has taken \<open>m\<close> out.
  The conditions say where the receiver can be then and what the console shows, and what the
  queue holds and who may be waiting: the sender for its message to be taken, or, when it has
  sent everything, as a receiver of what \<open>b\<close> will send; the receiver for a message.\<close>

definition receiver_at :: "u32 \<Rightarrow> u32 \<Rightarrow> byte list \<Rightarrow> unit prog \<Rightarrow> byte list \<Rightarrow> nat \<Rightarrow> byte \<Rightarrow> byte list \<Rightarrow> thread \<Rightarrow> u32 option \<Rightarrow> bool" where
  "receiver_at d cb t K x0 m x out th r \<longleftrightarrow>
     out = x0 @ take m t \<and> heads_to (show_from d cb (length t) m K) th r
     \<or> (\<exists>k. m = Suc k \<and> x = t ! k \<and> out = x0 @ take k t \<and> heads_to (print_from d cb (length t) m K) th r)"

definition queue_at :: "nat \<Rightarrow> nat \<Rightarrow> byte list \<Rightarrow> nat \<Rightarrow> nat \<Rightarrow> mqueue \<Rightarrow> pst_t \<Rightarrow> pst_t \<Rightarrow> bool" where
  "queue_at a b t n m q pa pb \<longleftrightarrow> m \<le> n \<and> n \<le> Suc m \<and> n \<le> length t \<and> msg_qnum q = (if n = m then 0 else 1)
     \<and> (n = Suc m \<longrightarrow> msg_qbuf q ! 0 = t ! m \<and> msg_lspid q = of_nat a)
     \<and> pa \<in> {EXECUTING, WAITING} \<and> pb \<in> {EXECUTING, WAITING}
     \<and> (pa = WAITING \<longrightarrow> n = Suc m \<or> n = length t \<and> msg_qrec q = 1 \<and> msg_lrpid q = of_nat a)
     \<and> (pb = WAITING \<longrightarrow> n = m \<and> n < length t \<and> msg_qrec q = 1 \<and> msg_lrpid q = of_nat b)"

text \<open>What holds at all times: the texts \<open>ts\<close> are where they were and both processes are queued.\<close>

definition duo_state :: "(u32 \<times> byte list) set \<Rightarrow> nat \<Rightarrow> nat \<Rightarrow> ctx_t \<Rightarrow> ('h, 'a) kernel_scheme \<Rightarrow> bool" where
  "duo_state ts a b c s \<longleftrightarrow> (\<exists>ql. sched_inv s ql \<and> a \<in> set ql \<and> b \<in> set ql) \<and> mq_inv s
     \<and> (\<forall>(p, t) \<in> ts. bytes_at (mem s) p (length t) = t)
     \<and> 3 \<le> length (gpr (proc_ctx c s a)) \<and> 3 \<le> length (gpr (proc_ctx c s b))"

definition duo_at :: "(u32 \<times> byte list) set \<Rightarrow> u32 \<Rightarrow> nat \<Rightarrow> nat \<Rightarrow> u32 \<Rightarrow> u32 \<Rightarrow> byte list \<Rightarrow> unit prog \<Rightarrow> unit prog \<Rightarrow> byte list \<Rightarrow> nat \<Rightarrow> nat \<Rightarrow>
    ctx_t \<times> ('h, 'a) kernel_scheme \<times> (nat \<Rightarrow> thread) \<Rightarrow> bool" where
  "duo_at ts d a b p cb t Ka Kb x0 n m st \<longleftrightarrow> (case st of (c, s, T) \<Rightarrow> duo_state ts a b c s
     \<and> heads_to (send_from d p (length t) n Ka) (T a) (arg 0 (proc_ctx c s a))
     \<and> receiver_at d cb t Kb x0 m (mem s cb) (tx (uart0 s)) (T b) (arg 0 (proc_ctx c s b))
     \<and> queue_at a b t n m (mq s ! unat d) (pst (pcb s ! a)) (pst (pcb s ! b)))"

text \<open>The local variable \<open>cb\<close> of the receiver is outside the texts.\<close>

definition apart :: "(u32 \<times> byte list) set \<Rightarrow> u32 \<Rightarrow> nat \<Rightarrow> nat \<Rightarrow> u32 \<Rightarrow> bool" where
  "apart ts d a b cb \<longleftrightarrow> a < 8 \<and> b < 8 \<and> a \<noteq> b \<and> unat d < 32 \<and> (\<forall>(p, t) \<in> ts. \<forall>k<length t. p + of_nat k \<noteq> cb)"

lemma duo_atD:
  assumes "duo_at ts d a b p cb t Ka Kb x0 n m (c, s, T)"
  shows "duo_state ts a b c s" "heads_to (send_from d p (length t) n Ka) (T a) (arg 0 (proc_ctx c s a))"
    "receiver_at d cb t Kb x0 m (mem s cb) (tx (uart0 s)) (T b) (arg 0 (proc_ctx c s b))"
    "queue_at a b t n m (mq s ! unat d) (pst (pcb s ! a)) (pst (pcb s ! b))"
  using assms by (simp_all add: duo_at_def)

lemma duo_stateD:
  assumes "duo_state ts a b c s" and "apart ts d a b cb"
  obtains ql where "sched_inv s ql" "a \<in> set ql" "b \<in> set ql" "length (pcb s) = 8"
  using assms that by (auto simp: duo_state_def sched_inv_def ready_def)

section \<open>The scheduler does not disturb them\<close>

lemma more_same:
  fixes s s' :: "('h, 'a) kernel_scheme"
  assumes "fd_view s' = fd_view s"
  shows "mem s' = mem s" "mq s' = mq s" "uart0 s' = uart0 s"
proof -
  have "procs.more s' = procs.more s" using assms by (simp add: fd_view_def)
  then show "mem s' = mem s" "mq s' = mq s" "uart0 s' = uart0 s" by (cases s; cases s'; simp)+
qed

lemma scheduler_view:
  fixes s :: "('h, 'a) kernel_scheme"
  assumes inv: "sched_inv s ql" and ex: "a \<in> set ql" "executing s a"
  shows "\<exists>c' s' ql'. scheduler c s = Some (c', s') \<and> sched_inv s' ql' \<and> set ql' = set ql
    \<and> (\<forall>p<8. proc_ctx c' s' p = proc_ctx c s p \<and> pst (pcb s' ! p) = pst (pcb s ! p))
    \<and> mem s' = mem s \<and> mq s' = mq s \<and> uart0 s' = uart0 s"
proof -
  let ?r = "tl ql @ [hd ql]" and ?n = "\<lambda>p. \<not> executing s p"
  from scheduler_first [OF inv, of c] ex obtain c' s' where
    s': "scheduler c s = Some (c', s')" "sched_inv s' (dropWhile ?n ?r @ takeWhile ?n ?r)"
      "\<forall>p<8. proc_ctx c' s' p = proc_ctx c s p" "\<forall>p<8. pst (pcb s' ! p) = pst (pcb s ! p)" by blast
  have "set (dropWhile ?n ?r @ takeWhile ?n ?r) = set (takeWhile ?n ?r @ dropWhile ?n ?r)" by (simp only: set_append Un_commute)
  also have "\<dots> = set ?r" by (simp only: takeWhile_dropWhile_id)
  also have "\<dots> = set ql" using ex(1) by (cases ql) auto
  finally show ?thesis using s' more_same [OF scheduler_fds [OF s'(1)]] by blast
qed

lemma duo_executing:
  assumes "duo_at ts d a b p cb t Ka Kb x0 n m (c, s, T)"
  shows "executing s a \<or> executing s b"
  using duo_atD(4) [OF assms(1)] by (auto simp: queue_at_def executing_def)

lemma duo_scheduler:
  fixes s :: "('h, 'a) kernel_scheme"
  assumes inv: "duo_at ts d a b p cb t Ka Kb x0 n m (c, s, T)" and ap: "apart ts d a b cb" and run: "scheduler c s = Some (c', s')"
  shows "duo_at ts d a b p cb t Ka Kb x0 n m (c', s', T)"
proof -
  note D = duo_atD [OF inv]
  obtain ql where ql: "sched_inv s ql" "a \<in> set ql" "b \<in> set ql" using duo_stateD [OF D(1) ap] by blast
  have ab: "a < 8" "b < 8" using ap by (simp_all add: apart_def)
  obtain x where x: "x \<in> set ql" "executing s x" using duo_executing [OF inv] ql(2,3) by blast
  from scheduler_view [OF ql(1) x, of c] run obtain ql' where s': "sched_inv s' ql'" "set ql' = set ql"
    "\<forall>p<8. proc_ctx c' s' p = proc_ctx c s p \<and> pst (pcb s' ! p) = pst (pcb s ! p)" "mem s' = mem s" "mq s' = mq s" "uart0 s' = uart0 s" by auto
  have "mq_inv s'" using D(1) s'(5) by (simp add: duo_state_def mq_inv_def)
  then have "duo_state ts a b c' s'" using D(1) s' ab ql(2,3) unfolding duo_state_def by auto
  then show ?thesis using D s' ab unfolding duo_at_def by simp
qed

section \<open>Calls\<close>

lemma ctx_update: "ctx y = ctx (xs ! a) \<Longrightarrow> ctx (xs[a := y] ! p) = ctx (xs ! p)"
  by (cases "a < length xs"; cases "p = a") (simp_all add: list_update_beyond)

lemma proc_ctx_effects [simp]:
  "proc_ctx c (set_wait a s) p = proc_ctx c s p" "proc_ctx c (set_cont a s) p = proc_ctx c s p"
  "proc_ctx c (k\<lparr>mq := t\<rparr>) p = proc_ctx c k p" "proc_ctx c (k\<lparr>mem := m\<rparr>) p = proc_ctx c k p" "proc_ctx c (mem_write x xs k) p = proc_ctx c k p"
  by (simp_all add: proc_ctx_def set_wait_def set_cont_def ctx_update mem_write_def)

lemma uart_effects [simp]: "uart0 (set_wait a s) = uart0 s" "uart0 (set_cont a s) = uart0 s" "uart0 (mem_write x xs s) = uart0 s"
  for s :: "('h, 'a) kernel_scheme"
  by (simp_all add: set_wait_def set_cont_def mem_write_def)

text \<open>A call of the running process \<open>x\<close> that returns in \<open>c1\<close>.\<close>

lemma duo_returned:
  assumes "duo_state ts a b c s" and "current s = Some x" "current s1 = Some x" and "\<And>y. proc_ctx c s1 y = proc_ctx c s y"
    and "sched_inv s1 ql" "a \<in> set ql" "b \<in> set ql" and "mq_inv s1" and "\<forall>(p, t) \<in> ts. bytes_at (mem s1) p (length t) = t"
    and "length (gpr c1) = length (gpr c)"
  shows "duo_state ts a b c1 s1" and "proc_ctx c1 s1 y = (if y = x then c1 else proc_ctx c s y)"
proof -
  have p: "proc_ctx c1 s1 y = (if y = x then c1 else proc_ctx c s y)" for y
    using assms(3) assms(4) [of y] by (auto simp: proc_ctx_def)
  then show "proc_ctx c1 s1 y = (if y = x then c1 else proc_ctx c s y)" .
  have "proc_ctx c s x = c" using assms(2) by (simp add: proc_ctx_def)
  then show "duo_state ts a b c1 s1" using assms(1,5-10) by (auto simp: duo_state_def p)
qed

lemma set_r0_args:
  assumes "3 \<le> length (gpr c)"
  shows "\<exists>c'. set_r0 r (load_args [x, y, z] c) = Some c' \<and> arg 0 c' = Some r \<and> length (gpr c') = length (gpr c)"
    and "arg 0 (load_args [x, y, z] c) = Some x" "arg 1 (load_args [x, y, z] c) = Some y" "arg 2 (load_args [x, y, z] c) = Some z"
  using assms set_r0_load [of "[x, y, z]" c r] by (simp_all add: arg_def load_args_simps)

lemma wait_cont:
  fixes s :: "('h, 'a) kernel_scheme" and x :: u32
  assumes "sched_inv s ql" and "a < 8" and "unat x < 8"
  shows "sched_inv (set_wait a s) ql" "sched_inv (set_cont (unat x) s) ql" "sched_inv (set_cont (unat x) (set_wait a s)) ql"
proof -
  have u: "unat (of_nat a :: u32) = a" using assms(2) by (simp add: unat_of_nat_u32)
  show w: "sched_inv (set_wait a s) ql" using kill_effects(2) [OF assms(1), of "of_nat a"] assms(2) u by simp
  show "sched_inv (set_cont (unat x) s) ql" "sched_inv (set_cont (unat x) (set_wait a s)) ql"
    using kill_effects(4) [OF assms(1,3)] kill_effects(4) [OF w assms(3)] by simp_all
qed

text \<open>The two ways a call on the queue ends: with a result for the caller, or with -1 and a turn of
  the scheduler. The number \<open>i\<close> is that of sending or receiving.\<close>

definition queue_call :: "u32 \<Rightarrow> u32 \<Rightarrow> u32 \<Rightarrow> 'a chans_scheme \<Rightarrow> (u32 \<times> 'a chans_scheme) option" where
  "queue_call i d x s = (if i = 9 then mq_send d x 1 s else mq_receive d x 1 s)"

lemma queue_call_svc:
  fixes s :: "('h, 'a) kernel_scheme"
  assumes "3 \<le> length (gpr c)" and "i = 9 \<or> i = 10" and "queue_call i d x s = Some (r, s1)"
    and "kernel_handler_svc e i (load_args [d, x, 1] c) s = Some (c', s')"
  shows "\<exists>c1. arg 0 c1 = Some r \<and> length (gpr c1) = length (gpr c)
    \<and> (if r = -1 then scheduler c1 s1 = Some (c', s') else c' = c1 \<and> s' = s1)"
proof -
  obtain c1 where c1: "set_r0 r (load_args [d, x, 1] c) = Some c1" "arg 0 c1 = Some r" "length (gpr c1) = length (gpr c)"
    using set_r0_args(1) [OF assms(1)] by blast
  have "or_wait r (load_args [d, x, 1] c) s1 = Some (c', s')"
    using assms(2-4) set_r0_args(2-4) [OF assms(1), of d x 1]
    by (auto simp: kernel_handler_svc_def svc_send_def svc_receive_def queue_call_def)
  then show ?thesis using c1 by (auto simp: or_wait_def split: if_splits)
qed

text \<open>Whichever way, it is enough that the two agree in the state in which the call leaves the queue.\<close>

lemma duo_queue_call:
  fixes s :: "('h, 'a) kernel_scheme"
  assumes ds: "duo_state ts a b c s" and ap: "apart ts d a b cb" and cur: "current s = Some x" "x = a \<or> x = b"
    and i: "i = 9 \<or> i = 10" and call: "queue_call i d y s = Some (r, s1)"
    and run: "kernel_handler_svc e i (load_args [d, y, 1] c) s = Some (c', s')"
    and s1: "current s1 = Some x" "\<And>y. proc_ctx c s1 y = proc_ctx c s y" "\<And>ql. sched_inv s ql \<Longrightarrow> sched_inv s1 ql" "mq_inv s1"
      "\<forall>(p, t) \<in> ts. bytes_at (mem s1) p (length t) = t"
    and agree: "\<And>c1. duo_state ts a b c1 s1 \<Longrightarrow> arg 0 c1 = Some r \<Longrightarrow> (\<And>y. proc_ctx c1 s1 y = (if y = x then c1 else proc_ctx c s y)) \<Longrightarrow>
      duo_at ts d a b p cb t Ka Kb x0 n m (c1, s1, T)"
  shows "duo_at ts d a b p cb t Ka Kb x0 n m (c', s', T)"
proof -
  obtain ql where ql: "sched_inv s ql" "a \<in> set ql" "b \<in> set ql" using duo_stateD [OF ds ap] by blast
  have "proc_ctx c s x = c" using cur(1) by (simp add: proc_ctx_def)
  then have g: "3 \<le> length (gpr c)" using ds cur(2) by (auto simp: duo_state_def)
  from queue_call_svc [OF g i call run] obtain c1 where c1: "arg 0 c1 = Some r" "length (gpr c1) = length (gpr c)"
    "if r = -1 then scheduler c1 s1 = Some (c', s') else c' = c1 \<and> s' = s1" by blast
  note ret = duo_returned [OF ds cur(1) s1(1,2) s1(3) [OF ql(1)] ql(2,3) s1(4,5) c1(2)]
  have "duo_at ts d a b p cb t Ka Kb x0 n m (c1, s1, T)" by (rule agree [OF ret(1) c1(1) ret(2)])
  then show ?thesis using c1(3) duo_scheduler [OF _ ap] by (auto split: if_splits)
qed

section \<open>The calls of the two\<close>

text \<open>A queue operation leaves the invariant of the queues when the new contents of queue \<open>d\<close> do.\<close>

lemma mq_inv_set:
  assumes "mq_inv s" and "mq s1 = (mq s)[unat d := q]" and "length (msg_qbuf q) = 64" "msg_qnum q \<le> 1" "msg_qrec q \<le> 1"
    "unat (msg_lspid q) < 8" "unat (msg_lrpid q) < 8"
  shows "mq_inv s1"
  using mq_inv_upd [OF assms(1,3-7), of "unat d"] assms(2) by (simp add: mq_inv_def)

lemma duo_sent:
  fixes s :: "('h, 'a) kernel_scheme"
  assumes D: "duo_at ts d a b p cb t Ka Kb x0 n n (c, s, T)" and ap: "apart ts d a b cb" and n: "n < length t"
    and cur: "current s = Some a" and call: "queue_call 9 d y s = Some (r, s1)" and rd: "mem_read s y 1 = [t ! n]"
  defines "q \<equiv> mq s ! unat d"
  shows "r = 0" "current s1 = Some a" "proc_ctx c s1 z = proc_ctx c s z" "sched_inv s ql \<Longrightarrow> sched_inv s1 ql" "mq_inv s1"
    and "mem s1 = mem s" "uart0 s1 = uart0 s" "queue_at a b t (Suc n) n (mq s1 ! unat d) (pst (pcb s1 ! a)) (pst (pcb s1 ! b))"
proof -
  note D = duo_atD [OF D]
  obtain l where ql: "sched_inv s l" "length (pcb s) = 8" using duo_stateD [OF D(1) ap] by blast
  have ab: "a < 8" "b < 8" "a \<noteq> b" "unat d < 32" and mi: "mq_inv s" using ap D(1) by (simp_all add: apart_def duo_state_def)
  note qi = mq_inv_nth [OF mi ab(4), folded q_def] and qa = D(4) [folded q_def]
  have len: "length (pcb (set_wait a s)) = 8" using ql(2) by (simp add: set_wait_def)
  have ua: "unat (of_nat a :: u32) = a" "unat (of_nat b :: u32) = b" using ab by (simp_all add: unat_of_nat_u32)
  have "msg_qnum q = 0" using qa by (simp add: queue_at_def)
  from mq_send_empty [OF ql(1) cur mi ab(4) this [unfolded q_def], of 1 y, folded q_def] rd call
  have r: "r = 0" and s1: "s1 = (if msg_qrec q = 1 then set_cont (unat (msg_lrpid q)) (set_wait a s) else set_wait a s)
      \<lparr>mq := (mq s)[unat d := sent a [t ! n] q]\<rparr>" by (simp_all add: queue_call_def)
  show "r = 0" by (rule r)
  show "current s1 = Some a" "proc_ctx c s1 z = proc_ctx c s z" "mem s1 = mem s" "uart0 s1 = uart0 s" using cur by (simp_all add: s1)
  show "sched_inv s ql \<Longrightarrow> sched_inv s1 ql" using wait_cont [OF _ ab(1) qi(6), of s ql] by (simp add: s1)
  have m1: "mq s1 = (mq s)[unat d := sent a [t ! n] q]" by (simp add: s1)
  show "mq_inv s1" by (rule mq_inv_set [OF mi m1]) (use qi ab(1) ua in \<open>simp_all add: sent_def\<close>)
  have "pst (pcb s1 ! b) = EXECUTING" "pst (pcb s1 ! a) \<in> {EXECUTING, WAITING}"
    using qa ab ql(2) len ua pst_effects [of s] pst_effects [of "set_wait a s"] by (auto simp: s1 queue_at_def)
  moreover have "mq s1 ! unat d = sent a [t ! n] q" using qi(1) ab(4) by (simp add: m1)
  ultimately show "queue_at a b t (Suc n) n (mq s1 ! unat d) (pst (pcb s1 ! a)) (pst (pcb s1 ! b))"
    using n by (simp add: queue_at_def sent_def)
qed

text \<open>A call that ends with the caller \<open>x\<close> waiting and the queue as \<open>q\<close>.\<close>

lemma duo_waits:
  fixes s :: "('h, 'a) kernel_scheme"
  assumes D: "duo_at ts d a b p cb t Ka Kb x0 n m (c, s, T)" and ap: "apart ts d a b cb" and cur: "current s = Some x" "x = a \<or> x = b"
    and i: "i = 9 \<or> i = 10" and call: "queue_call i d y s = Some (-1, (set_wait x s)\<lparr>mq := (mq s)[unat d := q]\<rparr>)"
    and run: "kernel_handler_svc e i (load_args [d, y, 1] c) s = Some (c', s')"
    and q: "length (msg_qbuf q) = 64" "msg_qnum q \<le> 1" "msg_qrec q \<le> 1" "unat (msg_lspid q) < 8" "unat (msg_lrpid q) < 8"
    and qa: "queue_at a b t n m q (if x = a then WAITING else pst (pcb s ! a)) (if x = b then WAITING else pst (pcb s ! b))"
    and th: "x = a \<Longrightarrow> heads_to (send_from d p (length t) n Ka) th (Some (-1))"
      "x = b \<Longrightarrow> receiver_at d cb t Kb x0 m (mem s cb) (tx (uart0 s)) th (Some (-1))"
  shows "duo_at ts d a b p cb t Ka Kb x0 n m (c', s', T(x := th))"
proof -
  define s1 where "s1 = (set_wait x s)\<lparr>mq := (mq s)[unat d := q]\<rparr>"
  note Ds = duo_atD [OF D] and call = call [folded s1_def]
  have ab: "a < 8" "b < 8" "a \<noteq> b" "unat d < 32" and mi: "mq_inv s" using ap Ds(1) by (simp_all add: apart_def duo_state_def)
  have tm: "\<forall>(p, t) \<in> ts. bytes_at (mem s) p (length t) = t" using Ds(1) by (simp add: duo_state_def)
  obtain ql where ql: "sched_inv s ql" "length (pcb s) = 8" using duo_stateD [OF Ds(1) ap] by blast
  have x: "x < 8" using ab cur(2) by blast
  have mi1: "mq_inv s1" by (rule mq_inv_set [OF mi _ q, of s1 d]) (simp add: s1_def)
  have "mq s1 ! unat d = q" using mq_inv_nth(1) [OF mi ab(4)] ab(4) by (simp add: s1_def)
  moreover have "pst (pcb s1 ! z) = (if x = z then WAITING else pst (pcb s ! z))" if "z < 8" for z
    using pst_effects(1) [OF ql(2) that, of x] by (auto simp: s1_def)
  ultimately have q1: "queue_at a b t n m (mq s1 ! unat d) (pst (pcb s1 ! a)) (pst (pcb s1 ! b))" using qa ab by simp
  show ?thesis
  proof (rule duo_queue_call [OF Ds(1) ap cur i call run])
    fix c1 assume "duo_state ts a b c1 s1" "arg 0 c1 = Some (-1)" "\<And>y. proc_ctx c1 s1 y = (if y = x then c1 else proc_ctx c s y)"
    then show "duo_at ts d a b p cb t Ka Kb x0 n m (c1, s1, T(x := th))"
      using Ds(2,3) q1 ab(3) th cur(2) by (auto simp: duo_at_def) (simp_all add: s1_def)
  qed (use mi1 tm cur wait_cont(1) [OF _ x, of s _ 0] in \<open>simp_all add: s1_def\<close>)
qed

lemma duo_send:
  fixes s :: "('h, 'a) kernel_scheme"
  assumes D: "duo_at ts d a b p cb t Ka Kb x0 n m (c, s, T)" and ap: "apart ts d a b cb" and pt: "(p, t) \<in> ts" and n: "n < length t"
    and cur: "current s = Some a" and T: "T a = Going (send_from d p (length t) n Ka)"
    and st: "prog_step e code (c, s, T) = Some (c', s', T')"
  shows "\<exists>n'. duo_at ts d a b p cb t Ka Kb x0 n' m (c', s', T')"
proof -
  let ?y = "p + of_nat n" and ?k = "\<lambda>r _. if r = -1 then Do Look (\<lambda>_ _. send_from d p (length t) n Ka) else send_from d p (length t) (Suc n) Ka"
  from call_step [OF trans [OF T arg_cong [OF send_from_step [OF n], of Going]] cur st]
  have h: "kernel_handler_svc e 9 (load_args [d, ?y, 1] c) s = Some (c', s')" and T': "T' = T(a := Called ?k)" by simp_all
  note Ds = duo_atD [OF D]
  obtain ql where ql: "sched_inv s ql" "length (pcb s) = 8" using duo_stateD [OF Ds(1) ap] by blast
  have ab: "a < 8" "b < 8" "a \<noteq> b" "unat d < 32" and mi: "mq_inv s" using ap Ds(1) by (simp_all add: apart_def duo_state_def)
  have tm: "\<forall>(p, t) \<in> ts. bytes_at (mem s) p (length t) = t" using Ds(1) by (simp add: duo_state_def)
  then have "bytes_at (mem s) p (length t) = t" using pt by blast
  moreover have "mem_read s ?y 1 = [bytes_at (mem s) p (length t) ! n]" using n by (simp add: mem_read_def bytes_at_def)
  ultimately have rd: "mem_read s ?y 1 = [t ! n]" by simp
  note qi = mq_inv_nth [OF mi ab(4)]
  show ?thesis
  proof (cases "n = m")
    case True
    obtain r s1 where call: "queue_call 9 d ?y s = Some (r, s1)"
      using mq_send_empty [OF ql(1) cur mi ab(4), of 1 ?y] Ds(4) True by (auto simp: queue_call_def queue_at_def)
    note eff = duo_sent [OF D [folded True] ap n cur call rd]
    have "duo_at ts d a b p cb t Ka Kb x0 (Suc n) m (c', s', T')"
    proof (rule duo_queue_call [OF Ds(1) ap cur _ _ call h eff(2,3) eff(4)])
      fix c1 assume "duo_state ts a b c1 s1" "arg 0 c1 = Some r" "\<And>y. proc_ctx c1 s1 y = (if y = a then c1 else proc_ctx c s y)"
      then show "duo_at ts d a b p cb t Ka Kb x0 (Suc n) m (c1, s1, T')"
        using Ds(3) eff ab(3) True T' by (auto simp: duo_at_def intro!: heads_toI)
    qed (use eff tm in simp_all)
    then show ?thesis by blast
  next
    case False
    then have nm: "n = Suc m" using Ds(4) by (auto simp: queue_at_def)
    have ua: "unat (of_nat a :: u32) = a" using ab(1) by (simp add: unat_of_nat_u32)
    have "msg_qnum (mq s ! unat d) \<noteq> 0" using Ds(4) nm by (simp add: queue_at_def)
    then have call: "queue_call 9 d ?y s = Some (-1, (set_wait a s)\<lparr>mq := (mq s)[unat d := (mq s ! unat d)\<lparr>msg_lspid := of_nat a\<rparr>]\<rparr>)"
      using mq_send_full [OF ql(1) cur mi ab(4)] by (simp add: queue_call_def)
    have "duo_at ts d a b p cb t Ka Kb x0 n m (c', s', T')" unfolding T'
      by (rule duo_waits [OF D ap cur _ _ call h])
        (use qi ua ab Ds(4) nm in \<open>auto simp: queue_at_def intro!: heads_toI\<close>)
    then show ?thesis by blast
  qed
qed

text \<open>The sender, once everything is sent, as a receiver.\<close>

lemma duo_idle:
  fixes s :: "('h, 'a) kernel_scheme"
  assumes D: "duo_at ts d a b p cb t Ka Kb x0 (length t) m (c, s, T)" and ap: "apart ts d a b cb" and t: "t \<noteq> []"
    and Ka: "Ka = show_from d cb' N 0 K" "0 < N" and cur: "current s = Some a" and T: "T a = Going Ka"
    and st: "prog_step e code (c, s, T) = Some (c', s', T')"
  shows "duo_at ts d a b p cb t Ka Kb x0 (length t) m (c', s', T')"
proof -
  let ?k = "\<lambda>r _. if r = -1 then Do Look (\<lambda>_ _. Ka) else print_from d cb' N (Suc 0) K"
  have "T a = Going (Do (Call 10 [d, cb', 1]) ?k)" 
    by (rule trans [OF T arg_cong [OF show_from_step [OF Ka(2), of d cb' K, folded Ka(1)], of Going]])
  from call_step [OF this cur st]
  have h: "kernel_handler_svc e 10 (load_args [d, cb', 1] c) s = Some (c', s')" and T': "T' = T(a := Called ?k)" by simp_all
  note Ds = duo_atD [OF D]
  obtain ql where ql: "sched_inv s ql" using duo_stateD [OF Ds(1) ap] by blast
  have ab: "a < 8" "b < 8" "a \<noteq> b" "unat d < 32" and mi: "mq_inv s" using ap Ds(1) by (simp_all add: apart_def duo_state_def)
  have ua: "unat (of_nat a :: u32) = a" using ab(1) by (simp add: unat_of_nat_u32)
  have "msg_qnum (mq s ! unat d) = 0 \<or> msg_lspid (mq s ! unat d) = of_nat a" using Ds(4) by (auto simp: queue_at_def)
  from mq_receive_none [OF ql cur mi ab(4) this] have call: "queue_call 10 d cb' s = Some (-1, (set_wait a s)
      \<lparr>mq := (mq s)[unat d := (mq s ! unat d)\<lparr>msg_lrpid := of_nat a, msg_qrec := 1\<rparr>]\<rparr>)" by (simp add: queue_call_def)
  show ?thesis unfolding T'
    by (rule duo_waits [OF D ap cur _ _ call h])
      (use mq_inv_nth [OF mi ab(4)] ua ab Ds(4) t in \<open>auto simp: queue_at_def intro!: heads_toI\<close>)
qed

lemma bytes_outside:
  assumes "\<forall>k<n. p + of_nat k \<noteq> y"
  shows "bytes_at (\<lambda>z. if z = y then x else M z) p n = bytes_at M p n"
  using assms by (simp add: bytes_at_def)

lemma mem_write_byte: "mem (mem_write y [x] s) = (\<lambda>z. if z = y then x else mem s z)"
proof -
  have "(unat (z - y) < 1) = (z = y)" for z :: u32 by (simp add: unat_eq_0 right_minus_eq)
  then show ?thesis by (auto simp: mem_write_def fun_eq_iff)
qed

lemma duo_received:
  fixes s :: "('h, 'a) kernel_scheme"
  assumes D: "duo_at ts d a b p cb t Ka Kb x0 (Suc m) m (c, s, T)" and ap: "apart ts d a b cb"
    and cur: "current s = Some b" and call: "queue_call 10 d cb s = Some (r, s1)"
  shows "r = 1" "current s1 = Some b" "proc_ctx c s1 z = proc_ctx c s z" "sched_inv s ql \<Longrightarrow> sched_inv s1 ql" "mq_inv s1"
    and "mem s1 = (\<lambda>z. if z = cb then t ! m else mem s z)" "uart0 s1 = uart0 s"
    and "queue_at a b t (Suc m) (Suc m) (mq s1 ! unat d) (pst (pcb s1 ! a)) (pst (pcb s1 ! b))"
proof -
  let ?q = "mq s ! unat d"
  note D = duo_atD [OF D]
  obtain l where ql: "sched_inv s l" "length (pcb s) = 8" using duo_stateD [OF D(1) ap] by blast
  have ab: "a < 8" "b < 8" "a \<noteq> b" "unat d < 32" and mi: "mq_inv s" using ap D(1) by (simp_all add: apart_def duo_state_def)
  note qi = mq_inv_nth [OF mi ab(4)]
  have ua: "unat (of_nat a :: u32) = a" "unat (of_nat b :: u32) = b" using ab by (simp_all add: unat_of_nat_u32)
  have q: "msg_qnum ?q = 1" "msg_lspid ?q = of_nat a" "msg_qbuf ?q ! 0 = t ! m" using D(4) by (simp_all add: queue_at_def)
  have "msg_lspid ?q \<noteq> of_nat b" using q(2) of_nat_small_eq [OF ab(1,2)] ab(3) by simp
  moreover have "take 1 (msg_qbuf ?q) = [t ! m]" using qi(2) q(3) by (cases "msg_qbuf ?q") auto
  ultimately have "r = 1 \<and> s1 = mem_write cb [t ! m] ((set_cont a s)\<lparr>mq := (mq s)[unat d := ?q\<lparr>msg_lrpid := of_nat b, msg_qnum := 0\<rparr>]\<rparr>)"
    using mq_receive_message [OF ql(1) cur mi ab(4) q(1), of 1 cb] call q(2) ua(1) by (simp add: queue_call_def)
  then have r: "r = 1" and s1: "s1 = mem_write cb [t ! m] ((set_cont a s)\<lparr>mq := (mq s)[unat d := ?q\<lparr>msg_lrpid := of_nat b, msg_qnum := 0\<rparr>]\<rparr>)"
    by blast+
  show "r = 1" by (rule r)
  show "current s1 = Some b" "proc_ctx c s1 z = proc_ctx c s z" "uart0 s1 = uart0 s" using cur by (simp_all add: s1) (simp add: mem_write_def)
  show "mem s1 = (\<lambda>z. if z = cb then t ! m else mem s z)" by (auto simp: s1 mem_write_byte fun_eq_iff)
  show "sched_inv s ql \<Longrightarrow> sched_inv s1 ql" using wait_cont(2) [of s ql a "of_nat a"] ab(1) ua(1) by (simp add: s1 mem_write_def)
  have m1: "mq s1 = (mq s)[unat d := ?q\<lparr>msg_lrpid := of_nat b, msg_qnum := 0\<rparr>]" by (simp add: s1 mem_write_def)
  show "mq_inv s1" by (rule mq_inv_set [OF mi m1]) (use qi ab(2) ua in simp_all)
  have "pcb s1 = pcb (set_cont a s)" by (simp add: s1 mem_write_def)
  then have "pst (pcb s1 ! b) = EXECUTING" "pst (pcb s1 ! a) = EXECUTING"
    using D(4) ab ql(2) pst_effects(2) [of s _ a] by (auto simp: queue_at_def)
  moreover have "mq s1 ! unat d = ?q\<lparr>msg_lrpid := of_nat b, msg_qnum := 0\<rparr>" using qi(1) ab(4) by (simp add: m1)
  ultimately show "queue_at a b t (Suc m) (Suc m) (mq s1 ! unat d) (pst (pcb s1 ! a)) (pst (pcb s1 ! b))"
    using D(4) by (simp add: queue_at_def)
qed

lemma duo_receive:
  fixes s :: "('h, 'a) kernel_scheme"
  assumes D: "duo_at ts d a b p cb t Ka Kb x0 n m (c, s, T)" and ap: "apart ts d a b cb" and m: "m < length t"
    and cur: "current s = Some b" and T: "T b = Going (show_from d cb (length t) m Kb)" and out: "tx (uart0 s) = x0 @ take m t"
    and st: "prog_step e code (c, s, T) = Some (c', s', T')"
  shows "\<exists>m'. duo_at ts d a b p cb t Ka Kb x0 n m' (c', s', T')"
proof -
  let ?k = "\<lambda>r _. if r = -1 then Do Look (\<lambda>_ _. show_from d cb (length t) m Kb) else print_from d cb (length t) (Suc m) Kb"
  from call_step [OF trans [OF T arg_cong [OF show_from_step [OF m], of Going]] cur st]
  have h: "kernel_handler_svc e 10 (load_args [d, cb, 1] c) s = Some (c', s')" and T': "T' = T(b := Called ?k)" by simp_all
  note Ds = duo_atD [OF D]
  obtain ql where ql: "sched_inv s ql" using duo_stateD [OF Ds(1) ap] by blast
  have ab: "a < 8" "b < 8" "a \<noteq> b" "unat d < 32" and mi: "mq_inv s" using ap Ds(1) by (simp_all add: apart_def duo_state_def)
  have tm: "\<forall>(p, t) \<in> ts. bytes_at (mem s) p (length t) = t" using Ds(1) by (simp add: duo_state_def)
  show ?thesis
  proof (cases "n = m")
    case True
    have ub: "unat (of_nat b :: u32) = b" using ab(2) by (simp add: unat_of_nat_u32)
    have "msg_qnum (mq s ! unat d) = 0" using Ds(4) True by (simp add: queue_at_def)
    then have call: "queue_call 10 d cb s = Some (-1, (set_wait b s)\<lparr>mq := (mq s)[unat d := (mq s ! unat d)\<lparr>msg_lrpid := of_nat b, msg_qrec := 1\<rparr>]\<rparr>)"
      using mq_receive_none [OF ql cur mi ab(4)] by (simp add: queue_call_def)
    have "duo_at ts d a b p cb t Ka Kb x0 n m (c', s', T')" unfolding T'
      by (rule duo_waits [OF D ap cur _ _ call h])
        (use mq_inv_nth [OF mi ab(4)] ub ab Ds(4) True m out in \<open>auto simp: queue_at_def receiver_at_def intro!: heads_toI\<close>)
    then show ?thesis by blast
  next
    case False
    then have nm: "n = Suc m" using Ds(4) by (auto simp: queue_at_def)
    then have D1: "duo_at ts d a b p cb t Ka Kb x0 (Suc m) m (c, s, T)" using D by simp
    have "msg_lspid (mq s ! unat d) \<noteq> of_nat b" "msg_qnum (mq s ! unat d) = 1"
      using Ds(4) nm of_nat_small_eq [OF ab(1,2)] ab(3) by (auto simp: queue_at_def)
    then obtain r s1 where call: "queue_call 10 d cb s = Some (r, s1)"
      using mq_receive_message [OF ql cur mi ab(4), of 1 cb] by (simp add: queue_call_def)
    note eff = duo_received [OF D1 ap cur call]
    have tm1: "\<forall>(p, t) \<in> ts. bytes_at (mem s1) p (length t) = t"
    proof (intro ballI, clarify)
      fix p' t' assume "(p', t') \<in> ts"
      with tm ap have "bytes_at (mem s) p' (length t') = t'" "\<forall>k<length t'. p' + of_nat k \<noteq> cb" by (auto simp: apart_def)
      then show "bytes_at (mem s1) p' (length t') = t'" using bytes_outside [of "length t'" p' cb] by (simp only: eff(6))
    qed
    have "duo_at ts d a b p cb t Ka Kb x0 n (Suc m) (c', s', T')"
    proof (rule duo_queue_call [OF Ds(1) ap cur _ _ call h eff(2,3) eff(4) eff(5) tm1])
      fix c1 assume "duo_state ts a b c1 s1" "arg 0 c1 = Some r" "\<And>y. proc_ctx c1 s1 y = (if y = b then c1 else proc_ctx c s y)"
      then show "duo_at ts d a b p cb t Ka Kb x0 n (Suc m) (c1, s1, T')"
        using Ds(2) eff ab(3) nm T' out by (auto simp: duo_at_def receiver_at_def intro!: heads_toI)
    qed simp_all
    then show ?thesis by blast
  qed
qed

lemma duo_print:
  fixes s :: "('h, 'a) kernel_scheme"
  assumes D: "duo_at ts d a b p cb t Ka Kb x0 n (Suc k) (c, s, T)" and ap: "apart ts d a b cb"
    and cur: "current s = Some b" and T: "T b = Going (print_from d cb (length t) (Suc k) Kb)"
    and x: "mem s cb = t ! k" "tx (uart0 s) = x0 @ take k t" and st: "prog_step e code (c, s, T) = Some (c', s', T')"
  shows "duo_at ts d a b p cb t Ka Kb x0 n (Suc k) (c', s', T')"
proof -
  let ?k = "\<lambda>_ _. show_from d cb (length t) (Suc k) Kb"
  from call_step [OF T [unfolded print_from_def] cur st]
  have h: "kernel_handler_svc e 1 (load_args [STDIO, cb, 1] c) s = Some (c', s')" and T': "T' = T(b := Called ?k)" by simp_all
  note Ds = duo_atD [OF D]
  have ab: "a \<noteq> b" "k < length t" and mi: "mq_inv s" using ap Ds(1,4) by (auto simp: apart_def duo_state_def queue_at_def)
  obtain ql where ql: "sched_inv s ql" "a \<in> set ql" "b \<in> set ql" using duo_stateD [OF Ds(1) ap] by blast
  have "proc_ctx c s b = c" using cur by (simp add: proc_ctx_def)
  then have g: "3 \<le> length (gpr c)" using Ds(1) by (auto simp: duo_state_def)
  obtain c1 where c1: "set_r0 1 (load_args [STDIO, cb, 1] c) = Some c1" "arg 0 c1 = Some 1" "length (gpr c1) = length (gpr c)"
    using set_r0_args(1) [OF g] by blast
  define s1 where "s1 = put_con (t ! k) s"
  have s': "c' = c1" "s' = s1" using h c1(1) set_r0_args(2-4) [OF g, of STDIO cb 1] x(1)
    by (simp_all add: kernel_handler_svc_def svc_write_def write_con_def s1_def)
  have eff: "mem s1 = mem s" "mq s1 = mq s" "pcb s1 = pcb s" "current s1 = current s" "tx (uart0 s1) = x0 @ take (Suc k) t"
    using ab(2) x(2) by (simp_all add: s1_def put_con_def PL011_putc_def take_Suc_conv_app_nth)
  have inv: "sched_inv s1 ql" "mq_inv s1" using ql(1) mi by (simp_all add: s1_def put_con_def sched_inv_def ready_def running_def mq_inv_def)
  have cur1: "current s1 = Some b" "\<And>y. proc_ctx c s1 y = proc_ctx c s y" "\<forall>(p, t) \<in> ts. bytes_at (mem s1) p (length t) = t"
    using cur eff Ds(1) by (simp_all add: proc_ctx_def duo_state_def)
  note ret = duo_returned [OF Ds(1) cur cur1(1,2) inv(1) ql(2,3) inv(2) cur1(3) c1(3)]
  then show ?thesis using Ds(2,4) eff ab(1) c1(2) by (auto simp: s' T' duo_at_def receiver_at_def ret(2) intro!: heads_toI)
qed

section \<open>Steps\<close>

lemma duo_quiet:
  assumes "duo_at ts d a b p cb t Ka Kb x0 n m (c, s, T)"
  shows "heads_to (send_from d p (length t) n Ka) th (arg 0 (proc_ctx c s a)) \<Longrightarrow> a \<noteq> b \<Longrightarrow> duo_at ts d a b p cb t Ka Kb x0 n m (c, s, T(a := th))"
    and "receiver_at d cb t Kb x0 m (mem s cb) (tx (uart0 s)) th (arg 0 (proc_ctx c s b)) \<Longrightarrow> a \<noteq> b \<Longrightarrow>
      duo_at ts d a b p cb t Ka Kb x0 n m (c, s, T(b := th))"
  using assms by (simp_all add: duo_at_def)

lemma duo_sender_step:
  fixes s :: "('h, 'a) kernel_scheme"
  assumes D: "duo_at ts d a b p cb t Ka Kb x0 n m (c, s, T)" and ap: "apart ts d a b cb" and pt: "(p, t) \<in> ts" "t \<noteq> []"
    and cur: "current s = Some a" and st: "prog_step e code (c, s, T) = Some (c', s', T')"
    and last: "T a = Going Ka \<Longrightarrow> \<exists>cb' N K. Ka = show_from d cb' N 0 K \<and> 0 < N"
  shows "\<exists>n'. duo_at ts d a b p cb t Ka Kb x0 n' m (c', s', T')"
proof (cases "T a = Going (send_from d p (length t) n Ka)")
  case True
  show ?thesis
  proof (cases "n < length t")
    case False
    then have n: "n = length t" using duo_atD(4) [OF D] by (simp add: queue_at_def)
    then have T: "T a = Going Ka" using True by simp
    from last [OF T] duo_idle [OF D [unfolded n] ap pt(2) _ _ cur T st] show ?thesis by blast
  qed (rule duo_send [OF D ap pt(1) _ cur True st])
next
  case False
  have "proc_ctx c s a = c" using cur by (simp add: proc_ctx_def)
  with heads_to_step [OF _ cur st False] duo_atD(2) [OF D] duo_quiet(1) [OF D] ap show ?thesis by (auto simp: apart_def)
qed

lemma duo_receiver_step:
  fixes s :: "('h, 'a) kernel_scheme"
  assumes D: "duo_at ts d a b p cb t Ka Kb x0 n m (c, s, T)" and ap: "apart ts d a b cb"
    and cur: "current s = Some b" and st: "prog_step e code (c, s, T) = Some (c', s', T')"
    and last: "m = length t \<Longrightarrow> tx (uart0 s) = x0 @ t \<Longrightarrow> T b \<noteq> Going Kb"
  shows "\<exists>m'. duo_at ts d a b p cb t Ka Kb x0 n m' (c', s', T')"
proof -
  have c: "proc_ctx c s b = c" and ab: "a \<noteq> b" using cur ap by (simp_all add: proc_ctx_def apart_def)
  have m: "m \<le> length t" using duo_atD(4) [OF D] by (simp add: queue_at_def)
  consider (look) "tx (uart0 s) = x0 @ take m t" "heads_to (show_from d cb (length t) m Kb) (T b) (arg 0 c)"
    | (have_byte) k where "m = Suc k" "mem s cb = t ! k" "tx (uart0 s) = x0 @ take k t" "heads_to (print_from d cb (length t) m Kb) (T b) (arg 0 c)"
    using duo_atD(3) [OF D] c by (auto simp: receiver_at_def)
  then show ?thesis
  proof cases
    case look
    show ?thesis
    proof (cases "T b = Going (show_from d cb (length t) m Kb)")
      case True
      then have "m < length t" using last m look(1) by (cases "m = length t") auto
      then show ?thesis by (rule duo_receive [OF D ap _ cur True look(1) st])
    next
      case False
      from heads_to_step [OF look(2) cur st False] duo_quiet(2) [OF D] ab c look(1) show ?thesis by (auto simp: receiver_at_def)
    qed
  next
    case have_byte
    show ?thesis
    proof (cases "T b = Going (print_from d cb (length t) m Kb)")
      case True
      from duo_print [OF _ ap cur _ have_byte(2,3) st] D True have_byte(1) show ?thesis by blast
    next
      case False
      from heads_to_step [OF have_byte(4) cur st False] duo_quiet(2) [OF D] ab c have_byte(1-3) show ?thesis by (auto simp: receiver_at_def)
    qed
  qed
qed

text \<open>Interrupts.\<close>

lemma duo_same:
  assumes "duo_at ts d a b p cb t Ka Kb x0 n m (c, s, T)" and "\<And>l. sched_inv s' l = sched_inv s l" and "mq s' = mq s" "mem s' = mem s"
    and "tx (uart0 s') = tx (uart0 s)" "\<And>y. pst (pcb s' ! y) = pst (pcb s ! y)" "\<And>y. proc_ctx c s' y = proc_ctx c s y"
  shows "duo_at ts d a b p cb t Ka Kb x0 n m (c, s', T)"
  using assms by (simp add: duo_at_def duo_state_def mq_inv_def)

lemma prio_same:
  assumes "upd_pcb 0 (\<lambda>x. x\<lparr>defp := u, prio := v\<rparr>) s = Some s'"
  shows "sched_inv s' l = sched_inv s l" "pst (pcb s' ! y) = pst (pcb s ! y)" "proc_ctx c s' y = proc_ctx c s y" "procs.more s' = procs.more s"
proof -
  let ?x = "(pcb s ! 0)\<lparr>defp := u, prio := v\<rparr>"
  have l: "0 < length (pcb s)" using assms by (auto simp: upd_pcb_def bind_eq_Some_conv arr_def split: if_splits)
  then have s': "s' = s\<lparr>pcb := (pcb s)[0 := ?x]\<rparr>" using assms by simp
  have n: "pid (pcb s' ! y) = pid (pcb s ! y)" "pst (pcb s' ! y) = pst (pcb s ! y)" "ctx (pcb s' ! y) = ctx (pcb s ! y)" for y
    unfolding s' using l by (cases "y = 0"; simp)+
  show "pst (pcb s' ! y) = pst (pcb s ! y)" by (rule n(2))
  show "sched_inv s' l = sched_inv s l" using n(1,2) by (simp add: sched_inv_def ready_def running_def) (simp add: s')
  show "proc_ctx c s' y = proc_ctx c s y" using n(3) by (simp add: proc_ctx_def) (simp add: s')
  show "procs.more s' = procs.more s" by (simp add: s')
qed

end
