(* ===== verification/Pingpong.thy ===== *)
theory Pingpong
  imports Exchange
begin

text \<open>
  The programs \<open>ping\<close> and \<open>pong\<close> together: a round in which both open the queue of the round, \<open>ping\<close>
  sends its text to \<open>pong\<close> and \<open>pong\<close> sends its text back.
\<close>

section \<open>The two programs\<close>

text \<open>The programs at the start of round \<open>k\<close>, with the queue open, and at the end of the round.\<close>

definition ping_at :: "(byte list \<Rightarrow> u32) \<Rightarrow> u32 \<Rightarrow> u32 \<Rightarrow> unit prog" where
  "ping_at lit c k = seq (loop (ping_round lit c) k) (\<lambda>_. cexit)"

definition pong_at :: "(byte list \<Rightarrow> u32) \<Rightarrow> u32 \<Rightarrow> u32 \<Rightarrow> unit prog" where
  "pong_at lit c k = seq (loop (pong_round lit c) k) (\<lambda>_. cexit)"

definition ping_rest :: "(byte list \<Rightarrow> u32) \<Rightarrow> u32 \<Rightarrow> u32 \<Rightarrow> u32 \<Rightarrow> unit prog" where
  "ping_rest lit c k d = Do (Call 22 [d]) (\<lambda>_ _. Do Look (\<lambda>_ _. ping_at lit c (k + 1)))"

definition pong_rest :: "(byte list \<Rightarrow> u32) \<Rightarrow> u32 \<Rightarrow> u32 \<Rightarrow> unit prog" where
  "pong_rest lit c k = Do Look (\<lambda>_ _. pong_at lit c (k + 1))"

definition ping_open :: "(byte list \<Rightarrow> u32) \<Rightarrow> u32 \<Rightarrow> u32 \<Rightarrow> u32 \<Rightarrow> unit prog" where
  "ping_open lit c k d = send_from d (lit ping_text) (length ping_text) 0 (show_from d c (length pong_text) 0 (ping_rest lit c k d))"

definition pong_open :: "(byte list \<Rightarrow> u32) \<Rightarrow> u32 \<Rightarrow> u32 \<Rightarrow> u32 \<Rightarrow> unit prog" where
  "pong_open lit c k d = show_from d c (length ping_text) 0 (send_from d (lit pong_text) (length pong_text) 0 (pong_rest lit c k))"

lemma text_lengths: "length ping_text = 25" "length pong_text = 25"
  by (simp_all add: ping_text_def pong_text_def str_def)

lemma ping_starts: "ping lit c = ping_at lit c 100" "pong lit c = pong_at lit c 100"
  by (simp_all add: ping_def ping_at_def pong_def pong_at_def)

lemma ping_at_step: "ping_at lit c k = Do (Call 8 [k]) (\<lambda>d _. ping_open lit c k d)"
proof -
  have e: "seq (mqunlink d) (\<lambda>_. seq (loop_from (ping_round lit c) (Ret (Inl (k + 1)))) (\<lambda>_. cexit)) = ping_rest lit c k d" for d
    by (simp add: mqunlink_def svc_def loop_from_again ping_rest_def ping_at_def loop_def)
  have "ping_at lit c k = seq (mqinit k) (\<lambda>d. ping_open lit c k d)"
    by (simp only: ping_at_def loop_def ping_round_def [of lit c k] loop_from_seq seq_assoc e ping_open_def send_from_def show_from_def text_lengths)
  then show ?thesis by (simp add: mqinit_def svc_def)
qed

lemma pong_at_step: "pong_at lit c k = Do (Call 8 [k]) (\<lambda>d _. pong_open lit c k d)"
proof -
  have e: "seq (loop_from (pong_round lit c) (Ret (Inl (k + 1)))) (\<lambda>_. cexit) = pong_rest lit c k"
    by (simp add: loop_from_again pong_rest_def pong_at_def loop_def)
  have "pong_at lit c k = seq (mqinit k) (\<lambda>d. pong_open lit c k d)"
    by (simp only: pong_at_def loop_def pong_round_def [of lit c k] loop_from_seq seq_assoc e pong_open_def send_from_def show_from_def text_lengths)
  then show ?thesis by (simp add: mqinit_def svc_def)
qed

section \<open>Interrupts\<close>

text \<open>Whatever an interrupt does to the two, it does by turns of the scheduler and by fields that they
  do not depend on.\<close>

definition calm :: "('h, 'a) kernel_scheme \<Rightarrow> ('h, 'a) kernel_scheme \<Rightarrow> bool" where
  "calm s s' \<longleftrightarrow> (\<forall>l. sched_inv s' l = sched_inv s l) \<and> mq s' = mq s \<and> mem s' = mem s \<and> tx (uart0 s') = tx (uart0 s)
     \<and> (\<forall>y. pst (pcb s' ! y) = pst (pcb s ! y)) \<and> (\<forall>c y. proc_ctx c s' y = proc_ctx c s y)"

lemma irq_cases:
  fixes s :: "('h, 'a) machine_scheme"
  assumes "kernel_handler_irq c (s\<lparr>GICC0 := g\<rparr>) = Some (c', s')"
  shows "c' = c \<and> calm s s' \<or> (\<exists>s1 s2. calm s s1 \<and> scheduler c s1 = Some (c', s2) \<and> calm s2 s')"
proof -
  let ?s = "s\<lparr>GICC0 := g\<rparr>"
  have regs: "calm (k :: ('h, 'a) machine_scheme) (k\<lparr>GICC0 := x\<rparr>)" "calm k (k\<lparr>TIMER0 := y, GICC0 := x\<rparr>)" "calm k (k\<lparr>UART0_ctrl := z, GICC0 := x\<rparr>)" for k x y z
    by (simp_all add: calm_def sched_inv_def ready_def running_def proc_ctx_def)
  consider (timer) s2 where "scheduler c ?s = Some (c', s2)" "calm s2 s'"
    | (shell) s1 s2 where "upd_pcb 0 (\<lambda>x. x\<lparr>defp := 0x7FFFFFFF, prio := 0x7FFFFFFF\<rparr>) ?s = Some s1" "scheduler c s1 = Some (c', s2)" "calm s2 s'"
    | (none) "c' = c" "calm s s'"
    using assms regs unfolding kernel_handler_irq_def
    by (auto simp: bind_eq_Some_conv Let_def split: if_split_asm)
  then show ?thesis
  proof cases
    case shell
    note p = prio_same [OF shell(1)]
    have "fd_view s1 = fd_view ?s" by (rule upd_pcb_fds [OF shell(1)]) simp_all
    then have "calm s s1" using p regs(1) [of s g] more_same [of s1 ?s] by (simp add: calm_def)
    then show ?thesis using shell(2,3) by blast
  qed (use regs(1) in blast)+
qed

section \<open>A game\<close>

record game =
  lits :: "byte list \<Rightarrow> u32"
  pinger :: nat
  ponger :: nat
  ping_var :: u32
  pong_var :: u32
  key :: u32
  queue :: u32

definition texts :: "game \<Rightarrow> (u32 \<times> byte list) set" where
  "texts G = {(lits G ping_text, ping_text), (lits G pong_text, pong_text)}"

text \<open>Different processes, a queue of the table, locals outside the texts.\<close>

definition fair_game :: "game \<Rightarrow> bool" where
  "fair_game G \<longleftrightarrow> apart (texts G) (queue G) (pinger G) (ponger G) (pong_var G) \<and> apart (texts G) (queue G) (ponger G) (pinger G) (ping_var G)"

text \<open>The programs before and after the queue is open, and where the round ends for each.\<close>

definition before_open :: "game \<Rightarrow> nat \<Rightarrow> unit prog" where
  "before_open G x = (if x = pinger G then ping_at (lits G) (ping_var G) (key G) else pong_at (lits G) (pong_var G) (key G))"

definition after_open :: "game \<Rightarrow> nat \<Rightarrow> u32 \<Rightarrow> unit prog" where
  "after_open G x d = (if x = pinger G then ping_open (lits G) (ping_var G) (key G) d else pong_open (lits G) (pong_var G) (key G) d)"

definition round_end :: "game \<Rightarrow> nat \<Rightarrow> unit prog" where
  "round_end G x = (if x = pinger G then ping_rest (lits G) (ping_var G) (key G) (queue G) else pong_rest (lits G) (pong_var G) (key G))"

lemma before_open_step: "before_open G x = Do (Call 8 [key G]) (\<lambda>d _. after_open G x d)"
  using ping_at_step [of "lits G" "ping_var G" "key G"] pong_at_step [of "lits G" "pong_var G" "key G"]
  by (simp add: before_open_def after_open_def)

definition ping_phase :: "game \<Rightarrow> byte list \<Rightarrow> nat \<Rightarrow> nat \<Rightarrow> ctx_t \<times> ('h, 'a) kernel_scheme \<times> (nat \<Rightarrow> thread) \<Rightarrow> bool" where
  "ping_phase G x0 = duo_at (texts G) (queue G) (pinger G) (ponger G) (lits G ping_text) (pong_var G) ping_text
     (show_from (queue G) (ping_var G) (length pong_text) 0 (round_end G (pinger G)))
     (send_from (queue G) (lits G pong_text) (length pong_text) 0 (round_end G (ponger G))) x0"

definition pong_phase :: "game \<Rightarrow> byte list \<Rightarrow> nat \<Rightarrow> nat \<Rightarrow> ctx_t \<times> ('h, 'a) kernel_scheme \<times> (nat \<Rightarrow> thread) \<Rightarrow> bool" where
  "pong_phase G x0 = duo_at (texts G) (queue G) (ponger G) (pinger G) (lits G pong_text) (ping_var G) pong_text
     (round_end G (ponger G)) (round_end G (pinger G)) (x0 @ ping_text)"

definition playing :: "game \<Rightarrow> byte list \<Rightarrow> ctx_t \<times> ('h, 'a) kernel_scheme \<times> (nat \<Rightarrow> thread) \<Rightarrow> bool" where
  "playing G x0 st \<longleftrightarrow> (\<exists>n m. ping_phase G x0 n m st) \<or> (\<exists>n m. pong_phase G x0 n m st)"

lemma fair_gameD:
  assumes "fair_game G"
  shows "apart (texts G) (queue G) (pinger G) (ponger G) (pong_var G)" "apart (texts G) (queue G) (ponger G) (pinger G) (ping_var G)"
    "pinger G < 8" "ponger G < 8" "pinger G \<noteq> ponger G" "ponger G \<noteq> pinger G" "unat (queue G) < 32"
  using assms by (auto simp: fair_game_def apart_def)

lemma duo_state_swap: "duo_state ts a b c s \<Longrightarrow> duo_state ts b a c s"
  by (auto simp: duo_state_def)

text \<open>When \<open>pong\<close> has printed everything, the roles change.\<close>

lemma phases_meet:
  assumes "ping_phase G x0 n m (c, s, T)" and "m = length ping_text" "tx (uart0 s) = x0 @ ping_text"
  shows "pong_phase G x0 0 0 (c, s, T)"
proof -
  note D = duo_atD [OF assms(1) [unfolded ping_phase_def]]
  have n: "n = length ping_text" using D(4) assms(2) by (auto simp: queue_at_def)
  have "heads_to (send_from (queue G) (lits G pong_text) (length pong_text) 0 (round_end G (ponger G))) (T (ponger G)) (arg 0 (proc_ctx c s (ponger G)))"
  proof -
    have "ping_text \<noteq> take k ping_text" if "length ping_text = Suc k" for k using that by (metis length_take min_def n_not_Suc_n Suc_n_not_le_n nat_le_linear)
    then show ?thesis using D(3) assms(2,3) by (auto simp: receiver_at_def)
  qed
  moreover have "heads_to (show_from (queue G) (ping_var G) (length pong_text) 0 (round_end G (pinger G))) (T (pinger G)) (arg 0 (proc_ctx c s (pinger G)))"
    using D(2) n by simp
  moreover have "queue_at (ponger G) (pinger G) pong_text 0 0 (mq s ! unat (queue G)) (pst (pcb s ! ponger G)) (pst (pcb s ! pinger G))"
    using D(4) n assms(2) by (auto simp: queue_at_def text_lengths)
  ultimately show ?thesis using duo_state_swap [OF D(1)] assms(3) by (simp add: pong_phase_def duo_at_def receiver_at_def)
qed

lemma pong_phase_step:
  assumes G: "fair_game G" and D: "pong_phase G x0 n m (c, s, T)" and cur: "current s = Some x" "x = pinger G \<or> x = ponger G"
    and st: "prog_step e code (c, s, T) = Some (c', s', T')" and go: "T x \<noteq> Going (round_end G x)"
  shows "\<exists>n m. pong_phase G x0 n m (c', s', T')"
proof -
  have t: "(lits G pong_text, pong_text) \<in> texts G" "pong_text \<noteq> []" using text_lengths by (auto simp: texts_def)
  note F = fair_gameD [OF G] and D = D [unfolded pong_phase_def]
  show ?thesis
  proof (cases "x = pinger G")
    case True
    with duo_receiver_step [OF D F(2) _ st] cur(1) go show ?thesis unfolding pong_phase_def by blast
  next
    case False
    with duo_sender_step [OF D F(2) t _ st] cur go show ?thesis unfolding pong_phase_def by blast
  qed
qed

lemma playing_step:
  assumes G: "fair_game G" and D: "playing G x0 (c, s, T)" and cur: "current s = Some x" "x = pinger G \<or> x = ponger G"
    and st: "prog_step e code (c, s, T) = Some (c', s', T')" and go: "T x \<noteq> Going (round_end G x)"
  shows "playing G x0 (c', s', T')"
proof (cases "\<exists>n m. pong_phase G x0 n m (c, s, T)")
  case True
  with pong_phase_step [OF G _ cur st go] show ?thesis by (auto simp: playing_def)
next
  case False
  then obtain n m where P: "ping_phase G x0 n m (c, s, T)" using D by (auto simp: playing_def)
  have t: "(lits G ping_text, ping_text) \<in> texts G" "ping_text \<noteq> []" "0 < length pong_text" using text_lengths by (auto simp: texts_def)
  note F = fair_gameD [OF G] and D = P [unfolded ping_phase_def]
  show ?thesis
  proof (cases "x = ponger G")
    case True
    have "m \<noteq> length ping_text \<or> tx (uart0 s) \<noteq> x0 @ ping_text" using phases_meet [OF P] False by blast
    with duo_receiver_step [OF D F(1) _ st] cur(1) True show ?thesis unfolding playing_def ping_phase_def by blast
  next
    case False
    with duo_sender_step [OF D F(1) t(1,2) _ st] cur t(3) show ?thesis unfolding playing_def ping_phase_def by blast
  qed
qed

section \<open>Opening the queue\<close>

text \<open>Operations that keep the names of all queues.\<close>

definition keeps_names :: "'a chans_scheme \<Rightarrow> 'a chans_scheme \<Rightarrow> bool" where
  "keeps_names s s' \<longleftrightarrow> map msg_qname (mq s') = map msg_qname (mq s)"

lemma keeps_names_trans: "keeps_names s s' \<Longrightarrow> keeps_names s' s'' \<Longrightarrow> keeps_names s s''"
  by (simp add: keeps_names_def)

lemma kill_names: "kill i sig s = Some s' \<Longrightarrow> keeps_names s s'" for s s' :: "('h, 'a) kernel_scheme"
  by (drule more_same(2) [OF kill_fds]) (simp add: keeps_names_def)

lemma scheduler_names: "scheduler c s = Some (c', s') \<Longrightarrow> keeps_names s s'" for s s' :: "('h, 'a) kernel_scheme"
  by (drule more_same(2) [OF scheduler_fds]) (simp add: keeps_names_def)

lemma upd_mq_names:
  assumes "upd_mq d f s = Some s'" and "\<And>q. msg_qname (f q) = msg_qname q"
  shows "keeps_names s s'"
proof -
  have d: "unat d < length (mq s)" using assms(1) by (auto simp: upd_mq_def bind_eq_Some_conv arr_def split: if_splits)
  with assms have "s' = s\<lparr>mq := (mq s)[unat d := f (mq s ! unat d)]\<rparr>" by simp
  with d assms(2) show ?thesis by (simp add: keeps_names_def map_update) (metis list_update_id nth_map)
qed

lemmas step_names = kill_names
  upd_mq_names [of _ "\<lambda>q. q\<lparr>msg_lspid := x\<rparr>" for x, simplified] upd_mq_names [of _ "\<lambda>q. q\<lparr>msg_lrpid := x\<rparr>" for x, simplified]
  upd_mq_names [of _ "\<lambda>q. q\<lparr>msg_qrec := x\<rparr>" for x, simplified] upd_mq_names [of _ "\<lambda>q. q\<lparr>msg_qnum := f q\<rparr>" for f, simplified]
  upd_mq_names [of _ "\<lambda>q. q\<lparr>msg_qnum := f q, msg_qbuf := g q\<rparr>" for f g, simplified]

lemma mem_write_names: "keeps_names (mem_write a xs s) s' = keeps_names s s'"
  by (simp add: keeps_names_def mem_write_def)

lemma queue_names:
  fixes s s' :: "('h, 'a) kernel_scheme"
  shows "mq_send d y n s = Some (r, s') \<Longrightarrow> keeps_names s s'" and "mq_receive d y n s = Some (r, s') \<Longrightarrow> keeps_names s s'"
  by (auto simp: mq_send_def mq_receive_def bind_eq_Some_conv Let_def split: if_splits dest!: step_names simp: mem_write_names)
     (meson keeps_names_trans)+

lemma svc_names:
  fixes s s' :: "('h, 'a) kernel_scheme"
  assumes "i = 9 \<or> i = 10 \<or> i = 1 \<and> arg 0 c = Some STDIO" and "kernel_handler_svc e i c s = Some (c', s')"
  shows "keeps_names s s'"
proof -
  have "mq (fold (\<lambda>i s. put_con (mem s (x + of_nat i)) s) is k) = mq k" for x "is" and k :: "('h, 'a) kernel_scheme"
    by (induction "is" arbitrary: k) (simp_all add: put_con_def)
  then have w: "keeps_names s (write_con x n s)" for x n by (simp add: write_con_def keeps_names_def)
  have o: "or_wait r c k = Some (c', s') \<Longrightarrow> k = s' \<or> keeps_names k s'" for r k
    by (auto simp: or_wait_def bind_eq_Some_conv split: if_splits dest!: scheduler_names)
  show ?thesis using assms w
    by (auto simp: kernel_handler_svc_def svc_send_def svc_receive_def svc_write_def bind_eq_Some_conv split: if_splits
        dest!: o queue_names intro: keeps_names_trans)
qed

text \<open>What a thread of the game does next, when it does something.\<close>

definition polite :: "unit prog \<Rightarrow> bool" where
  "polite P \<longleftrightarrow> (\<exists>i xs k. P = Do (Call i xs) k \<and> (i = 9 \<or> i = 10 \<or> i = 1 \<and> (\<exists>y z. xs = [STDIO, y, z])))"

lemma polite_loops: "n < N \<Longrightarrow> polite (send_from d p N n K)" "m < N \<Longrightarrow> polite (show_from d cb N m K)" "polite (print_from d cb N m K)"
proof -
  show "polite (send_from d p N n K)" if "n < N" using send_from_step [OF that] unfolding polite_def by blast
  show "polite (show_from d cb N m K)" if "m < N" using show_from_step [OF that] unfolding polite_def by blast
qed (simp add: polite_def print_from_def)

lemma duo_heads:
  assumes "duo_at ts d a b p cb t Ka Kb x0 n m (c, s, T)"
  shows "\<exists>P. heads_to P (T a) (arg 0 (proc_ctx c s a)) \<and> (polite P \<or> P = Ka)"
    and "\<exists>P. heads_to P (T b) (arg 0 (proc_ctx c s b)) \<and> (polite P \<or> P = Kb)"
proof -
  note D = duo_atD [OF assms]
  have nm: "n \<le> length t" "m \<le> length t" using D(4) by (auto simp: queue_at_def)
  then have "polite (send_from d p (length t) n Ka) \<or> send_from d p (length t) n Ka = Ka"
    "polite (show_from d cb (length t) m Kb) \<or> show_from d cb (length t) m Kb = Kb"
    using polite_loops(1) [of n "length t"] polite_loops(2) [of m "length t"] by (cases "n = length t"; cases "m = length t"; simp)+
  then show "\<exists>P. heads_to P (T a) (arg 0 (proc_ctx c s a)) \<and> (polite P \<or> P = Ka)"
    "\<exists>P. heads_to P (T b) (arg 0 (proc_ctx c s b)) \<and> (polite P \<or> P = Kb)"
    using D(2,3) polite_loops(3) by (auto simp: receiver_at_def)
qed

lemma playing_heads:
  assumes "playing G x0 (c, s, T)" and "x = pinger G \<or> x = ponger G"
  shows "\<exists>P. heads_to P (T x) (arg 0 (proc_ctx c s x)) \<and> (polite P \<or> P = round_end G x)"
proof -
  have p: "polite (show_from (queue G) (ping_var G) (length pong_text) 0 K)" "polite (send_from (queue G) (lits G pong_text) (length pong_text) 0 K)" for K
    by (auto intro: polite_loops simp: text_lengths)
  show ?thesis using assms duo_heads p unfolding playing_def ping_phase_def pong_phase_def by metis
qed

lemma playing_step_names:
  assumes D: "playing G x0 (c, s, U)" and cur: "current s = Some x" "x = pinger G \<or> x = ponger G" and T: "T x = U x"
    and st: "prog_step e code (c, s, T) = Some (c', s', T')" and go: "T x \<noteq> Going (round_end G x)"
  shows "keeps_names s s' \<and> (\<exists>th. T' = T(x := th) \<and> prog_step e code (c, s, U) = Some (c', s', U(x := th)))"
proof -
  have c: "proc_ctx c s x = c" using cur by (simp add: proc_ctx_def)
  obtain P where P: "heads_to P (T x) (arg 0 c)" "polite P \<or> P = round_end G x" using playing_heads [OF D cur(2)] c T by auto
  have g: "3 \<le> length (gpr c)" using D cur(2) c
    by (auto simp: playing_def ping_phase_def pong_phase_def duo_state_def dest!: duo_atD(1))
  show ?thesis
  proof (cases "T x = Going P")
    case True
    then obtain i xs k where i: "P = Do (Call i xs) k" "i = 9 \<or> i = 10 \<or> i = 1 \<and> (\<exists>y z. xs = [STDIO, y, z])" using P(2) go by (auto simp: polite_def)
    from call_step [OF True [unfolded i(1)] cur(1) st] i(2)
    have h: "kernel_handler_svc e i (load_args xs c) s = Some (c', s')" "T' = T(x := Called k)" by auto
    moreover have "i = 9 \<or> i = 10 \<or> i = 1 \<and> arg 0 (load_args xs c) = Some STDIO" using i(2) set_r0_args(2) [OF g] by auto
    moreover have "prog_step e code (c, s, U) = Some (c', s', U(x := Called k))"
      using h(1) True T i cur(1) by (auto simp: prog_step_def after_call_def)
    ultimately show ?thesis using svc_names by blast
  next
    case False
    with P(1) st cur(1) T show ?thesis by (auto simp: heads_to_def prog_step_def keeps_names_def)
  qed
qed

section \<open>Steps of others\<close>

text \<open>What interrupts guarantee and what other processes are relied on for.\<close>

definition undisturbed :: "game \<Rightarrow> ctx_t \<times> ('h, 'a) kernel_scheme \<Rightarrow> ctx_t \<times> ('h, 'a) kernel_scheme \<Rightarrow> bool" where
  "undisturbed G = (\<lambda>(c, s) (c', s').
     (duo_state (texts G) (pinger G) (ponger G) c s \<longrightarrow> duo_state (texts G) (pinger G) (ponger G) c' s')
     \<and> (\<forall>x \<in> {pinger G, ponger G}. proc_ctx c' s' x = proc_ctx c s x \<and> pst (pcb s' ! x) = pst (pcb s ! x))
     \<and> mq s' = mq s \<and> tx (uart0 s') = tx (uart0 s) \<and> mem s' (ping_var G) = mem s (ping_var G) \<and> mem s' (pong_var G) = mem s (pong_var G))"

lemma undisturbed_trans: "undisturbed G a b \<Longrightarrow> undisturbed G b c \<Longrightarrow> undisturbed G a c"
  by (auto simp: undisturbed_def)

lemma calm_undisturbed: "calm s s' \<Longrightarrow> undisturbed G (c, s) (c, s')"
  by (simp add: calm_def undisturbed_def duo_state_def mq_inv_def)

lemma scheduler_undisturbed:
  fixes s :: "('h, 'a) kernel_scheme"
  assumes "fair_game G" and "duo_state (texts G) (pinger G) (ponger G) c s" and "executing s (pinger G) \<or> executing s (ponger G)"
    and "scheduler c s = Some (c', s')"
  shows "undisturbed G (c, s) (c', s')"
proof -
  obtain ql where ql: "sched_inv s ql" "pinger G \<in> set ql" "ponger G \<in> set ql" using duo_stateD [OF assms(2) fair_gameD(1) [OF assms(1)]] by blast
  from scheduler_view [OF ql(1), of _ c] assms(3,4) ql(2,3) obtain ql' where s': "sched_inv s' ql'" "set ql' = set ql"
    "\<forall>p<8. proc_ctx c' s' p = proc_ctx c s p \<and> pst (pcb s' ! p) = pst (pcb s ! p)" "mem s' = mem s" "mq s' = mq s" "uart0 s' = uart0 s" by fastforce
  have "mq_inv s'" using assms(2) s'(5) by (simp add: duo_state_def mq_inv_def)
  then have "duo_state (texts G) (pinger G) (ponger G) c' s'"
    using assms(2) s' fair_gameD(3,4) [OF assms(1)] ql(2,3) unfolding duo_state_def by auto
  then show ?thesis using s' fair_gameD(3,4) [OF assms(1)] by (simp add: undisturbed_def)
qed

lemma irq_undisturbed:
  fixes s :: "('h, 'a) machine_scheme"
  assumes "fair_game G" and "duo_state (texts G) (pinger G) (ponger G) c s" and "executing s (pinger G) \<or> executing s (ponger G)"
    and "kernel_handler_irq c (s\<lparr>GICC0 := g\<rparr>) = Some (c', s')"
  shows "undisturbed G (c, s) (c', s')"
  using irq_cases [OF assms(4)]
proof (elim disjE exE conjE)
  fix s1 s2 assume *: "calm s s1" "scheduler c s1 = Some (c', s2)" "calm s2 s'"
  have "duo_state (texts G) (pinger G) (ponger G) c s1" "executing s1 (pinger G) \<or> executing s1 (ponger G)"
    using assms(2,3) *(1) by (simp_all add: calm_def executing_def duo_state_def mq_inv_def)
  from scheduler_undisturbed [OF assms(1) this *(2)] calm_undisturbed [OF *(1), of G c] calm_undisturbed [OF *(3), of G c'] show ?thesis
    using undisturbed_trans by blast
qed (simp add: calm_undisturbed)

lemma playing_state: "playing G x0 (c, s, T) \<Longrightarrow> duo_state (texts G) (pinger G) (ponger G) c s"
  unfolding playing_def ping_phase_def pong_phase_def using duo_atD(1) duo_state_swap by blast

lemma playing_undisturbed:
  assumes "playing G x0 (c, s, T)" and "undisturbed G (c, s) (c', s')"
  shows "playing G x0 (c', s', T)"
proof -
  have ds: "duo_state (texts G) (pinger G) (ponger G) c' s'" using playing_state [OF assms(1)] assms(2) by (simp add: undisturbed_def)
  have "ping_phase G x0 n m (c, s, T) \<Longrightarrow> ping_phase G x0 n m (c', s', T)" "pong_phase G x0 n m (c, s, T) \<Longrightarrow> pong_phase G x0 n m (c', s', T)" for n m
    using ds duo_state_swap [OF ds] assms(2) by (simp_all add: ping_phase_def pong_phase_def duo_at_def undisturbed_def)
  then show ?thesis using assms(1) unfolding playing_def by blast
qed

section \<open>The queue of the round\<close>

definition holder :: "u32 \<Rightarrow> 'a chans_scheme \<Rightarrow> nat option" where
  "holder name s = find (\<lambda>q. map msg_qname (mq s) ! q = name) [0..<32]"

lemma holder_same: "keeps_names s s' \<Longrightarrow> holder name s' = holder name s" "mq s' = mq s \<Longrightarrow> holder name s' = holder name s"
  by (simp_all add: keeps_names_def holder_def)

lemma mq_open_holder:
  assumes "length (mq s) = 32"
  shows "mq_open name s = Some (case holder name s of
      Some i \<Rightarrow> (of_nat i, s)
    | None \<Rightarrow> (case holder 0 s of
        Some i \<Rightarrow> (of_nat i, s\<lparr>mq := (mq s)[i := opened name (mq s ! i)]\<rparr>)
      | None \<Rightarrow> (-1, s)))"
proof -
  have "find (\<lambda>q. msg_qname (mq s ! q) = n) [0..<32] = holder n s" for n
    unfolding holder_def using assms by (intro find_cong) simp_all
  then show ?thesis using mq_open_find [OF assms, of name] by (simp only:)
qed

text \<open>A thread on its way to \<open>P\<close> whatever the result of its last call.\<close>

definition approaches :: "unit prog \<Rightarrow> thread \<Rightarrow> bool" where
  "approaches P th \<longleftrightarrow> th = Going P \<or> th = Going (Do Look (\<lambda>_ _. P))
     \<or> (\<exists>k. th = Called k \<and> (\<forall>v M. k v M = P \<or> k v M = Do Look (\<lambda>_ _. P)))"

lemma approaches_step:
  assumes "approaches P (T a)" and "current s = Some a" and "prog_step e code (c, s, T) = Some (c', s', T')" and "T a \<noteq> Going P"
  shows "c' = c \<and> s' = s \<and> (\<exists>th. T' = T(a := th) \<and> approaches P th)"
  using assms by (auto simp: approaches_def prog_step_def bind_eq_Some_conv intro!: exI [of _ "T' a"]) blast

text \<open>The positions of a round: nobody has opened the queue, or somebody has, and a process that has
  not counts as one that is just behind opening it.\<close>

definition lobby :: "game \<Rightarrow> byte list \<Rightarrow> ctx_t \<times> ('h, 'a) kernel_scheme \<times> (nat \<Rightarrow> thread) \<Rightarrow> bool" where
  "lobby G x0 = (\<lambda>(c, s, T). duo_state (texts G) (pinger G) (ponger G) c s \<and> holder (key G) s = None \<and> holder 0 s = Some (unat (queue G))
     \<and> tx (uart0 s) = x0 \<and> (\<forall>x \<in> {pinger G, ponger G}. approaches (before_open G x) (T x) \<and> executing s x))"

definition joined :: "game \<Rightarrow> byte list \<Rightarrow> ctx_t \<times> ('h, 'a) kernel_scheme \<times> (nat \<Rightarrow> thread) \<Rightarrow> bool" where
  "joined G x0 = (\<lambda>(c, s, T). holder (key G) s = Some (unat (queue G)) \<and> (\<exists>U. playing G x0 (c, s, U)
     \<and> (\<forall>x \<in> {pinger G, ponger G}. T x = U x
          \<or> U x = Going (after_open G x (queue G)) \<and> approaches (before_open G x) (T x))))"

lemma playing_executing: "playing G x0 (c, s, T) \<Longrightarrow> executing s (pinger G) \<or> executing s (ponger G)"
  unfolding playing_def ping_phase_def pong_phase_def using duo_executing by blast

lemma round_undisturbed:
  assumes "undisturbed G (c, s) (c', s')" and "T' (pinger G) = T (pinger G)" "T' (ponger G) = T (ponger G)"
  shows "lobby G x0 (c, s, T) \<Longrightarrow> lobby G x0 (c', s', T')" and "joined G x0 (c, s, T) \<Longrightarrow> joined G x0 (c', s', T')"
proof -
  have h: "holder n s' = holder n s" for n using assms(1) by (intro holder_same(2)) (simp add: undisturbed_def)
  show "lobby G x0 (c, s, T) \<Longrightarrow> lobby G x0 (c', s', T')"
    using assms h unfolding lobby_def undisturbed_def by (auto simp: executing_def)
  assume "joined G x0 (c, s, T)"
  then obtain U where U: "playing G x0 (c, s, U)" "holder (key G) s = Some (unat (queue G))"
    "\<forall>x \<in> {pinger G, ponger G}. T x = U x \<or> U x = Going (after_open G x (queue G)) \<and> approaches (before_open G x) (T x)"
    by (auto simp: joined_def)
  have "proc_ctx c' s' x = proc_ctx c s x" "T' x = T x" if "x \<in> {pinger G, ponger G}" for x using assms that by (auto simp: undisturbed_def)
  then show "joined G x0 (c', s', T')" using playing_undisturbed [OF U(1) assms(1)] U(2,3) h unfolding joined_def by auto
qed

section \<open>Steps of the two\<close>

lemma open_step:
  assumes "T x = Going (before_open G x)" and "current s = Some x" and "3 \<le> length (gpr c)" and "mq_open (key G) s = Some (r, s1)"
    and "prog_step e code (c, s, T) = Some (c', s', T')"
  shows "s' = s1 \<and> T' = T(x := Called (\<lambda>d _. after_open G x d)) \<and> arg 0 c' = Some r \<and> length (gpr c') = length (gpr c)"
proof -
  from call_step [OF assms(1) [unfolded before_open_step] assms(2,5)]
  have h: "kernel_handler_svc e 8 (load_args [key G] c) s = Some (c', s')" "T' = T(x := Called (\<lambda>d _. after_open G x d))" by simp_all
  from set_r0_load [of "[key G]" c r] assms(3) obtain c1 where
    "set_r0 r (load_args [key G] c) = Some c1" "arg 0 c1 = Some r" "length (gpr c1) = length (gpr c)" by fastforce
  moreover have "arg 0 (load_args [key G] c) = Some (key G)" using assms(3) by (simp add: arg_def load_args_simps)
  ultimately show ?thesis using h assms(4) by (simp add: kernel_handler_svc_def ret_def)
qed

lemma heads_to_returned: "heads_to P (Going A) r \<Longrightarrow> (\<And>M. k v M = A) \<Longrightarrow> heads_to P (Called k) (Some v)"
  by (auto simp: heads_to_def)

lemma playing_returned:
  assumes D: "playing G x0 (c, s, U)" and G: "fair_game G" and cur: "current s = Some x" and U: "U x = Going A"
    and c1: "arg 0 c1 = Some v" "length (gpr c1) = length (gpr c)" and k: "\<And>M. k v M = A"
  shows "playing G x0 (c1, s, U(x := Called k))"
proof -
  note ds = playing_state [OF D]
  obtain ql where ql: "sched_inv s ql" "pinger G \<in> set ql" "ponger G \<in> set ql" using duo_stateD [OF ds fair_gameD(1) [OF G]] by blast
  have m: "mq_inv s" "\<forall>(p, t) \<in> texts G. bytes_at (mem s) p (length t) = t" using ds by (simp_all add: duo_state_def)
  note ret = duo_returned [OF ds cur cur _ ql m c1(2), OF refl]
  have h: "heads_to P (U y) (arg 0 (proc_ctx c s y)) \<Longrightarrow> heads_to P ((U(x := Called k)) y) (arg 0 (proc_ctx c1 s y))" for P y
    using heads_to_returned [of P A _ k v] U k c1(1) ret(2) [of y] by auto
  have r: "receiver_at d cb t K x1 m b out (U y) (arg 0 (proc_ctx c s y)) \<Longrightarrow>
      receiver_at d cb t K x1 m b out ((U(x := Called k)) y) (arg 0 (proc_ctx c1 s y))" for d cb t K x1 m b out y
    unfolding receiver_at_def using h by blast
  have "ping_phase G x0 n m (c, s, U) \<Longrightarrow> ping_phase G x0 n m (c1, s, U(x := Called k))"
    "pong_phase G x0 n m (c, s, U) \<Longrightarrow> pong_phase G x0 n m (c1, s, U(x := Called k))" for n m
    using ret(1) duo_state_swap [OF ret(1)] h r unfolding ping_phase_def pong_phase_def duo_at_def by simp_all
  then show ?thesis using D unfolding playing_def by blast
qed

lemma joined_step:
  assumes G: "fair_game G" and J: "joined G x0 (c, s, T)" and cur: "current s = Some x" "x = pinger G \<or> x = ponger G"
    and st: "prog_step e code (c, s, T) = Some (c', s', T')" and go: "T x \<noteq> Going (round_end G x)"
  shows "joined G x0 (c', s', T')"
proof -
  obtain U where U: "playing G x0 (c, s, U)" "holder (key G) s = Some (unat (queue G))"
    "\<forall>x \<in> {pinger G, ponger G}. T x = U x \<or> U x = Going (after_open G x (queue G)) \<and> approaches (before_open G x) (T x)"
    using J by (auto simp: joined_def)
  show ?thesis
  proof (cases "T x = U x")
    case True
    from playing_step_names [OF U(1) cur True st go] obtain th where
      th: "keeps_names s s'" "T' = T(x := th)" "prog_step e code (c, s, U) = Some (c', s', U(x := th))" by blast
    have P: "playing G x0 (c', s', U(x := th))" using playing_step [OF G U(1) cur th(3)] go True by simp
    show ?thesis unfolding joined_def using P U(2,3) holder_same(1) [OF th(1)] th(2)
      by (auto intro!: exI [of _ "U(x := th)"])
  next
    case False
    then have x: "U x = Going (after_open G x (queue G))" "approaches (before_open G x) (T x)" using U(3) cur(2) by auto
    have c: "proc_ctx c s x = c" and ds: "mq_inv s" "3 \<le> length (gpr (proc_ctx c s x))"
      using cur playing_state [OF U(1)] by (auto simp: proc_ctx_def duo_state_def)
    show ?thesis
    proof (cases "T x = Going (before_open G x)")
      case True
      have "mq_open (key G) s = Some (queue G, s)" using mq_open_holder [of s "key G"] ds(1) U(2) by (simp add: mq_inv_def)
      from open_step [OF True cur(1) _ this st] ds(2) c have
        e: "s' = s" "T' = T(x := Called (\<lambda>d _. after_open G x d))" "arg 0 c' = Some (queue G)" "length (gpr c') = length (gpr c)" by auto
      let ?U = "U(x := Called (\<lambda>d _. after_open G x d))"
      have "playing G x0 (c', s, ?U)" using playing_returned [OF U(1) G cur(1) x(1) e(3,4)] by simp
      then show ?thesis unfolding joined_def e(1,2) using U(2,3) by (auto intro!: exI [of _ ?U])
    next
      case False
      from approaches_step [OF x(2) cur(1) st False] U x(1) show ?thesis unfolding joined_def by auto
    qed
  qed
qed

lemma holder_opened:
  assumes "holder name s = None" and "holder 0 s = Some d" and "length (mq s) = 32"
  shows "holder name (s\<lparr>mq := (mq s)[d := opened name (mq s ! d)]\<rparr>) = Some d"
proof -
  have "d < 32" using find_upt_Some [OF assms(2) [unfolded holder_def]] by simp
  moreover have "\<forall>q<32. msg_qname (mq s ! q) \<noteq> name" using assms(1,3) by (auto simp: holder_def find_None_iff)
  ultimately show ?thesis using assms(3) unfolding holder_def by (intro find_upt_SomeI) (auto simp: opened_def)
qed

lemma after_open_phase:
  "fair_game G \<Longrightarrow> after_open G (pinger G) (queue G) = send_from (queue G) (lits G ping_text) (length ping_text) 0
     (show_from (queue G) (ping_var G) (length pong_text) 0 (round_end G (pinger G)))"
  "fair_game G \<Longrightarrow> after_open G (ponger G) (queue G) = show_from (queue G) (pong_var G) (length ping_text) 0
     (send_from (queue G) (lits G pong_text) (length pong_text) 0 (round_end G (ponger G)))"
  by (auto simp: after_open_def round_end_def ping_open_def pong_open_def dest: fair_gameD(6))

lemma lobby_step:
  assumes G: "fair_game G" and L: "lobby G x0 (c, s, T)" and cur: "current s = Some x" "x = pinger G \<or> x = ponger G"
    and st: "prog_step e code (c, s, T) = Some (c', s', T')"
  shows "lobby G x0 (c', s', T') \<or> joined G x0 (c', s', T')"
proof -
  have ds: "duo_state (texts G) (pinger G) (ponger G) c s" and h: "holder (key G) s = None" "holder 0 s = Some (unat (queue G))"
    and out: "tx (uart0 s) = x0" and th: "\<forall>x \<in> {pinger G, ponger G}. approaches (before_open G x) (T x) \<and> executing s x"
    using L by (auto simp: lobby_def)
  have c: "proc_ctx c s x = c" using cur by (simp add: proc_ctx_def)
  show ?thesis
  proof (cases "T x = Going (before_open G x)")
    case True
    let ?s = "s\<lparr>mq := (mq s)[unat (queue G) := opened (key G) (mq s ! unat (queue G))]\<rparr>"
    have mi: "mq_inv s" "length (mq s) = 32" "3 \<le> length (gpr c)" using ds c cur(2) by (auto simp: duo_state_def mq_inv_def)
    have "mq_open (key G) s = Some (queue G, ?s)" using mq_open_holder [OF mi(2), of "key G"] h by simp
    from open_step [OF True cur(1) mi(3) this st] have
      e: "s' = ?s" "T' = T(x := Called (\<lambda>d _. after_open G x d))" "arg 0 c' = Some (queue G)" "length (gpr c') = length (gpr c)" by auto
    define U where "U = (\<lambda>y. if y = x then Called (\<lambda>d _. after_open G x d) else Going (after_open G y (queue G)))"
    obtain ql where ql: "sched_inv s ql" "pinger G \<in> set ql" "ponger G \<in> set ql" using duo_stateD [OF ds fair_gameD(1) [OF G]] by blast
    have q: "mq_inv ?s" using mq_inv_nth [OF mi(1) fair_gameD(7) [OF G]] by (intro mq_inv_upd [OF mi(1)]) (simp_all add: opened_def)
    have tm: "\<forall>(p, t) \<in> texts G. bytes_at (mem ?s) p (length t) = t" using ds by (simp add: duo_state_def)
    have cur1: "current ?s = Some x" "\<And>y. proc_ctx c ?s y = proc_ctx c s y" "sched_inv ?s ql" using cur(1) ql(1) by simp_all
    note ret = duo_returned [OF ds cur(1) cur1 ql(2,3) q tm e(4)]
    have hd: "heads_to (after_open G y (queue G)) (U y) (arg 0 (proc_ctx c' ?s y))" for y
      using ret(2) [of y] e(3) heads_toI(1) [of "after_open G y (queue G)"] by (auto simp: heads_to_def U_def)
    note hd = hd [of "pinger G", unfolded after_open_phase(1) [OF G]] hd [of "ponger G", unfolded after_open_phase(2) [OF G]]
    have "queue_at (pinger G) (ponger G) ping_text 0 0 (mq ?s ! unat (queue G)) (pst (pcb ?s ! pinger G)) (pst (pcb ?s ! ponger G))"
      using th mi(2) fair_gameD(7) [OF G] by (simp add: queue_at_def opened_def executing_def)
    then have "ping_phase G x0 0 0 (c', ?s, U)" using ret(1) out hd by (simp add: ping_phase_def duo_at_def receiver_at_def)
    then have "playing G x0 (c', ?s, U)" unfolding playing_def by blast
    then have "joined G x0 (c', ?s, T')" unfolding joined_def e(2)
      using holder_opened [OF h mi(2)] th by (auto simp: U_def intro!: exI [of _ U])
    then show ?thesis using e(1) by simp
  next
    case False
    have "approaches (before_open G x) (T x)" using th cur(2) by auto
    from approaches_step [OF this cur(1) st False] L show ?thesis unfolding lobby_def by auto
  qed
qed


section \<open>A round\<close>

text \<open>The steps of a round: one of the two goes on, if its round is not over, an interrupt comes, or
  others do something that leaves the two undisturbed.\<close>

inductive round_step :: "'h env \<Rightarrow> (u32 \<Rightarrow> unit prog) \<Rightarrow> game \<Rightarrow> ctx_t \<times> ('h, 'a) machine_scheme \<times> (nat \<Rightarrow> thread) \<Rightarrow>
    ctx_t \<times> ('h, 'a) machine_scheme \<times> (nat \<Rightarrow> thread) \<Rightarrow> bool" for e code G where
  player: "prog_step e code (c, s, T) = Some (c', s', T') \<Longrightarrow> current s = Some x \<Longrightarrow> x = pinger G \<or> x = ponger G \<Longrightarrow>
     T x \<noteq> Going (round_end G x) \<Longrightarrow> round_step e code G (c, s, T) (c', s', T')"
| interrupt: "kernel_handler_irq c (s\<lparr>GICC0 := (GICC0 s)\<lparr>IAR := i\<rparr>\<rparr>) = Some (c', s') \<Longrightarrow> round_step e code G (c, s, T) (c', s', T)"
| others: "undisturbed G (c, s) (c', s') \<Longrightarrow> T' (pinger G) = T (pinger G) \<Longrightarrow> T' (ponger G) = T (ponger G) \<Longrightarrow>
     round_step e code G (c, s, T) (c', s', T')"

definition round_inv :: "game \<Rightarrow> byte list \<Rightarrow> ctx_t \<times> ('h, 'a) kernel_scheme \<times> (nat \<Rightarrow> thread) \<Rightarrow> bool" where
  "round_inv G x0 st \<longleftrightarrow> lobby G x0 st \<or> joined G x0 st"

lemma round_state:
  assumes "round_inv G x0 (c, s, T)"
  shows "duo_state (texts G) (pinger G) (ponger G) c s" "executing s (pinger G) \<or> executing s (ponger G)"
  using assms by (auto simp: round_inv_def lobby_def joined_def dest: playing_state playing_executing)

lemma round_step_inv:
  assumes "fair_game G" and "round_step e code G st st'" and "round_inv G x0 st"
  shows "round_inv G x0 st'"
  using assms(2,3)
proof (induction rule: round_step.induct)
  case (player c s T c' s' T' x)
  then show ?case using lobby_step [OF assms(1) _ player(2,3,1)] joined_step [OF assms(1) _ player(2,3,1,4)] by (auto simp: round_inv_def)
next
  case (interrupt c s i c' s' T)
  note u = irq_undisturbed [OF assms(1) round_state [OF interrupt(2)] interrupt(1)]
  show ?case using round_undisturbed [OF u refl refl, of T] interrupt(2) by (auto simp: round_inv_def)
next
  case (others c s c' s' T' T)
  then show ?case using round_undisturbed [OF others(1-3)] by (auto simp: round_inv_def)
qed

interpretation rnd: transition_invariant "round_step e code G" "\<lambda>st. fair_game G \<and> round_inv G x0 st" for e code G x0
  by unfold_locales (blast intro: round_step_inv)

text \<open>What the console shows.\<close>

lemma receiver_shows: "receiver_at d cb t K x0 m x out th r \<Longrightarrow> \<exists>k. out = x0 @ take k t"
  by (auto simp: receiver_at_def)

lemma playing_shows:
  assumes "playing G x0 (c, s, T)"
  shows "\<exists>k. tx (uart0 s) = x0 @ take k (ping_text @ pong_text)"
proof -
  consider k where "tx (uart0 s) = x0 @ take k ping_text" | k where "tx (uart0 s) = (x0 @ ping_text) @ take k pong_text"
    using assms receiver_shows unfolding playing_def ping_phase_def pong_phase_def by (metis duo_atD(3))
  then show ?thesis
  proof cases
    case 1
    have "take k ping_text = take (min k (length ping_text)) (ping_text @ pong_text)" for k by (simp add: min_def)
    with 1 show ?thesis by metis
  next
    case 2
    then have "tx (uart0 s) = x0 @ take (length ping_text + k) (ping_text @ pong_text)" by simp
    then show ?thesis by blast
  qed
qed

text \<open>The end of \<open>ping\<close>'s round is the call that closes the queue, which nothing before it looks like.\<close>

lemma not_yet_over:
  assumes "heads_to P (Going (ping_rest l c k d)) r"
  shows "P = ping_rest l c k d"
  using assms by (auto simp: heads_to_def ping_rest_def)

lemma polite_not_end: "polite P \<Longrightarrow> P \<noteq> ping_rest l c k d"
  by (auto simp: polite_def ping_rest_def)

lemma playing_over:
  assumes "playing G x0 (c, s, T)" and over: "T (pinger G) = Going (round_end G (pinger G))"
  shows "tx (uart0 s) = x0 @ ping_text @ pong_text"
proof -
  have re: "round_end G (pinger G) = ping_rest (lits G) (ping_var G) (key G) (queue G)" by (simp add: round_end_def)
  have no: "\<not> (heads_to P (T (pinger G)) r \<and> polite P)" for P r using not_yet_over polite_not_end over re by metis
  have "\<not> ping_phase G x0 n m (c, s, T)" for n m
  proof
    assume "ping_phase G x0 n m (c, s, T)"
    from duo_heads(1) [OF this [unfolded ping_phase_def]] no polite_loops(2) [of 0 "length pong_text"] text_lengths show False by fastforce
  qed
  then obtain n m where "pong_phase G x0 n m (c, s, T)" using assms(1) unfolding playing_def by blast
  note D = duo_atD [OF this [unfolded pong_phase_def]]
  have m: "m \<le> length pong_text" using D(4) by (auto simp: queue_at_def)
  have "m = length pong_text \<and> tx (uart0 s) = (x0 @ ping_text) @ take m pong_text"
    using D(3) no polite_loops(2,3) m unfolding receiver_at_def by (metis le_neq_implies_less)
  then show ?thesis by simp
qed


section \<open>Properties\<close>

text \<open>C6. Ping and pong. When both programs are at the start of a round, no queue has its number and
  one is free, then in every interleaving of the two with interrupts and with other processes
  that leave them alone, the console shows at all times a beginning of the text of \<open>ping\<close>
  followed by that of \<open>pong\<close>, byte by byte in order; the two never wait for each other at the
  same time; and when \<open>ping\<close> comes to closing the queue, both texts are complete.\<close>

theorem pingpong_round:
  fixes s s' :: "('h, 'a) machine_scheme"
  assumes "fair_game G" and "lobby G x0 (c, s, T)" and "(round_step e code G)\<^sup>*\<^sup>* (c, s, T) (c', s', T')"
  shows "(\<exists>k. tx (uart0 s') = x0 @ take k (ping_text @ pong_text))
    \<and> (executing s' (pinger G) \<or> executing s' (ponger G))
    \<and> (T' (pinger G) = Going (round_end G (pinger G)) \<longrightarrow> tx (uart0 s') = x0 @ ping_text @ pong_text)"
proof -
  have inv: "round_inv G x0 (c', s', T')" using rnd.run_kept [OF assms(3), of x0] assms(1,2) by (simp add: round_inv_def)
  have na: "\<not> approaches (before_open G (pinger G)) (Going (round_end G (pinger G)))"
    using ping_at_step by (auto simp: approaches_def before_open_def round_end_def ping_rest_def)
  show ?thesis
  proof (cases "lobby G x0 (c', s', T')")
    case True
    then have "tx (uart0 s') = x0 @ take 0 (ping_text @ pong_text)" "T' (pinger G) \<noteq> Going (round_end G (pinger G))"
      using na by (auto simp: lobby_def)
    then show ?thesis using round_state(2) [OF inv] by blast
  next
    case False
    then obtain U where U: "playing G x0 (c', s', U)" "T' (pinger G) = U (pinger G) \<or> approaches (before_open G (pinger G)) (T' (pinger G))"
      using inv by (auto simp: round_inv_def joined_def)
    have "T' (pinger G) = Going (round_end G (pinger G)) \<Longrightarrow> tx (uart0 s') = x0 @ ping_text @ pong_text"
      using playing_over [OF U(1)] U(2) na by auto
    then show ?thesis using playing_shows [OF U(1)] round_state(2) [OF inv] by blast
  qed
qed

text \<open>An example: \<open>ping\<close> as process 0 and \<open>pong\<close> as process 1, their first round.\<close>

definition table :: game where
  "table = \<lparr>lits = \<lambda>t. if t = ping_text then 0x1000 else 0x2000, pinger = 0, ponger = 1, ping_var = 0x3000, pong_var = 0x4000, key = 100, queue = 0\<rparr>"

definition two_boards :: "unit machine" where
  "two_boards = board\<lparr>pcb := zero_pcb\<lparr>pst := EXECUTING\<rparr> # zero_pcb\<lparr>pid := 1, pst := EXECUTING\<rparr> # replicate 6 zero_pcb,
     rq := rq_of [0, 1], rq_size := 2, current := Some 0,
     mem := mem_put 0x1000 ping_text (mem_put 0x2000 pong_text (\<lambda>_. 0))\<rparr>"

lemma table_fair: "fair_game table"
proof -
  have far: "(of_nat k :: u32) \<noteq> w" if "k < 25" "25 \<le> unat w" for k w
  proof
    assume "of_nat k = w"
    then have "unat (of_nat k :: u32) = unat w" by simp
    with that show False by (simp add: unat_of_nat_u32)
  qed
  show ?thesis by (auto simp: fair_game_def apart_def table_def texts_def text_lengths dest!: far)
qed

lemma two_boards_lobby: "lobby table [] (zero_ctx, two_boards, \<lambda>x. Going (before_open table x))"
proof -
  have "ping_text \<noteq> pong_text" by (simp add: ping_text_def pong_text_def str_def)
  then have "\<forall>(p, t) \<in> texts table. bytes_at (mem two_boards) p (length t) = t"
    by (auto simp: texts_def table_def two_boards_def bytes_at_put bytes_at_past text_lengths)
  moreover have "sched_inv two_boards [0, 1]" "mq_inv two_boards"
    by (auto simp: sched_inv_def ready_def running_def two_boards_def zero_pcb_def board_def desk_def kernel.defs mq_inv_def zero_mq_def)
  moreover have "holder 100 two_boards = None" "holder 0 two_boards = Some 0"
    by (auto simp: holder_def find_None_iff two_boards_def board_def desk_def kernel.defs zero_mq_def intro!: find_upt_SomeI)
  moreover have "3 \<le> length (gpr (proc_ctx zero_ctx two_boards x))" "executing two_boards x" if "x < 2" for x
    using that by (auto simp: proc_ctx_def two_boards_def zero_pcb_def zero_ctx_def executing_def less_2_cases_iff)
  moreover have "tx (uart0 two_boards) = []" by (simp add: two_boards_def board_def desk_def kernel.defs)
  ultimately show ?thesis by (auto simp: lobby_def duo_state_def table_def approaches_def intro!: exI [of _ "[0, 1]"])
qed

theorem pingpong_round_witness:
  "\<exists>c s T. prog_step board_env (\<lambda>_. cexit) (zero_ctx, two_boards, \<lambda>x. Going (before_open table x)) = Some (c, s, T)
     \<and> (\<exists>k. tx (uart0 s) = take k (ping_text @ pong_text)) \<and> (executing s 0 \<or> executing s 1)"
proof -
  let ?T = "\<lambda>x. Going (before_open table x)"
  have k: "key table = 100" "pinger table = 0" "ponger table = 1" by (simp_all add: table_def)
  have h: "holder 100 two_boards = None" "holder 0 two_boards = Some 0" "length (mq two_boards) = 32"
    using two_boards_lobby by (auto simp: lobby_def table_def duo_state_def mq_inv_def)
  obtain s1 where o: "mq_open 100 two_boards = Some (0, s1)" using mq_open_holder [OF h(3), of 100] h(1,2) by simp
  have "kernel_handler_svc board_env 8 (load_args [100] zero_ctx) two_boards = Some (load_args [0] zero_ctx, s1)"
    using o by (simp add: kernel_handler_svc_def ret_def set_r0_def arg_def load_args_simps zero_ctx_def load_args_def splice_at_def)
  moreover have cur: "current two_boards = Some 0" by (simp add: two_boards_def)
  ultimately obtain T where st: "prog_step board_env (\<lambda>_. cexit) (zero_ctx, two_boards, ?T) = Some (load_args [0] zero_ctx, s1, T)"
    by (simp add: prog_step_def before_open_step k(1))
  have "?T 0 \<noteq> Going (round_end table 0)" by (simp add: before_open_step round_end_def k(2) ping_rest_def)
  from player [where G = table, OF st cur _ this] k have "round_step board_env (\<lambda>_. cexit) table (zero_ctx, two_boards, ?T) (load_args [0] zero_ctx, s1, T)" by simp
  from pingpong_round [OF table_fair two_boards_lobby r_into_rtranclp [of "round_step board_env (\<lambda>_. cexit) table", OF this]] k st show ?thesis by auto
qed

end
